(* ===== verification/Prelude.thy ===== *)
theory Prelude
  imports Main "HOL-Library.Word" "HOL-Library.Sublist"
begin

text \<open>
  Shared vocabulary of the development: the fixed-width integers of the C++ sources,
  the outcome of a call that can throw or run into undefined behaviour, little-endian
  and big-endian byte images of integers, and the list lemmas the components share.
\<close>

unbundle bit_operations_syntax

named_theorems codec_simps \<open>equations that evaluate encoders and decoders\<close>

section \<open>Machine integers\<close>

type_synonym u8 = "8 word"
type_synonym u16 = "16 word"
type_synonym u32 = "32 word"
type_synonym u64 = "64 word"
type_synonym bytes = "8 word list"

text \<open>
  A C++ \<open>int\<close> and a \<open>long long\<close> are kept as \<open>int\<close>; the ranges are explicit.
\<close>

definition is_i32 :: "int \<Rightarrow> bool" where
  "is_i32 x \<longleftrightarrow> - (2 ^ 31) \<le> x \<and> x < 2 ^ 31"

definition is_i64 :: "int \<Rightarrow> bool" where
  "is_i64 x \<longleftrightarrow> - (2 ^ 63) \<le> x \<and> x < 2 ^ 63"

definition is_u64 :: "int \<Rightarrow> bool" where
  "is_u64 x \<longleftrightarrow> 0 \<le> x \<and> x < 2 ^ 64"

text \<open>Conversion to a signed type of \<open>w\<close> bits keeps the low bits (two's complement).\<close>

definition to_signed :: "nat \<Rightarrow> int \<Rightarrow> int" where
  "to_signed w x = (x + 2 ^ (w - 1)) mod 2 ^ w - 2 ^ (w - 1)"

abbreviation to_i32 :: "int \<Rightarrow> int" where
  "to_i32 \<equiv> to_signed 32"

abbreviation to_i64 :: "int \<Rightarrow> int" where
  "to_i64 \<equiv> to_signed 64"

lemma to_i32_id [simp]: "is_i32 x \<Longrightarrow> to_i32 x = x"
  by (simp add: is_i32_def to_signed_def)

lemma to_i64_id [simp]: "is_i64 x \<Longrightarrow> to_i64 x = x"
  by (simp add: is_i64_def to_signed_def)

lemma is_i32_to_i32 [simp]: "is_i32 (to_i32 x)"
  by (simp add: is_i32_def to_signed_def)

lemma is_i64_to_i64 [simp]: "is_i64 (to_i64 x)"
  by (simp add: is_i64_def to_signed_def)

lemma to_signed_add: "to_signed w (x + 2 ^ w) = to_signed w x"
proof -
  have "x + 2 ^ w + 2 ^ (w - 1) = (x + 2 ^ (w - 1)) + 2 ^ w" by simp
  then show ?thesis by (simp only: to_signed_def mod_add_self2)
qed

text \<open>Integer division and remainder of C and C++ truncate towards zero.\<close>

definition cdiv :: "int \<Rightarrow> int \<Rightarrow> int" where
  "cdiv a b = sgn a * sgn b * (\<bar>a\<bar> div \<bar>b\<bar>)"

definition cmod :: "int \<Rightarrow> int \<Rightarrow> int" where
  "cmod a b = a - b * cdiv a b"

lemma cdiv_cmod: "b * cdiv a b + cmod a b = a"
  by (simp add: cmod_def)

lemma cdiv_nonneg: "0 \<le> a \<Longrightarrow> 0 < b \<Longrightarrow> cdiv a b = a div b"
  by (cases "a = 0") (simp_all add: cdiv_def)

lemma cdiv_neg: "a < 0 \<Longrightarrow> 0 < b \<Longrightarrow> cdiv a b = - ((- a) div b)"
  by (simp add: cdiv_def)

lemma cmod_nonneg: "0 \<le> a \<Longrightarrow> 0 < b \<Longrightarrow> cmod a b = a mod b"
  by (simp add: cmod_def cdiv_nonneg minus_mult_div_eq_mod)

lemma cmod_neg: "a < 0 \<Longrightarrow> 0 < b \<Longrightarrow> cmod a b = - ((- a) mod b)"
proof -
  assume h: "a < 0" "0 < b"
  have eq: "b * ((- a) div b) + (- a) mod b = - a"
    by (rule mult_div_mod_eq)
  have "cmod a b = a + b * ((- a) div b)"
    using h by (simp add: cmod_def cdiv_neg)
  also have "\<dots> = - ((- a) mod b)"
    using eq by linarith
  finally show ?thesis .
qed

lemma cmod_bound: "0 < b \<Longrightarrow> \<bar>cmod a b\<bar> < b"
  by (cases "0 \<le> a") (simp_all add: cmod_nonneg cmod_neg)

lemma cdiv_2: "cdiv (2 * x) 2 = x"
  by (cases "x = 0") (simp_all add: cdiv_def abs_mult sgn_mult sgn_mult_abs)

section \<open>Outcomes of calls\<close>

text \<open>
  A call ends normally, throws one of the standard exceptions the sources let escape,
  or performs an operation whose behaviour the language leaves undefined.
\<close>

datatype cxx_error =
    Invalid_argument
  | Out_of_range
  | Runtime_error string
  | Out_of_bounds \<comment> \<open>an access outside an array or a buffer\<close>

type_synonym 'a res = "cxx_error + 'a"

definition res_bind :: "'a res \<Rightarrow> ('a \<Rightarrow> 'b res) \<Rightarrow> 'b res" where
  "res_bind m f = (case m of Inl e \<Rightarrow> Inl e | Inr x \<Rightarrow> f x)"

lemma res_bind_simps [simp]:
  "res_bind (Inl e) f = Inl e"
  "res_bind (Inr x) f = f x"
  by (simp_all add: res_bind_def)

lemma res_bind_assoc: "res_bind (res_bind m f) g = res_bind m (\<lambda>x. res_bind (f x) g)"
  by (cases m) simp_all

lemma res_bind_cong [fundef_cong]:
  "m = m' \<Longrightarrow> (\<And>x. m' = Inr x \<Longrightarrow> f x = f' x) \<Longrightarrow> res_bind m f = res_bind m' f'"
  by (cases m') simp_all

lemma res_bind_Inr_iff: "res_bind m f = Inr y \<longleftrightarrow> (\<exists>x. m = Inr x \<and> f x = Inr y)"
  by (cases m) simp_all

lemma res_bind_Inl_iff: "res_bind m f = Inl e \<longleftrightarrow> m = Inl e \<or> (\<exists>x. m = Inr x \<and> f x = Inl e)"
  by (cases m) auto

section \<open>Byte images of integers\<close>

text \<open>\<open>memcpy\<close> of an integer object on the (little-endian) targets x86-64 and riscv64.\<close>

definition le16 :: "u16 \<Rightarrow> bytes" where
  "le16 w = [ucast w, ucast (drop_bit 8 w)]"

definition le32 :: "u32 \<Rightarrow> bytes" where
  "le32 w = [ucast w, ucast (drop_bit 8 w), ucast (drop_bit 16 w), ucast (drop_bit 24 w)]"

definition un_le16 :: "bytes \<Rightarrow> u16" where
  "un_le16 bs = ucast (bs ! 0) OR push_bit 8 (ucast (bs ! 1))"

definition un_le32 :: "bytes \<Rightarrow> u32" where
  "un_le32 bs = ucast (bs ! 0) OR push_bit 8 (ucast (bs ! 1))
     OR push_bit 16 (ucast (bs ! 2)) OR push_bit 24 (ucast (bs ! 3))"

text \<open>\<open>htons\<close> and \<open>ntohs\<close> on a little-endian host swap the two bytes.\<close>

definition htons :: "u16 \<Rightarrow> u16" where
  "htons w = push_bit 8 w OR drop_bit 8 w"

lemma length_le16 [simp]: "length (le16 w) = 2"
  by (simp add: le16_def)

lemma length_le32 [simp]: "length (le32 w) = 4"
  by (simp add: le32_def)

lemma un_le16_append [simp]: "un_le16 (le16 w @ bs) = w"
  by (rule bit_word_eqI) (auto simp: un_le16_def le16_def bit_simps)

lemma un_le32_append [simp]: "un_le32 (le32 w @ bs) = w"
proof (rule bit_word_eqI)
  fix n
  assume "n < LENGTH(32)"
  then consider "n < 8" | "8 \<le> n" "n < 16" | "16 \<le> n" "n < 24" | "24 \<le> n" "n < 32"
    by force
  then show "bit (un_le32 (le32 w @ bs)) n = bit w n"
    by cases (auto simp: un_le32_def le32_def bit_simps)
qed

lemmas un_le16_le16 [simp] = un_le16_append [of _ "[]", simplified]

lemmas un_le32_le32 [simp] = un_le32_append [of _ "[]", simplified]

lemma htons_htons [simp]: "htons (htons w) = w"
  by (rule bit_word_eqI) (auto simp: htons_def bit_simps)

section \<open>Lists\<close>

lemma take_append_exact [simp]: "length xs = n \<Longrightarrow> take n (xs @ ys) = xs"
  by auto

lemma drop_append_exact [simp]: "length xs = n \<Longrightarrow> drop n (xs @ ys) = ys"
  by auto

lemma takeWhile_all [simp]: "(\<And>x. x \<in> set xs \<Longrightarrow> P x) \<Longrightarrow> takeWhile P xs = xs"
  by (rule takeWhile_eq_all_conv [THEN iffD2]) blast

lemma list_length_6:
  "length xs = 6 \<Longrightarrow> \<exists>a b c d e f. xs = [a, b, c, d, e, f]"
  by (auto simp: numeral_eq_Suc length_Suc_conv)

end
