(* ===== verification/Cxx_Strings.thy ===== *)
theory Cxx_Strings
  imports Prelude "HOL-Library.Char_ord"
begin

text \<open>
  The operations of \<open>std::string\<close>, the numeric conversions of the C and C++ standard
  libraries and the character classes the sources use. A \<open>std::string\<close> is a \<open>string\<close>
  (a list of bytes); a \<open>std::vector<uint8_t>\<close> is a list of 8-bit words.
\<close>

section \<open>Bytes and characters\<close>

definition byte_of_char :: "char \<Rightarrow> u8" where
  "byte_of_char c = of_char c"

definition char_of_byte :: "u8 \<Rightarrow> char" where
  "char_of_byte b = char_of (unat b)"

definition bytes_of_string :: "string \<Rightarrow> bytes" where
  "bytes_of_string s = map byte_of_char s"

definition string_of_bytes :: "bytes \<Rightarrow> string" where
  "string_of_bytes bs = map char_of_byte bs"

lemma unat_byte_of_char: "unat (byte_of_char c) = of_char c"
proof -
  have "(of_char c :: nat) < 256" by simp
  then have "unat (word_of_nat (of_char c) :: u8) = of_char c"
    by (simp add: unat_of_nat)
  then show ?thesis by (simp only: byte_of_char_def of_nat_of_char)
qed

lemma char_of_byte_of_char [simp]: "char_of_byte (byte_of_char c) = c"
  by (simp add: char_of_byte_def unat_byte_of_char)

lemma string_of_bytes_of_string [simp]: "string_of_bytes (bytes_of_string s) = s"
  by (simp add: string_of_bytes_def bytes_of_string_def comp_def)

lemma length_bytes_of_string [simp]: "length (bytes_of_string s) = length s"
  by (simp add: bytes_of_string_def)

lemma length_string_of_bytes [simp]: "length (string_of_bytes bs) = length bs"
  by (simp add: string_of_bytes_def)

lemma bytes_of_string_append [simp]:
  "bytes_of_string (s @ t) = bytes_of_string s @ bytes_of_string t"
  by (simp add: bytes_of_string_def)

lemma string_of_bytes_append [simp]:
  "string_of_bytes (s @ t) = string_of_bytes s @ string_of_bytes t"
  by (simp add: string_of_bytes_def)

lemma byte_of_char_inject [simp]: "byte_of_char c = byte_of_char d \<longleftrightarrow> c = d"
  by (metis char_of_byte_of_char)

text \<open>\<open>std::isspace\<close> and \<open>std::isdigit\<close> in the C locale.\<close>

definition is_space :: "char \<Rightarrow> bool" where
  "is_space c \<longleftrightarrow> (let n = (of_char c :: nat) in n = 32 \<or> 9 \<le> n \<and> n \<le> 13)"

definition is_digit :: "char \<Rightarrow> bool" where
  "is_digit c \<longleftrightarrow> (let n = (of_char c :: nat) in 48 \<le> n \<and> n \<le> 57)"

definition digit_val :: "char \<Rightarrow> nat" where
  "digit_val c = of_char c - 48"

definition digit_char :: "nat \<Rightarrow> char" where
  "digit_char d = char_of (48 + d)"

lemma of_char_digit_char [simp]: "d < 10 \<Longrightarrow> (of_char (digit_char d) :: nat) = 48 + d"
  by (simp add: digit_char_def)

lemma digit_val_digit_char [simp]: "d < 10 \<Longrightarrow> digit_val (digit_char d) = d"
  by (simp add: digit_val_def)

lemma is_digit_digit_char [simp]: "d < 10 \<Longrightarrow> is_digit (digit_char d)"
  by (simp add: is_digit_def)

lemma digit_not_space [simp]: "is_digit c \<Longrightarrow> \<not> is_space c"
  by (auto simp: is_digit_def is_space_def Let_def)

lemma not_digit_consts [simp]:
  "\<not> is_digit CHR '' ''" "\<not> is_digit CHR ''-''" "\<not> is_digit CHR ''+''" "\<not> is_digit CHR 0x00"
  "\<not> is_digit CHR '':''"
  by (simp_all add: is_digit_def)

lemma not_space_consts [simp]:
  "is_space CHR '' ''" "\<not> is_space CHR ''-''" "\<not> is_space CHR ''+''" "\<not> is_space CHR 0x00"
  by (simp_all add: is_space_def)

lemma is_digit_neq [simp]:
  "is_digit c \<Longrightarrow> c \<noteq> CHR '' ''" "is_digit c \<Longrightarrow> c \<noteq> CHR ''-''"
  "is_digit c \<Longrightarrow> c \<noteq> CHR ''+''" "is_digit c \<Longrightarrow> c \<noteq> CHR 0x00"
  by auto

section \<open>Printing integers: \<open>std::to_string\<close>, \<open>operator<<\<close>, \<open>%lu\<close>, \<open>%ld\<close>\<close>

fun show_nat :: "nat \<Rightarrow> string" where
  "show_nat n = (if n < 10 then [digit_char n]
     else show_nat (n div 10) @ [digit_char (n mod 10)])"

declare show_nat.simps [simp del]

definition show_int :: "int \<Rightarrow> string" where
  "show_int i = (if i < 0 then CHR ''-'' # show_nat (nat (- i)) else show_nat (nat i))"

definition show_word :: "'a::len word \<Rightarrow> string" where
  "show_word w = show_nat (unat w)"

section \<open>Reading integers\<close>

definition dec_val :: "string \<Rightarrow> nat" where
  "dec_val s = foldl (\<lambda>a c. 10 * a + digit_val c) 0 s"

lemma dec_val_snoc [simp]: "dec_val (s @ [c]) = 10 * dec_val s + digit_val c"
  by (simp add: dec_val_def)

lemma dec_val_single [simp]: "dec_val [c] = digit_val c"
  by (simp add: dec_val_def)

lemma show_nat_digits: "c \<in> set (show_nat n) \<Longrightarrow> is_digit c"
proof (induction n rule: show_nat.induct)
  case (1 n)
  then show ?case
    by (cases "n < 10") (auto simp: show_nat.simps [of n])
qed

lemma show_nat_neq_Nil [simp]: "show_nat n \<noteq> []"
  by (subst show_nat.simps) simp

lemma dec_val_show_nat [simp]: "dec_val (show_nat n) = n"
proof (induction n rule: show_nat.induct)
  case (1 n)
  show ?case
  proof (cases "n < 10")
    case True
    then show ?thesis by (simp add: show_nat.simps [of n])
  next
    case False
    with 1 have "dec_val (show_nat n) = 10 * (n div 10) + n mod 10"
      by (simp add: show_nat.simps [of n])
    then show ?thesis by simp
  qed
qed

text \<open>
  What \<open>strtol\<close>, \<open>strtoull\<close>, \<open>%lu\<close>, \<open>%ld\<close> and \<open>%lld\<close> recognise in base 10: blanks, an
  optional sign, digits. The result is the sign, the magnitude and the rest of the input;
  \<open>None\<close> when there is no digit.
\<close>

definition scan_sign :: "string \<Rightarrow> bool \<times> string" where
  "scan_sign s = (case s of
      c # t \<Rightarrow> if c = CHR ''-'' then (True, t) else if c = CHR ''+'' then (False, t) else (False, s)
    | [] \<Rightarrow> (False, s))"

definition scan_number :: "string \<Rightarrow> (bool \<times> nat \<times> string) option" where
  "scan_number s =
     (let (neg, t) = scan_sign (dropWhile is_space s); ds = takeWhile is_digit t
      in if ds = [] then None else Some (neg, dec_val ds, dropWhile is_digit t))"

definition signed_val :: "bool \<Rightarrow> nat \<Rightarrow> int" where
  "signed_val neg m = (if neg then - int m else int m)"

text \<open>\<open>std::stoi\<close>: \<open>strtol\<close> followed by the range check of \<open>int\<close>.\<close>

definition stoi :: "string \<Rightarrow> int res" where
  "stoi s = (case scan_number s of
      None \<Rightarrow> Inl Invalid_argument
    | Some (neg, m, _) \<Rightarrow>
        if is_i32 (signed_val neg m) then Inr (signed_val neg m) else Inl Out_of_range)"

text \<open>\<open>std::stoull\<close>: a leading minus negates modulo \<open>2 ^ 64\<close>.\<close>

definition stoull :: "string \<Rightarrow> u64 res" where
  "stoull s = (case scan_number s of
      None \<Rightarrow> Inl Invalid_argument
    | Some (neg, m, _) \<Rightarrow>
        if m < 2 ^ 64 then Inr (if neg then - of_nat m else of_nat m) else Inl Out_of_range)"

lemma is_digit_show_nat [simp]: "c \<in> set (show_nat n) \<Longrightarrow> is_digit c"
  by (rule show_nat_digits)

lemma takeWhile_show_nat [simp]:
  "takeWhile is_digit (show_nat n @ t) = show_nat n @ takeWhile is_digit t"
  by (rule takeWhile_append2) simp

lemma dropWhile_show_nat [simp]:
  "dropWhile is_digit (show_nat n @ t) = dropWhile is_digit t"
  by (rule dropWhile_append2) simp

lemma dropWhile_space_show_nat [simp]: "dropWhile is_space (show_nat n @ t) = show_nat n @ t"
proof -
  have "\<not> is_space (hd (show_nat n))"
    by (rule digit_not_space, rule show_nat_digits [of _ n]) simp
  then show ?thesis by (cases "show_nat n") simp_all
qed

lemma scan_sign_show_nat [simp]: "scan_sign (show_nat n @ t) = (False, show_nat n @ t)"
proof -
  have "is_digit (hd (show_nat n))"
    by (rule show_nat_digits [of _ n]) simp
  then show ?thesis by (cases "show_nat n") (auto simp: scan_sign_def)
qed

definition stops_number :: "string \<Rightarrow> bool" where
  "stops_number t \<longleftrightarrow> (case t of [] \<Rightarrow> True | c # _ \<Rightarrow> \<not> is_digit c)"

lemma stops_number_simps [simp]:
  "stops_number []" "stops_number (c # t) \<longleftrightarrow> \<not> is_digit c"
  by (simp_all add: stops_number_def)

lemma stops_takeWhile [simp]: "stops_number t \<Longrightarrow> takeWhile is_digit t = []"
  by (cases t) simp_all

lemma stops_dropWhile [simp]: "stops_number t \<Longrightarrow> dropWhile is_digit t = t"
  by (cases t) simp_all

lemma scan_number_show_nat [simp]:
  "stops_number t \<Longrightarrow> scan_number (show_nat n @ t) = Some (False, n, t)"
  by (simp add: scan_number_def)

lemma scan_number_space [simp]: "is_space c \<Longrightarrow> scan_number (c # s) = scan_number s"
  by (simp add: scan_number_def)

lemma scan_number_show_int [simp]:
  "stops_number t \<Longrightarrow> scan_number (show_int i @ t) = Some (i < 0, nat \<bar>i\<bar>, t)"
proof (cases "i < 0")
  case True
  assume "stops_number t"
  with True show ?thesis
    by (simp add: show_int_def scan_number_def scan_sign_def)
next
  case False
  assume "stops_number t"
  with False show ?thesis
    by (simp add: show_int_def)
qed

lemma signed_val_show [simp]: "signed_val (i < 0) (nat \<bar>i\<bar>) = i"
  by (simp add: signed_val_def)

lemma stoi_show_int [simp]: "is_i32 i \<Longrightarrow> stoi (show_int i) = Inr i"
  using scan_number_show_int [of "[]" i] by (simp add: stoi_def)

lemma stoi_show_nat [simp]: "n < 2 ^ 31 \<Longrightarrow> stoi (show_nat n) = Inr (int n)"
  using scan_number_show_nat [of "[]" n] by (simp add: stoi_def signed_val_def is_i32_def)

lemma stoull_show_nat [simp]: "n < 2 ^ 64 \<Longrightarrow> stoull (show_nat n) = Inr (of_nat n)"
  using scan_number_show_nat [of "[]" n] by (simp add: stoull_def)

lemma stoull_show_word [simp]: "stoull (show_word (w :: u64)) = Inr w"
proof -
  have "unat w < 2 ^ LENGTH(64)" by (rule unsigned_less)
  then show ?thesis by (simp add: show_word_def)
qed

lemma stoi_range: "stoi s = Inr i \<Longrightarrow> is_i32 i"
  by (auto simp: stoi_def split: option.splits if_splits)

lemma show_int_no_space [simp]: "CHR '' '' \<notin> set (show_int i)"
  by (auto simp: show_int_def dest: show_nat_digits)

lemma show_word_no_space [simp]: "CHR '' '' \<notin> set (show_word w)"
  by (auto simp: show_word_def dest: show_nat_digits)

lemma show_int_neq_Nil [simp]: "show_int i \<noteq> []"
  by (simp add: show_int_def)

lemma show_word_neq_Nil [simp]: "show_word w \<noteq> []"
  by (simp add: show_word_def)

section \<open>Searching and slicing\<close>

fun find_sub :: "string \<Rightarrow> string \<Rightarrow> nat option" where
  "find_sub pat [] = (if pat = [] then Some 0 else None)"
| "find_sub pat (c # s) =
     (if prefix pat (c # s) then Some 0 else map_option Suc (find_sub pat s))"

text \<open>\<open>s.find(pat, pos)\<close>; \<open>None\<close> is \<open>npos\<close>.\<close>

definition str_find :: "string \<Rightarrow> string \<Rightarrow> nat \<Rightarrow> nat option" where
  "str_find s pat pos =
     (if length s < pos then None else map_option ((+) pos) (find_sub pat (drop pos s)))"

text \<open>\<open>s.find_last_of(c)\<close> for one character.\<close>

definition str_find_last :: "string \<Rightarrow> char \<Rightarrow> nat option" where
  "str_find_last s c = (case find_sub [c] (rev s) of None \<Rightarrow> None | Some i \<Rightarrow> Some (length s - 1 - i))"

text \<open>\<open>s.substr(pos, n)\<close> throws when \<open>pos\<close> is past the end.\<close>

definition substr :: "string \<Rightarrow> nat \<Rightarrow> nat \<Rightarrow> string res" where
  "substr s pos n = (if length s < pos then Inl Out_of_range else Inr (take n (drop pos s)))"

text \<open>What \<open>c_str()\<close> shows to a C function: the characters before the first NUL.\<close>

definition c_str :: "string \<Rightarrow> string" where
  "c_str s = takeWhile (\<lambda>c. c \<noteq> CHR 0x00) s"

definition ltrim :: "string \<Rightarrow> string" where
  "ltrim s = dropWhile is_space s"

definition rtrim :: "string \<Rightarrow> string" where
  "rtrim s = rev (dropWhile is_space (rev s))"

lemma find_sub_prefix [simp]: "prefix pat s \<Longrightarrow> find_sub pat s = Some 0"
  by (cases s) simp_all

lemma find_sub_Some: "find_sub pat s = Some i \<Longrightarrow> i + length pat \<le> length s \<and> prefix pat (drop i s)"
proof (induction pat s arbitrary: i rule: find_sub.induct)
  case (2 pat c s)
  show ?case
  proof (cases "prefix pat (c # s)")
    case True
    with "2.prems" have "i = 0" by simp
    with True show ?thesis by (auto dest: prefix_length_le)
  next
    case False
    with "2.prems" obtain j where j: "find_sub pat s = Some j" "i = Suc j" by auto
    with "2.IH" [OF False j(1)] show ?thesis by simp
  qed
qed (auto split: if_splits)

lemma find_sub_None:
  "find_sub pat s = None \<longleftrightarrow> (\<forall>i < Suc (length s). \<not> prefix pat (drop i s))"
proof (induction pat s rule: find_sub.induct)
  case (2 pat c s)
  then show ?case
    by (cases "prefix pat (c # s)") (simp_all only: find_sub.simps All_less_Suc2 [of "Suc _"]
        if_True if_False option.simps map_option_is_None list.size drop0 drop_Suc_Cons add_Suc_right
        add_0_right, simp_all)
qed (simp add: prefix_Nil)

lemma find_char_append: "c \<notin> set v \<Longrightarrow> find_sub [c] (v @ c # r) = Some (length v)"
  by (induction v) auto

lemma find_char_absent: "c \<notin> set v \<Longrightarrow> find_sub [c] v = None"
  by (induction v) auto

lemma c_str_id [simp]: "CHR 0x00 \<notin> set s \<Longrightarrow> c_str s = s"
  by (auto simp: c_str_def)

lemma c_str_append_NUL [simp]: "c_str (s @ CHR 0x00 # t) = c_str s"
  by (induction s) (simp_all add: c_str_def)

end
