(* ===== verification/Ethernet.thy ===== *)
theory Ethernet
  imports Cxx_Strings
begin

text \<open>
  \<open>src/src/ethernet.h\<close>: MAC addresses with their textual form, and Ethernet frames.
  The six-byte array of an address is a datatype with six byte fields. Of a frame's data
  array the model keeps the bytes that have been written.
\<close>

section \<open>Addresses\<close>

datatype address = Address u8 u8 u8 u8 u8 u8

fun addr :: "address \<Rightarrow> bytes" where
  "addr (Address a b c d e f) = [a, b, c, d, e, f]"

definition address_of_bytes :: "bytes \<Rightarrow> address" where
  "address_of_bytes bs = Address (bs ! 0) (bs ! 1) (bs ! 2) (bs ! 3) (bs ! 4) (bs ! 5)"

definition zero_address :: address where
  "zero_address = Address 0 0 0 0 0 0"

definition BROADCAST :: address where
  "BROADCAST = Address 0xFF 0xFF 0xFF 0xFF 0xFF 0xFF"

lemma length_addr [simp]: "length (addr a) = 6"
  by (cases a) simp

lemma address_of_bytes_addr [simp]: "address_of_bytes (addr a @ bs) = a"
  by (cases a) (simp add: address_of_bytes_def)

lemma address_of_bytes_addr_Nil [simp]: "address_of_bytes (addr a) = a"
  using address_of_bytes_addr [of a "[]"] by simp

section \<open>Printing addresses\<close>

text \<open>\<open>%02X\<close> and \<open>%02x\<close> of a value below 256.\<close>

definition hex_upper :: "nat \<Rightarrow> char" where
  "hex_upper d = (if d < 10 then char_of (48 + d) else char_of (55 + d))"

definition hex_lower :: "nat \<Rightarrow> char" where
  "hex_lower d = (if d < 10 then char_of (48 + d) else char_of (87 + d))"

definition fmt_02X :: "u8 \<Rightarrow> string" where
  "fmt_02X b = [hex_upper (unat b div 16), hex_upper (unat b mod 16)]"

definition fmt_02x :: "u8 \<Rightarrow> string" where
  "fmt_02x b = [hex_lower (unat b div 16), hex_lower (unat b mod 16)]"

fun address_str :: "address \<Rightarrow> string" where
  "address_str (Address a b c d e f) =
     fmt_02X a @ '':'' @ fmt_02X b @ '':'' @ fmt_02X c @ '':'' @
     fmt_02X d @ '':'' @ fmt_02X e @ '':'' @ fmt_02X f"

section \<open>Scanning addresses\<close>

definition hex_digit :: "char \<Rightarrow> nat option" where
  "hex_digit c = (let n = (of_char c :: nat) in
     if 48 \<le> n \<and> n \<le> 57 then Some (n - 48)
     else if 65 \<le> n \<and> n \<le> 70 then Some (n - 55)
     else if 97 \<le> n \<and> n \<le> 102 then Some (n - 87)
     else None)"

text \<open>
  The conversion \<open>%2x\<close> of \<open>sscanf\<close>: blanks, then at most two characters, among them an
  optional sign; \<open>0x\<close> is taken as the prefix of base 16 and reads as zero. The result is
  the value converted to \<open>uint8_t\<close>, as both callers do, and the rest of the input.
\<close>

definition scan_hex_digits :: "nat \<Rightarrow> string \<Rightarrow> (nat \<times> string) option" where
  "scan_hex_digits w s = (case s of
      [] \<Rightarrow> None
    | c # t \<Rightarrow> (case hex_digit c of
        None \<Rightarrow> None
      | Some d \<Rightarrow>
          if w = 1 then Some (d, t)
          else (case t of
              [] \<Rightarrow> Some (d, t)
            | c' # t' \<Rightarrow>
                if c = CHR ''0'' \<and> (c' = CHR ''x'' \<or> c' = CHR ''X'') then Some (0, t')
                else (case hex_digit c' of
                    None \<Rightarrow> Some (d, t)
                  | Some d' \<Rightarrow> Some (16 * d + d', t')))))"

definition scan_2x :: "string \<Rightarrow> (u8 \<times> string) option" where
  "scan_2x s = (case dropWhile is_space s of
      [] \<Rightarrow> None
    | c # t \<Rightarrow>
        if c = CHR ''-'' then map_option (\<lambda>(v, r). (- of_nat v, r)) (scan_hex_digits 1 t)
        else if c = CHR ''+'' then map_option (\<lambda>(v, r). (of_nat v, r)) (scan_hex_digits 1 t)
        else map_option (\<lambda>(v, r). (of_nat v, r)) (scan_hex_digits 2 (c # t)))"

text \<open>The format \<open>%2x:%2x:%2x:%2x:%2x:%2x\<close>: \<open>n\<close> more conversions, each but the last
  followed by a colon. \<open>None\<close> when fewer than all conversions succeed.\<close>

fun scan_mac :: "nat \<Rightarrow> string \<Rightarrow> bytes option" where
  "scan_mac 0 s = Some []"
| "scan_mac (Suc n) s = (case scan_2x s of
      None \<Rightarrow> None
    | Some (b, r) \<Rightarrow>
        if n = 0 then Some [b]
        else (case r of
            c # r' \<Rightarrow> if c = CHR '':'' then map_option ((#) b) (scan_mac n r') else None
          | [] \<Rightarrow> None))"

definition from_string :: "string \<Rightarrow> address" where
  "from_string s = (case scan_mac 6 (c_str s) of
      Some bs \<Rightarrow> address_of_bytes bs
    | None \<Rightarrow> zero_address)"

lemma hex_digit_upper [simp]: "d < 16 \<Longrightarrow> hex_digit (hex_upper d) = Some d"
  by (auto simp: hex_digit_def hex_upper_def Let_def)

lemma hex_digit_lower [simp]: "d < 16 \<Longrightarrow> hex_digit (hex_lower d) = Some d"
  by (auto simp: hex_digit_def hex_lower_def Let_def)

lemma hex_digit_facts:
  "hex_digit c = Some d \<Longrightarrow> \<not> is_space c \<and> c \<noteq> CHR ''-'' \<and> c \<noteq> CHR ''+'' \<and> c \<noteq> CHR ''x'' \<and>
     c \<noteq> CHR ''X'' \<and> c \<noteq> CHR 0x00 \<and> c \<noteq> CHR '':''"
  by (auto simp: hex_digit_def is_space_def Let_def split: if_splits)

lemma scan_2x_pair:
  assumes "hex_digit c = Some d" and "hex_digit c' = Some d'"
  shows "scan_2x (c # c' # r) = Some (of_nat (16 * d + d'), r)"
  using hex_digit_facts [OF assms(1)] hex_digit_facts [OF assms(2)] assms
  by (simp add: scan_2x_def scan_hex_digits_def)

lemma unat_u8_lt: "unat (b :: u8) < 256"
  using unsigned_less [of b] by simp

lemma scan_2x_fmt [simp]:
  "scan_2x (fmt_02X b @ r) = Some (b, r)"
  "scan_2x (fmt_02x b @ r) = Some (b, r)"
proof -
  have "unat b div 16 < 16" using unat_u8_lt [of b] by simp
  moreover have "unat b mod 16 < 16" by simp
  moreover have "(of_nat (16 * (unat b div 16) + unat b mod 16) :: u8) = b"
    by (simp only: mult_div_mod_eq) simp
  ultimately show "scan_2x (fmt_02X b @ r) = Some (b, r)" and "scan_2x (fmt_02x b @ r) = Some (b, r)"
    by (simp_all add: fmt_02X_def fmt_02x_def scan_2x_pair)
qed

lemma scan_2x_fmt_Nil [simp]: "scan_2x (fmt_02X b) = Some (b, [])" "scan_2x (fmt_02x b) = Some (b, [])"
  using scan_2x_fmt [of b "[]"] by simp_all

lemma hex_neq_NUL [simp]:
  "d < 16 \<Longrightarrow> hex_upper d \<noteq> CHR 0x00" "d < 16 \<Longrightarrow> hex_lower d \<noteq> CHR 0x00"
  using hex_digit_facts [OF hex_digit_upper] hex_digit_facts [OF hex_digit_lower] by blast+

lemmas hex_neq_NUL' [simp] = hex_neq_NUL [THEN not_sym]

lemma fmt_no_NUL [simp]: "CHR 0x00 \<notin> set (fmt_02X b)" "CHR 0x00 \<notin> set (fmt_02x b)"
  using unat_u8_lt [of b] by (simp_all add: fmt_02X_def fmt_02x_def)

lemma scan_mac_address_str: "scan_mac 6 (address_str a) = Some (addr a)"
  by (cases a) (simp add: numeral_eq_Suc)

lemma from_string_address_str: "from_string (address_str a) = a"
proof -
  have "c_str (address_str a) = address_str a"
    by (cases a) simp
  then show ?thesis
    by (simp add: from_string_def scan_mac_address_str)
qed

lemma inj_address_str: "inj address_str"
  by (rule inj_on_inverseI) (rule from_string_address_str)

section \<open>Frames\<close>

definition MAX_DATA :: nat where
  "MAX_DATA = 1500"

record frame =
  dst :: address
  src :: address
  proto :: u16
  fdata :: bytes
  fsize :: u32

definition new_frame :: frame where
  "new_frame = \<lparr>dst = zero_address, src = zero_address, proto = 0, fdata = [], fsize = 0\<rparr>"

definition wf_frame :: "frame \<Rightarrow> bool" where
  "wf_frame f \<longleftrightarrow> length (fdata f) = unat (fsize f) \<and> length (fdata f) \<le> MAX_DATA"

definition is_print :: "u8 \<Rightarrow> bool" where
  "is_print b \<longleftrightarrow> 32 \<le> unat b \<and> unat b \<le> 126"

definition fmt_04X :: "u16 \<Rightarrow> string" where
  "fmt_04X w = [hex_upper (unat w div 4096), hex_upper (unat w div 256 mod 16),
     hex_upper (unat w div 16 mod 16), hex_upper (unat w mod 16)]"

definition print_frame :: "frame \<Rightarrow> string" where
  "print_frame f =
     ''===== FRAME =====\<newline>'' @
     ''SRC: '' @ address_str (src f) @ ''\<newline>'' @
     ''DST: '' @ address_str (dst f) @ ''\<newline>'' @
     ''PROTO: 0x'' @ fmt_04X (proto f) @ ''\<newline>'' @
     ''SIZE: '' @ show_word (fsize f) @ '' bytes\<newline>'' @
     ''PAYLOAD (texto): '' @
     map (\<lambda>b. if is_print b then char_of_byte b else CHR ''.'') (take (unat (fsize f)) (fdata f)) @
     ''\<newline>=================\<newline>''"

end
