(* ===== verification/World.thy ===== *)
theory World
  imports Ethernet
begin

text \<open>
  The boundary between the program and its machine. The operating system is not under
  \<open>src/\<close>: what the program observes of it (clock readings, results of system calls) is a
  field of the world chosen by the environment, and what the program does to it (frames
  handed to the socket, blobs put on the shared-memory bus, clock adjustments, log lines)
  is recorded in order. \<open>src/src/utils.h\<close> (\<open>get_microseconds_now\<close>) reads the clock.
\<close>

record timeval =
  tv_sec :: int
  tv_usec :: int

record world =
  gettimeofday :: "nat \<Rightarrow> timeval" \<comment> \<open>the \<open>n\<close>-th reading of the wall clock\<close>
  readings :: nat \<comment> \<open>readings made so far\<close>
  sendto_result :: "bytes \<Rightarrow> int" \<comment> \<open>what the kernel answers to \<open>sendto\<close> of a packet\<close>
  adjtimex_result :: "int \<Rightarrow> int" \<comment> \<open>what the kernel answers to an offset adjustment\<close>
  settimeofday_ok :: "timeval \<Rightarrow> bool"
  eth_out :: "(u16 \<times> address \<times> bytes) list" \<comment> \<open>protocol, link-layer destination, packet\<close>
  shm_out :: "bytes list" \<comment> \<open>blobs given to \<open>ShmNode::send_msg\<close>\<close>
  adjtimex_calls :: "int list" \<comment> \<open>offsets given to \<open>adjtimex\<close>, nanoseconds\<close>
  system_time :: "timeval list" \<comment> \<open>values given to \<open>settimeofday\<close>\<close>
  log_out :: "string list"

definition read_clock :: "world \<Rightarrow> timeval \<times> world" where
  "read_clock w = (gettimeofday w (readings w), w\<lparr>readings := Suc (readings w)\<rparr>)"

definition microseconds :: "timeval \<Rightarrow> u64" where
  "microseconds tv = word_of_int (tv_sec tv) * 1000000 + word_of_int (tv_usec tv)"

definition get_microseconds_now :: "world \<Rightarrow> u64 \<times> world" where
  "get_microseconds_now w = (let (aux, w') = read_clock w in (microseconds aux, w'))"

text \<open>The time the next reading will give.\<close>

abbreviation next_time :: "world \<Rightarrow> u64" where
  "next_time w \<equiv> microseconds (gettimeofday w (readings w))"

abbreviation tick :: "world \<Rightarrow> world" where
  "tick w \<equiv> w\<lparr>readings := Suc (readings w)\<rparr>"

lemma get_microseconds_now_eq [simp]: "get_microseconds_now w = (next_time w, tick w)"
  by (simp add: get_microseconds_now_def read_clock_def)

definition idle_world :: "(nat \<Rightarrow> timeval) \<Rightarrow> world" where
  "idle_world clk = \<lparr>gettimeofday = clk, readings = 0, sendto_result = (\<lambda>p. int (length p)),
     adjtimex_result = (\<lambda>_. 0), settimeofday_ok = (\<lambda>_. True), eth_out = [], shm_out = [],
     adjtimex_calls = [], system_time = [], log_out = []\<rparr>"

end
