(* ===== verification/Engine_Shm.thy ===== *)
theory Engine_Shm
  imports World
begin

text \<open>
  \<open>src/src/engine_shm.cpp\<close>: frames as byte blobs on the shared-memory bus. The bus itself
  is the subject of the theory \<open>Shm_Node\<close>; here \<open>ShmNode::send_msg\<close> is the event of
  putting one blob on it.
\<close>

section \<open>Serialisation\<close>

definition PAYLOAD :: nat where
  "PAYLOAD = 1500"

definition header_size :: nat where
  "header_size = 6 + 6 + 2 + 4"

definition serialize_frame :: "frame \<Rightarrow> bytes res" where
  "serialize_frame f =
     (if MAX_DATA < unat (fsize f) then Inl Out_of_bounds
      else Inr (addr (dst f) @ addr (src f) @ le16 (proto f) @ le32 (fsize f) @
        take (unat (fsize f)) (fdata f)))"

text \<open>
  \<open>buf\<close> is the buffer the pointer refers to (\<open>None\<close> for a null pointer), \<open>len\<close> the length
  the caller passes with it. The payload is copied without comparing \<open>header_size + size\<close>
  with the length of the buffer, so the copy can run past its end.
\<close>

definition deserialize_frame :: "bytes option \<Rightarrow> nat \<Rightarrow> frame option res" where
  "deserialize_frame buf len = (case buf of
      None \<Rightarrow> Inr None
    | Some bs \<Rightarrow>
        if len < header_size then Inr None
        else if length bs < header_size then Inl Out_of_bounds
        else (let d = address_of_bytes bs;
                  s = address_of_bytes (drop 6 bs);
                  p = un_le16 (drop 12 bs);
                  n = un_le32 (drop 14 bs)
              in if MAX_DATA < unat n then Inr None
                 else if length bs < header_size + unat n then Inl Out_of_bounds
                 else Inr (Some \<lparr>dst = d, src = s, proto = p,
                    fdata = take (unat n) (drop header_size bs), fsize = n\<rparr>)))"

section \<open>Sending\<close>

definition shm_send_msg :: "world \<Rightarrow> bytes \<Rightarrow> bool \<times> world" where
  "shm_send_msg w msg = (True, w\<lparr>shm_out := shm_out w @ [msg]\<rparr>)"

definition engine_shm_send :: "world \<Rightarrow> frame \<Rightarrow> (int \<times> world) res" where
  "engine_shm_send w f = res_bind (serialize_frame f) (\<lambda>blob.
     if blob = [] then Inr (-1, w)
     else if PAYLOAD < length blob then Inr (-2, w)
     else (let (ok, w') = shm_send_msg w blob in Inr (if ok then 0 else -3, w')))"

definition send_bytes :: "world \<Rightarrow> bytes option \<Rightarrow> (int \<times> world)" where
  "send_bytes w data = (case data of
      None \<Rightarrow> (-1, w)
    | Some bs \<Rightarrow>
        if bs = [] then (-1, w)
        else if PAYLOAD < length bs then (-2, w)
        else (let (ok, w') = shm_send_msg w bs in (if ok then 0 else -3, w')))"

section \<open>Receiving\<close>

text \<open>
  The receive hook. The outcome is the frame given to the NIC, the raw bytes given to the
  fallback handler, or nothing.
\<close>

datatype shm_delivery = To_nic frame | To_raw bytes | Dropped

definition engine_shm_on_receive :: "bool \<Rightarrow> bool \<Rightarrow> int \<Rightarrow> bytes option \<Rightarrow> shm_delivery res" where
  "engine_shm_on_receive has_nic has_raw msg_len msg =
     (if msg_len \<le> 0 \<or> msg = None then Inr Dropped
      else if \<not> has_nic then Inr Dropped
      else res_bind (deserialize_frame msg (nat msg_len)) (\<lambda>r. case r of
          Some f \<Rightarrow> Inr (To_nic f)
        | None \<Rightarrow> Inr (if has_raw then To_raw (take (nat msg_len) (the msg)) else Dropped)))"

section \<open>Properties\<close>

lemma header_size_eq [simp]: "header_size = 18"
  by (simp add: header_size_def)

lemma length_serialize:
  "wf_frame f \<Longrightarrow> serialize_frame f = Inr bs \<Longrightarrow> length bs = header_size + unat (fsize f)"
  by (auto simp: serialize_frame_def wf_frame_def split: if_splits)

lemma serialize_wf:
  "wf_frame f \<Longrightarrow> serialize_frame f =
     Inr (addr (dst f) @ addr (src f) @ le16 (proto f) @ le32 (fsize f) @ fdata f)"
  by (simp add: serialize_frame_def wf_frame_def)

lemma deserialize_image:
  assumes "wf_frame f" and "header_size \<le> len"
  shows "deserialize_frame
    (Some (addr (dst f) @ addr (src f) @ le16 (proto f) @ le32 (fsize f) @ fdata f)) len = Inr (Some f)"
proof -
  let ?bs = "addr (dst f) @ addr (src f) @ le16 (proto f) @ le32 (fsize f) @ fdata f"
  have d: "drop 6 ?bs = addr (src f) @ le16 (proto f) @ le32 (fsize f) @ fdata f" by simp
  have p: "drop 12 ?bs = le16 (proto f) @ le32 (fsize f) @ fdata f"
    using drop_append_exact [of "addr (dst f) @ addr (src f)" 12] by simp
  have n: "drop 14 ?bs = le32 (fsize f) @ fdata f"
    using drop_append_exact [of "addr (dst f) @ addr (src f) @ le16 (proto f)" 14] by simp
  have r: "drop 18 ?bs = fdata f"
    using drop_append_exact [of "addr (dst f) @ addr (src f) @ le16 (proto f) @ le32 (fsize f)" 18]
    by simp
  have u: "un_le16 (drop 12 ?bs) = proto f" "un_le32 (drop 14 ?bs) = fsize f"
    by (simp_all only: p n un_le16_append un_le32_append)
  show ?thesis
    using assms unfolding deserialize_frame_def
    by (simp only: option.case Let_def d u r header_size_eq address_of_bytes_addr)
      (simp add: wf_frame_def)
qed

lemma engine_shm_send_wf:
  assumes "wf_frame f" and "unat (fsize f) + 18 \<le> PAYLOAD"
  shows "engine_shm_send w f = Inr (0, w\<lparr>shm_out := shm_out w @
    [addr (dst f) @ addr (src f) @ le16 (proto f) @ le32 (fsize f) @ fdata f]\<rparr>)"
proof -
  let ?blob = "addr (dst f) @ addr (src f) @ le16 (proto f) @ le32 (fsize f) @ fdata f"
  have "length ?blob \<le> PAYLOAD" using assms by (simp add: wf_frame_def)
  moreover have "?blob \<noteq> []" by (cases "dst f") simp
  ultimately show ?thesis by (simp add: engine_shm_send_def serialize_wf [OF assms(1)] shm_send_msg_def)
qed

lemma on_receive_frame:
  "bs \<noteq> [] \<Longrightarrow> deserialize_frame (Some bs) (length bs) = Inr (Some f) \<Longrightarrow>
     engine_shm_on_receive True raw (int (length bs)) (Some bs) = Inr (To_nic f)"
  by (simp add: engine_shm_on_receive_def)

text \<open>C26: a frame put on the bus by one process is read back unchanged by another, for every
  frame whose blob fits, and the sender reports success exactly in that case.\<close>

theorem shm_frame_roundtrip:
  assumes "wf_frame f"
  shows "(if unat (fsize f) + 18 \<le> PAYLOAD
     then \<exists>blob. engine_shm_send w f = Inr (0, w\<lparr>shm_out := shm_out w @ [blob]\<rparr>) \<and>
       engine_shm_on_receive True raw (int (length blob)) (Some blob) = Inr (To_nic f)
     else engine_shm_send w f = Inr (-2, w))"
proof -
  let ?blob = "addr (dst f) @ addr (src f) @ le16 (proto f) @ le32 (fsize f) @ fdata f"
  have len: "length ?blob = 18 + unat (fsize f)"
    using assms by (simp add: wf_frame_def)
  have ne: "?blob \<noteq> []" by (cases "dst f") simp
  have send: "engine_shm_send w f =
      Inr (if PAYLOAD < length ?blob then (-2, w) else (0, w\<lparr>shm_out := shm_out w @ [?blob]\<rparr>))"
    using ne by (simp add: engine_shm_send_def serialize_wf [OF assms] shm_send_msg_def)
  have recv: "engine_shm_on_receive True raw (int (length ?blob)) (Some ?blob) = Inr (To_nic f)"
    using deserialize_image [OF assms, of "length ?blob"] len
    by (intro on_receive_frame [OF ne]) (simp del: length_append)
  show ?thesis
  proof (cases "unat (fsize f) + 18 \<le> PAYLOAD")
    case True
    with send recv len show ?thesis by auto
  next
    case False
    with send len show ?thesis by simp
  qed
qed

theorem shm_frame_roundtrip_witness:
  "\<exists>blob. engine_shm_send (idle_world (\<lambda>_. \<lparr>tv_sec = 0, tv_usec = 0\<rparr>))
      \<lparr>dst = BROADCAST, src = zero_address, proto = 0x123, fdata = [7, 8], fsize = 2\<rparr> =
      Inr (0, (idle_world (\<lambda>_. \<lparr>tv_sec = 0, tv_usec = 0\<rparr>))\<lparr>shm_out := [blob]\<rparr>) \<and>
    engine_shm_on_receive True True (int (length blob)) (Some blob) =
      Inr (To_nic \<lparr>dst = BROADCAST, src = zero_address, proto = 0x123, fdata = [7, 8], fsize = 2\<rparr>)"
  using shm_frame_roundtrip [of "\<lparr>dst = BROADCAST, src = zero_address, proto = 0x123,
      fdata = [7, 8], fsize = 2\<rparr>" "idle_world (\<lambda>_. \<lparr>tv_sec = 0, tv_usec = 0\<rparr>)" True]
  by (simp add: wf_frame_def MAX_DATA_def PAYLOAD_def idle_world_def)

text \<open>The receiver never hands the NIC a frame larger than the Ethernet maximum.\<close>

lemma deserialize_wf: "deserialize_frame buf len = Inr (Some f) \<Longrightarrow> wf_frame f"
  by (auto simp: deserialize_frame_def wf_frame_def Let_def split: option.splits if_splits)


end
