(* ===== verification/Shm_Node.thy ===== *)
theory Shm_Node
  imports Engine_Shm
begin

text \<open>
  \<open>src/src/shm_node.cpp\<close>: the shared-memory bus. Every process has a thread that reads the bus
  (\<open>receive_msg_routine\<close>) and threads that send (\<open>ShmNode::send_msg\<close>); they share one buffer, a
  mutex for senders, a flag under a second mutex with its condition variable, and a barrier for
  \<open>nodes_count + 1\<close> threads. The threads are interleaved step by step. A critical section under
  \<open>new_msg_cond_mtx\<close> is one step, and waiting for the condition is a step that is enabled when
  the flag is set: the flag only changes under that mutex and every change to true is broadcast.
  Thread \<open>(p, 0)\<close> is the reader of process \<open>p\<close>, which runs \<open>on_receive_msg\<close> and may send from
  there; the threads \<open>(p, k)\<close> with \<open>0 < k\<close> are the other threads of the process.
\<close>

section \<open>State\<close>

datatype reader_pc =
    R_wait \<comment> \<open>in the loop around \<open>pthread_cond_wait\<close>\<close>
  | R_check \<comment> \<open>before \<open>if(node->using_bus) continue\<close>\<close>
  | R_copy \<comment> \<open>before \<open>malloc\<close> and \<open>memcpy\<close>\<close>
  | R_barrier bytes \<comment> \<open>before \<open>pthread_barrier_wait\<close>, with the copy\<close>
  | R_blocked bytes \<comment> \<open>inside the barrier\<close>
  | R_deliver bytes \<comment> \<open>before \<open>on_receive_msg\<close>\<close>
  | R_handle \<comment> \<open>inside \<open>on_receive_msg\<close>\<close>

datatype sender_pc =
    S_idle
  | S_lock bytes \<comment> \<open>before \<open>pthread_mutex_lock(bus_mtx)\<close>\<close>
  | S_write bytes \<comment> \<open>before \<open>memset\<close> and \<open>memcpy\<close>\<close>
  | S_len bytes \<comment> \<open>before \<open>msg_len = \<dots>\<close>\<close>
  | S_set bytes \<comment> \<open>before the section that sets the flag\<close>
  | S_barrier bytes
  | S_blocked bytes
  | S_clear bytes \<comment> \<open>before the section that clears the flag\<close>
  | S_release bytes \<comment> \<open>before \<open>using_bus = false\<close>\<close>
  | S_unlock bytes \<comment> \<open>before \<open>pthread_mutex_unlock(bus_mtx)\<close>\<close>

type_synonym thread = "nat \<times> nat"

record bus_state =
  nodes_count :: nat
  bus_mtx :: "thread option" \<comment> \<open>the thread that holds it\<close>
  using_bus :: "nat \<Rightarrow> bool"
  bus :: bytes
  msg_len :: nat
  msg_available :: bool
  arrived :: nat \<comment> \<open>threads inside the barrier\<close>
  reader :: "nat \<Rightarrow> reader_pc"
  sender :: "thread \<Rightarrow> sender_pc"
  delivered :: "nat \<Rightarrow> (nat \<times> bytes) list" \<comment> \<open>arguments of \<open>on_receive_msg\<close>\<close>
  sent :: "(thread \<times> bytes) list" \<comment> \<open>completed calls of \<open>send_msg\<close>\<close>

definition bus_start :: "nat \<Rightarrow> bus_state" where
  "bus_start n = \<lparr>nodes_count = n, bus_mtx = None, using_bus = (\<lambda>_. False), bus = replicate PAYLOAD 0,
     msg_len = 0, msg_available = False, arrived = 0, reader = (\<lambda>_. R_wait), sender = (\<lambda>_. S_idle),
     delivered = (\<lambda>_. []), sent = []\<rparr>"

text \<open>The contents of the bus after \<open>memset\<close> and \<open>memcpy\<close>.\<close>

definition bus_write :: "bytes \<Rightarrow> bytes" where
  "bus_write m = m @ replicate (PAYLOAD - length m) 0"

section \<open>The barrier\<close>

text \<open>The last of \<open>nodes_count + 1\<close> threads releases all that are inside.\<close>

definition release_reader :: "reader_pc \<Rightarrow> reader_pc" where
  "release_reader r = (case r of R_blocked m \<Rightarrow> R_deliver m | _ \<Rightarrow> r)"

definition release_sender :: "sender_pc \<Rightarrow> sender_pc" where
  "release_sender r = (case r of S_blocked m \<Rightarrow> S_clear m | _ \<Rightarrow> r)"

definition barrier_wait :: "bus_state \<Rightarrow> bus_state" where
  "barrier_wait s =
     (if arrived s = nodes_count s
      then s\<lparr>arrived := 0, reader := release_reader \<circ> reader s, sender := release_sender \<circ> sender s\<rparr>
      else s\<lparr>arrived := Suc (arrived s)\<rparr>)"

section \<open>Steps\<close>

definition is_node :: "bus_state \<Rightarrow> nat \<Rightarrow> bool" where
  "is_node s p \<longleftrightarrow> p \<le> nodes_count s"

definition set_reader :: "bus_state \<Rightarrow> nat \<Rightarrow> reader_pc \<Rightarrow> bus_state" where
  "set_reader s p r = s\<lparr>reader := (reader s)(p := r)\<rparr>"

definition set_sender :: "bus_state \<Rightarrow> thread \<Rightarrow> sender_pc \<Rightarrow> bus_state" where
  "set_sender s t r = s\<lparr>sender := (sender s)(t := r)\<rparr>"

text \<open>A thread can call \<open>send_msg\<close>: the reader only from \<open>on_receive_msg\<close>.\<close>

definition may_send :: "bus_state \<Rightarrow> thread \<Rightarrow> bool" where
  "may_send s t \<longleftrightarrow> is_node s (fst t) \<and> sender s t = S_idle \<and> (snd t = 0 \<longrightarrow> reader s (fst t) = R_handle)"

inductive bus_step :: "bus_state \<Rightarrow> bus_state \<Rightarrow> bool" where
  wake: "is_node s p \<Longrightarrow> reader s p = R_wait \<Longrightarrow> msg_available s \<Longrightarrow> bus_step s (set_reader s p R_check)"
| own: "reader s p = R_check \<Longrightarrow> using_bus s p \<Longrightarrow> bus_step s (set_reader s p R_wait)"
| other: "reader s p = R_check \<Longrightarrow> \<not> using_bus s p \<Longrightarrow> bus_step s (set_reader s p R_copy)"
| copy: "reader s p = R_copy \<Longrightarrow> bus_step s (set_reader s p (R_barrier (take (msg_len s) (bus s))))"
| read_done: "reader s p = R_barrier m \<Longrightarrow> bus_step s (barrier_wait (set_reader s p (R_blocked m)))"
| deliver: "reader s p = R_deliver m \<Longrightarrow>
    bus_step s ((set_reader s p R_handle)\<lparr>delivered := (delivered s)(p := delivered s p @ [(msg_len s, m)])\<rparr>)"
| handled: "reader s p = R_handle \<Longrightarrow> sender s (p, 0) = S_idle \<Longrightarrow> bus_step s (set_reader s p R_wait)"
| send_msg: "may_send s t \<Longrightarrow> length m \<le> PAYLOAD \<Longrightarrow> bus_step s (set_sender s t (S_lock m))"
| lock: "sender s t = S_lock m \<Longrightarrow> bus_mtx s = None \<Longrightarrow>
    bus_step s ((set_sender s t (S_write m))\<lparr>bus_mtx := Some t, using_bus := (using_bus s)(fst t := True)\<rparr>)"
| write_bus: "sender s t = S_write m \<Longrightarrow> bus_step s ((set_sender s t (S_len m))\<lparr>bus := bus_write m\<rparr>)"
| write_len: "sender s t = S_len m \<Longrightarrow> bus_step s ((set_sender s t (S_set m))\<lparr>msg_len := length m\<rparr>)"
| set_flag: "sender s t = S_set m \<Longrightarrow> bus_step s ((set_sender s t (S_barrier m))\<lparr>msg_available := True\<rparr>)"
| send_wait: "sender s t = S_barrier m \<Longrightarrow> bus_step s (barrier_wait (set_sender s t (S_blocked m)))"
| clear_flag: "sender s t = S_clear m \<Longrightarrow> bus_step s ((set_sender s t (S_release m))\<lparr>msg_available := False\<rparr>)"
| release: "sender s t = S_release m \<Longrightarrow>
    bus_step s ((set_sender s t (S_unlock m))\<lparr>using_bus := (using_bus s)(fst t := False)\<rparr>)"
| unlock: "sender s t = S_unlock m \<Longrightarrow>
    bus_step s ((set_sender s t S_idle)\<lparr>bus_mtx := None, sent := sent s @ [(t, m)]\<rparr>)"

inductive_cases bus_stepE: "bus_step s t"

text \<open>The same threads as a scheduler runs them: the next step of a given thread, if it has one.\<close>

datatype schedule = Reader nat | Sender thread | Call thread bytes

definition reader_step :: "bus_state \<Rightarrow> nat \<Rightarrow> bus_state option" where
  "reader_step s p = (case reader s p of
      R_wait \<Rightarrow> if is_node s p \<and> msg_available s then Some (set_reader s p R_check) else None
    | R_check \<Rightarrow> Some (set_reader s p (if using_bus s p then R_wait else R_copy))
    | R_copy \<Rightarrow> Some (set_reader s p (R_barrier (take (msg_len s) (bus s))))
    | R_barrier m \<Rightarrow> Some (barrier_wait (set_reader s p (R_blocked m)))
    | R_blocked m \<Rightarrow> None
    | R_deliver m \<Rightarrow> Some ((set_reader s p R_handle)
        \<lparr>delivered := (delivered s)(p := delivered s p @ [(msg_len s, m)])\<rparr>)
    | R_handle \<Rightarrow> if sender s (p, 0) = S_idle then Some (set_reader s p R_wait) else None)"

definition sender_step :: "bus_state \<Rightarrow> thread \<Rightarrow> bus_state option" where
  "sender_step s t = (case sender s t of
      S_idle \<Rightarrow> None
    | S_lock m \<Rightarrow> if bus_mtx s = None then Some ((set_sender s t (S_write m))
        \<lparr>bus_mtx := Some t, using_bus := (using_bus s)(fst t := True)\<rparr>) else None
    | S_write m \<Rightarrow> Some ((set_sender s t (S_len m))\<lparr>bus := bus_write m\<rparr>)
    | S_len m \<Rightarrow> Some ((set_sender s t (S_set m))\<lparr>msg_len := length m\<rparr>)
    | S_set m \<Rightarrow> Some ((set_sender s t (S_barrier m))\<lparr>msg_available := True\<rparr>)
    | S_barrier m \<Rightarrow> Some (barrier_wait (set_sender s t (S_blocked m)))
    | S_blocked m \<Rightarrow> None
    | S_clear m \<Rightarrow> Some ((set_sender s t (S_release m))\<lparr>msg_available := False\<rparr>)
    | S_release m \<Rightarrow> Some ((set_sender s t (S_unlock m))\<lparr>using_bus := (using_bus s)(fst t := False)\<rparr>)
    | S_unlock m \<Rightarrow> Some ((set_sender s t S_idle)\<lparr>bus_mtx := None, sent := sent s @ [(t, m)]\<rparr>))"

fun bus_run :: "schedule list \<Rightarrow> bus_state \<Rightarrow> bus_state option" where
  "bus_run [] s = Some s"
| "bus_run (Reader p # as) s = Option.bind (reader_step s p) (bus_run as)"
| "bus_run (Sender t # as) s = Option.bind (sender_step s t) (bus_run as)"
| "bus_run (Call t m # as) s =
     (if may_send s t \<and> length m \<le> PAYLOAD then bus_run as (set_sender s t (S_lock m)) else None)"

abbreviation bus_steps :: "bus_state \<Rightarrow> bus_state \<Rightarrow> bool" where
  "bus_steps \<equiv> bus_step\<^sup>*\<^sup>*"

definition bus_reachable :: "nat \<Rightarrow> bus_state \<Rightarrow> bool" where
  "bus_reachable n s \<longleftrightarrow> bus_steps (bus_start n) s"

section \<open>Invariant\<close>

text \<open>The part of \<open>send_msg\<close> between lock and unlock, and what it keeps true.\<close>

fun owns_bus :: "sender_pc \<Rightarrow> bool" where
  "owns_bus S_idle = False" | "owns_bus (S_lock m) = False" | "owns_bus _ = True"

fun marks_bus :: "sender_pc \<Rightarrow> bool" where
  "marks_bus (S_unlock m) = False" | "marks_bus r = owns_bus r"

fun has_bus :: "sender_pc \<Rightarrow> bytes option" where
  "has_bus (S_len m) = Some m" | "has_bus (S_set m) = Some m" | "has_bus (S_barrier m) = Some m"
| "has_bus (S_blocked m) = Some m" | "has_bus (S_clear m) = Some m"
| "has_bus (S_release m) = Some m" | "has_bus (S_unlock m) = Some m"
| "has_bus _ = None"

fun has_written :: "sender_pc \<Rightarrow> bytes option" where
  "has_written (S_set m) = Some m" | "has_written (S_barrier m) = Some m"
| "has_written (S_blocked m) = Some m" | "has_written (S_clear m) = Some m"
| "has_written (S_release m) = Some m" | "has_written (S_unlock m) = Some m"
| "has_written _ = None"

fun shows_flag :: "sender_pc \<Rightarrow> bool" where
  "shows_flag (S_barrier m) = True" | "shows_flag (S_blocked m) = True" | "shows_flag (S_clear m) = True"
| "shows_flag _ = False"

fun in_barrier :: "reader_pc \<Rightarrow> bool" where
  "in_barrier (R_blocked m) = True" | "in_barrier _ = False"

fun sender_in_barrier :: "sender_pc \<Rightarrow> bool" where
  "sender_in_barrier (S_blocked m) = True" | "sender_in_barrier _ = False"

definition readers_inside :: "bus_state \<Rightarrow> nat set" where
  "readers_inside s = {p. in_barrier (reader s p)}"

text \<open>
  One owner of the bus at a time, and it is the one that holds the mutex; the mark of a process is up
  while one of its threads owns the bus; from the moment the length is written to the end the bus holds
  the owner's message; the flag is up exactly while the owner shows it; the counter of the barrier is the
  number of threads inside, never all of them.
\<close>

definition own_inv :: "bus_state \<Rightarrow> bool" where
  "own_inv s \<longleftrightarrow> (\<forall>t. owns_bus (sender s t) \<longleftrightarrow> bus_mtx s = Some t)"

definition use_inv :: "bus_state \<Rightarrow> bool" where
  "use_inv s \<longleftrightarrow> (\<forall>p. using_bus s p \<longleftrightarrow> (\<exists>k. marks_bus (sender s (p, k))))"

definition content_inv :: "bus_state \<Rightarrow> bool" where
  "content_inv s \<longleftrightarrow> (\<forall>t m. has_bus (sender s t) = Some m \<longrightarrow> bus s = bus_write m) \<and>
     (\<forall>t m. has_written (sender s t) = Some m \<longrightarrow> msg_len s = length m)"

definition flag_inv :: "bus_state \<Rightarrow> bool" where
  "flag_inv s \<longleftrightarrow> (msg_available s \<longleftrightarrow> (\<exists>t. shows_flag (sender s t)))"

definition count_inv :: "bus_state \<Rightarrow> bool" where
  "count_inv s \<longleftrightarrow> finite (readers_inside s) \<and>
     arrived s = card (readers_inside s) + (if \<exists>t. sender_in_barrier (sender s t) then 1 else 0) \<and>
     arrived s \<le> nodes_count s"

definition bus_inv :: "bus_state \<Rightarrow> bool" where
  "bus_inv s \<longleftrightarrow> own_inv s \<and> use_inv s \<and> content_inv s \<and> flag_inv s \<and> count_inv s"

section \<open>The invariant holds\<close>

lemma owns_mono:
  "marks_bus r \<Longrightarrow> owns_bus r" "has_written r = Some m \<Longrightarrow> owns_bus r" "shows_flag r \<Longrightarrow> owns_bus r"
  "sender_in_barrier r \<Longrightarrow> owns_bus r" "has_bus r = Some m \<Longrightarrow> owns_bus r"
  by (cases r; simp)+

lemma release_simps [simp]:
  "owns_bus (release_sender r) = owns_bus r" "marks_bus (release_sender r) = marks_bus r"
  "has_written (release_sender r) = has_written r" "has_bus (release_sender r) = has_bus r"
  "shows_flag (release_sender r) = shows_flag r"
  "\<not> sender_in_barrier (release_sender r)" "\<not> in_barrier (release_reader q)"
  by (cases r; simp add: release_sender_def)+ (cases q; simp add: release_reader_def)

text \<open>What each part of the invariant depends on.\<close>

lemma own_inv_simps [simp]:
  "own_inv (set_reader s p r) = own_inv s" "own_inv (barrier_wait s) = own_inv s"
  "own_inv (s\<lparr>delivered := d\<rparr>) = own_inv s" "own_inv (s\<lparr>bus := b\<rparr>) = own_inv s"
  "own_inv (s\<lparr>msg_len := l\<rparr>) = own_inv s" "own_inv (s\<lparr>msg_available := f\<rparr>) = own_inv s"
  "own_inv (s\<lparr>using_bus := u\<rparr>) = own_inv s" "own_inv (s\<lparr>sent := x\<rparr>) = own_inv s"
  by (simp_all add: own_inv_def set_reader_def barrier_wait_def)

lemma use_inv_simps [simp]:
  "use_inv (set_reader s p r) = use_inv s" "use_inv (barrier_wait s) = use_inv s"
  "use_inv (s\<lparr>delivered := d\<rparr>) = use_inv s" "use_inv (s\<lparr>bus := b\<rparr>) = use_inv s"
  "use_inv (s\<lparr>msg_len := l\<rparr>) = use_inv s" "use_inv (s\<lparr>msg_available := f\<rparr>) = use_inv s"
  "use_inv (s\<lparr>bus_mtx := u\<rparr>) = use_inv s" "use_inv (s\<lparr>sent := x\<rparr>) = use_inv s"
  by (simp_all add: use_inv_def set_reader_def barrier_wait_def)

lemma content_inv_simps [simp]:
  "content_inv (set_reader s p r) = content_inv s" "content_inv (barrier_wait s) = content_inv s"
  "content_inv (s\<lparr>delivered := d\<rparr>) = content_inv s" "content_inv (s\<lparr>bus_mtx := h\<rparr>) = content_inv s"
  "content_inv (s\<lparr>msg_available := f\<rparr>) = content_inv s"
  "content_inv (s\<lparr>using_bus := u\<rparr>) = content_inv s" "content_inv (s\<lparr>sent := x\<rparr>) = content_inv s"
  by (simp_all add: content_inv_def set_reader_def barrier_wait_def)

lemma flag_inv_simps [simp]:
  "flag_inv (set_reader s p r) = flag_inv s" "flag_inv (barrier_wait s) = flag_inv s"
  "flag_inv (s\<lparr>delivered := d\<rparr>) = flag_inv s" "flag_inv (s\<lparr>bus := b\<rparr>) = flag_inv s"
  "flag_inv (s\<lparr>msg_len := l\<rparr>) = flag_inv s" "flag_inv (s\<lparr>bus_mtx := h\<rparr>) = flag_inv s"
  "flag_inv (s\<lparr>using_bus := u\<rparr>) = flag_inv s" "flag_inv (s\<lparr>sent := x\<rparr>) = flag_inv s"
  by (simp_all add: flag_inv_def set_reader_def barrier_wait_def)

text \<open>A thread that moves on without changing its relation to the bus.\<close>

lemma inv_set_sender:
  "own_inv s \<Longrightarrow> owns_bus r = owns_bus (sender s t) \<Longrightarrow> own_inv (set_sender s t r)"
  "use_inv s \<Longrightarrow> marks_bus r = marks_bus (sender s t) \<Longrightarrow> use_inv (set_sender s t r)"
  "content_inv s \<Longrightarrow> has_written r = has_written (sender s t) \<or> has_written r = None \<Longrightarrow>
    has_bus r = has_bus (sender s t) \<or> has_bus r = None \<Longrightarrow> content_inv (set_sender s t r)"
  "flag_inv s \<Longrightarrow> shows_flag r = shows_flag (sender s t) \<Longrightarrow> flag_inv (set_sender s t r)"
  subgoal by (auto simp: own_inv_def set_sender_def simp del: split_paired_All)
  subgoal unfolding use_inv_def set_sender_def by (simp, metis)
  subgoal by (auto simp: content_inv_def set_sender_def simp del: split_paired_All)
  subgoal by (auto simp: flag_inv_def set_sender_def simp del: split_paired_All split_paired_Ex split: if_splits)
  done

lemma own_unique: "own_inv s \<Longrightarrow> owns_bus (sender s t) \<Longrightarrow> owns_bus (sender s u) \<Longrightarrow> u = t"
  by (simp add: own_inv_def del: split_paired_All)

lemma own_inv_step: "bus_step s t \<Longrightarrow> own_inv s \<Longrightarrow> own_inv t"
proof (induction rule: bus_step.induct)
  case (lock s t m)
  then show ?case by (auto simp: own_inv_def set_sender_def simp del: split_paired_All)
next
  case (unlock s t m)
  then have "\<not> owns_bus (sender s u)" if "u \<noteq> t" for u
    using own_unique [of s t u] that by auto
  then show ?case by (simp add: own_inv_def set_sender_def del: split_paired_All)
qed (auto simp: may_send_def intro: inv_set_sender)

lemma content_inv_step: "bus_step s t \<Longrightarrow> own_inv s \<Longrightarrow> content_inv s \<Longrightarrow> content_inv t"
proof (induction rule: bus_step.induct)
  case (write_bus s t m)
  then have "has_written (sender s u) = None" "u \<noteq> t \<Longrightarrow> has_bus (sender s u) = None" for u
    using own_unique [of s t u] owns_mono(2,5) [of "sender s u"]
    by (cases "has_written (sender s u)"; cases "has_bus (sender s u)"; auto)+
  then show ?case by (simp add: content_inv_def set_sender_def del: split_paired_All)
next
  case (write_len s t m)
  then have "u \<noteq> t \<Longrightarrow> has_written (sender s u) = None" for u
    using own_unique [of s t u] owns_mono(2) [of "sender s u"] by (cases "has_written (sender s u)") auto
  with write_len show ?case
    by (auto simp add: content_inv_def set_sender_def simp del: split_paired_All dest: spec [of _ t])
qed (auto simp: may_send_def intro!: inv_set_sender)

lemma use_inv_step: "bus_step s t \<Longrightarrow> own_inv s \<Longrightarrow> use_inv s \<Longrightarrow> use_inv t"
proof (induction rule: bus_step.induct)
  case (lock s t m)
  then show ?case
    by (cases t) (auto simp: use_inv_def set_sender_def)
next
  case (release s t m)
  have "\<not> marks_bus (sender s u)" if "u \<noteq> t" for u
    using release own_unique [of s t u] owns_mono(1) [of "sender s u"] that by auto
  with release show ?case
    by (cases t) (auto simp: use_inv_def set_sender_def)
qed (auto simp: may_send_def intro!: inv_set_sender)

lemma flag_inv_step: "bus_step s t \<Longrightarrow> own_inv s \<Longrightarrow> flag_inv s \<Longrightarrow> flag_inv t"
proof (induction rule: bus_step.induct)
  case (set_flag s t m)
  then show ?case by (auto simp: flag_inv_def set_sender_def simp del: split_paired_Ex intro: exI [of _ t])
next
  case (clear_flag s t m)
  have "\<not> shows_flag (sender s u)" if "u \<noteq> t" for u
    using clear_flag own_unique [of s t u] owns_mono(3) [of "sender s u"] that by auto
  with clear_flag show ?case
    by (auto simp: flag_inv_def set_sender_def simp del: split_paired_Ex)
qed (auto simp: may_send_def intro!: inv_set_sender)

text \<open>Counting the threads inside the barrier.\<close>

lemma count_inv_simps [simp]:
  "count_inv (s\<lparr>delivered := d\<rparr>) = count_inv s" "count_inv (s\<lparr>bus := b\<rparr>) = count_inv s"
  "count_inv (s\<lparr>msg_len := l\<rparr>) = count_inv s" "count_inv (s\<lparr>msg_available := f\<rparr>) = count_inv s"
  "count_inv (s\<lparr>bus_mtx := h\<rparr>) = count_inv s" "count_inv (s\<lparr>using_bus := u\<rparr>) = count_inv s"
  "count_inv (s\<lparr>sent := x\<rparr>) = count_inv s"
  by (simp_all add: count_inv_def readers_inside_def)

lemma count_set_reader:
  assumes "count_inv s" and "\<not> in_barrier (reader s p)" and "\<not> in_barrier r"
  shows "count_inv (set_reader s p r)"
proof -
  have "readers_inside (set_reader s p r) = readers_inside s"
    using assms(2,3) by (auto simp: readers_inside_def set_reader_def)
  with assms(1) show ?thesis by (simp add: count_inv_def set_reader_def)
qed

lemma count_set_sender:
  assumes "count_inv s" and "\<not> sender_in_barrier (sender s t)" and "\<not> sender_in_barrier r"
  shows "count_inv (set_sender s t r)"
proof -
  have "(\<exists>u. sender_in_barrier (sender (set_sender s t r) u)) \<longleftrightarrow> (\<exists>u. sender_in_barrier (sender s u))"
    using assms(2,3) by (auto simp: set_sender_def simp del: split_paired_Ex)
  moreover have "readers_inside (set_sender s t r) = readers_inside s"
    by (simp add: readers_inside_def set_sender_def)
  ultimately show ?thesis using assms(1) by (simp add: count_inv_def set_sender_def)
qed

text \<open>A thread that has just entered is inside but not yet counted.\<close>

lemma count_barrier_wait:
  assumes "finite (readers_inside s)" and "arrived s \<le> nodes_count s"
    and "Suc (arrived s) = card (readers_inside s) + (if \<exists>t. sender_in_barrier (sender s t) then 1 else 0)"
  shows "count_inv (barrier_wait s)"
proof (cases "arrived s = nodes_count s")
  case True
  then show ?thesis by (simp add: count_inv_def barrier_wait_def readers_inside_def)
next
  case False
  with assms show ?thesis by (simp add: count_inv_def barrier_wait_def readers_inside_def)
qed

lemma count_inv_step: "bus_step s t \<Longrightarrow> own_inv s \<Longrightarrow> count_inv s \<Longrightarrow> count_inv t"
proof (induction rule: bus_step.induct)
  case (read_done s p m)
  have "readers_inside (set_reader s p (R_blocked m)) = insert p (readers_inside s)" "p \<notin> readers_inside s"
    using read_done.hyps by (auto simp: readers_inside_def set_reader_def)
  with read_done.prems(2) show ?case
    by (intro count_barrier_wait) (auto simp: count_inv_def set_reader_def)
next
  case (send_wait s t m)
  have "\<not> sender_in_barrier (sender s u)" for u
    using send_wait own_unique [of s t u] owns_mono(4) [of "sender s u"] by auto
  with send_wait.prems(2) have "arrived s = card (readers_inside s)" "finite (readers_inside s)"
    "arrived s \<le> nodes_count s"
    by (simp_all add: count_inv_def)
  moreover have "\<exists>u. sender_in_barrier (sender (set_sender s t (S_blocked m)) u)"
    by (rule exI [of _ t]) (simp add: set_sender_def)
  ultimately show ?case
    by (intro count_barrier_wait) (simp_all add: set_sender_def readers_inside_def del: split_paired_Ex)
qed (auto simp: may_send_def intro!: count_set_reader count_set_sender)

lemma bus_inv_start: "bus_inv (bus_start n)"
  by (simp add: bus_inv_def own_inv_def use_inv_def content_inv_def flag_inv_def count_inv_def
      readers_inside_def bus_start_def)

lemma bus_inv_step: "bus_step s t \<Longrightarrow> bus_inv s \<Longrightarrow> bus_inv t"
  using own_inv_step use_inv_step content_inv_step flag_inv_step count_inv_step by (simp add: bus_inv_def)

lemma bus_inv_steps: "bus_steps s t \<Longrightarrow> bus_inv s \<Longrightarrow> bus_inv t"
  by (induction rule: rtranclp_induct) (auto intro: bus_inv_step)

text \<open>C6: mutual exclusion on the bus. Whatever the interleaving, at most one thread of all processes is
  between lock and unlock of \<open>send_msg\<close>, and as long as the new-message flag is up that thread exists
  and the bus holds exactly its message: a reader that copies while the flag is up copies the message
  being sent.\<close>

theorem bus_mutual_exclusion:
  assumes "bus_reachable n s" and "owns_bus (sender s t)"
  shows "(\<forall>u. owns_bus (sender s u) \<longrightarrow> u = t) \<and> bus_mtx s = Some t \<and>
    (msg_available s \<longrightarrow> (\<exists>m. has_written (sender s t) = Some m \<and> take (msg_len s) (bus s) = m)) \<and>
    arrived s \<le> nodes_count s"
proof -
  have inv: "bus_inv s"
    using assms(1) bus_inv_steps bus_inv_start unfolding bus_reachable_def by blast
  then have own: "own_inv s" by (simp add: bus_inv_def)
  have "\<exists>m. has_written (sender s t) = Some m \<and> take (msg_len s) (bus s) = m" if "msg_available s"
  proof -
    from inv that obtain u where u: "shows_flag (sender s u)" by (auto simp: bus_inv_def flag_inv_def)
    with own_unique [OF own assms(2)] owns_mono(3) have "u = t" by blast
    with u obtain m where "has_written (sender s t) = Some m" "has_bus (sender s t) = Some m"
      by (cases "sender s t") auto
    moreover with inv have "bus s = bus_write m" "msg_len s = length m"
      by (auto simp: bus_inv_def content_inv_def simp del: split_paired_All)
    ultimately show ?thesis by (simp add: bus_write_def)
  qed
  moreover have "\<forall>u. owns_bus (sender s u) \<longrightarrow> u = t"
    using own_unique [OF own assms(2)] by blast
  moreover have "bus_mtx s = Some t"
    using own assms(2) by (simp add: own_inv_def del: split_paired_All)
  moreover have "arrived s \<le> nodes_count s"
    using inv by (simp add: bus_inv_def count_inv_def)
  ultimately show ?thesis by simp
qed

section \<open>Schedules\<close>

lemma reader_step_bus: "reader_step s p = Some t \<Longrightarrow> bus_step s t"
  by (cases "reader s p") (auto simp: reader_step_def intro: bus_step.intros split: if_splits)

lemma sender_step_bus: "sender_step s t = Some s' \<Longrightarrow> bus_step s s'"
  by (cases "sender s t") (auto simp: sender_step_def intro: bus_step.intros split: if_splits)

lemma bus_run_steps: "bus_run as s = Some t \<Longrightarrow> bus_steps s t"
proof (induction as s rule: bus_run.induct)
  case (2 p as s)
  then show ?case
    by (auto simp: bind_eq_Some_conv dest: reader_step_bus intro: converse_rtranclp_into_rtranclp)
next
  case (3 u as s)
  then show ?case
    by (auto simp: bind_eq_Some_conv dest: sender_step_bus intro: converse_rtranclp_into_rtranclp)
next
  case (4 u m as s)
  then show ?case
    by (auto intro: converse_rtranclp_into_rtranclp bus_step.send_msg split: if_splits)
qed simp

lemma take_bus_write [simp]: "take (length m) (bus_write m) = m"
  by (simp add: bus_write_def)

lemmas bus_eval = reader_step_def sender_step_def set_reader_def set_sender_def barrier_wait_def
  release_reader_def release_sender_def may_send_def is_node_def bus_start_def comp_def

theorem bus_mutual_exclusion_witness:
  "\<exists>s. bus_reachable 1 s \<and> owns_bus (sender s (0, 1)) \<and> \<not> owns_bus (sender s (1, 1)) \<and>
    bus_mtx s = Some (0, 1) \<and> take (msg_len s) (bus s) = [5]"
proof -
  let ?run = "bus_run [Call (0, 1) [5], Sender (0, 1), Sender (0, 1), Sender (0, 1), Sender (0, 1)] (bus_start 1)"
  have run: "\<exists>s. ?run = Some s \<and> owns_bus (sender s (0, 1)) \<and> msg_available s \<and> has_written (sender s (0, 1)) = Some [5]"
    by (simp add: bus_eval PAYLOAD_def)
  then obtain s where s: "?run = Some s" "owns_bus (sender s (0, 1))" "msg_available s"
    "has_written (sender s (0, 1)) = Some [5]" by blast
  from s(1) have reach: "bus_reachable 1 s" unfolding bus_reachable_def by (rule bus_run_steps)
  note excl = bus_mutual_exclusion [OF reach s(2)]
  then have "(1, 1) = (0 :: nat, 1 :: nat)" if "owns_bus (sender s (1, 1))" using that by blast
  then have "\<not> owns_bus (sender s (1, 1))" by fastforce
  moreover have "take (msg_len s) (bus s) = [5]" using excl s(3,4) by simp
  moreover have "bus_mtx s = Some (0, 1)" using excl by simp
  ultimately show ?thesis using reach s(2) by blast
qed

section \<open>An undisturbed round\<close>

definition quiet :: "bus_state \<Rightarrow> bool" where
  "quiet s \<longleftrightarrow> bus_mtx s = None \<and> \<not> msg_available s \<and> arrived s = 0 \<and> using_bus s = (\<lambda>_. False) \<and>
     reader s = (\<lambda>_. R_wait) \<and> sender s = (\<lambda>_. S_idle)"

lemma bus_run_append: "bus_run (as @ bs) s = Option.bind (bus_run as s) (bus_run bs)"
  by (induction as s rule: bus_run.induct) (auto simp: bind_assoc split: Option.bind_split)

definition read_round :: "nat list \<Rightarrow> schedule list" where
  "read_round ps = concat (map (\<lambda>p. [Reader p, Reader p, Reader p, Reader p]) ps)"

definition deliver_round :: "nat list \<Rightarrow> schedule list" where
  "deliver_round ps = concat (map (\<lambda>p. [Reader p, Reader p]) ps)"

lemma read_round_Cons: "read_round (p # ps) = [Reader p, Reader p, Reader p, Reader p] @ read_round ps"
  by (simp add: read_round_def)

lemma deliver_round_Cons: "deliver_round (p # ps) = [Reader p, Reader p] @ deliver_round ps"
  by (simp add: deliver_round_def)

lemma bus_run_read:
  assumes "msg_available s" and "reader s p = R_wait" and "is_node s p" and "\<not> using_bus s p"
    and "arrived s < nodes_count s"
  shows "bus_run [Reader p, Reader p, Reader p, Reader p] s =
    Some (s\<lparr>arrived := Suc (arrived s), reader := (reader s)(p := R_blocked (take (msg_len s) (bus s)))\<rparr>)"
  using assms by (simp add: bus_eval)

lemma bus_run_reads:
  assumes "msg_available s" and "\<And>p. p \<in> set ps \<Longrightarrow> reader s p = R_wait \<and> is_node s p \<and> \<not> using_bus s p"
    and "arrived s + length ps \<le> nodes_count s" and "distinct ps"
  shows "bus_run (read_round ps) s = Some (s\<lparr>arrived := arrived s + length ps,
    reader := (\<lambda>p. if p \<in> set ps then R_blocked (take (msg_len s) (bus s)) else reader s p)\<rparr>)"
  using assms
proof (induction ps arbitrary: s)
  case Nil
  then show ?case by (simp add: read_round_def)
next
  case (Cons p ps)
  let ?s = "s\<lparr>arrived := Suc (arrived s), reader := (reader s)(p := R_blocked (take (msg_len s) (bus s)))\<rparr>"
  have "bus_run (read_round (p # ps)) s = bus_run (read_round ps) ?s"
    using Cons.prems bus_run_read [of s p] by (simp only: read_round_Cons bus_run_append) simp
  also have "\<dots> = Some (?s\<lparr>arrived := arrived ?s + length ps,
      reader := (\<lambda>q. if q \<in> set ps then R_blocked (take (msg_len ?s) (bus ?s)) else reader ?s q)\<rparr>)"
    using Cons.prems by (intro Cons.IH) (auto simp: is_node_def)
  also have "\<dots> = Some (s\<lparr>arrived := arrived s + length (p # ps),
      reader := (\<lambda>q. if q \<in> set (p # ps) then R_blocked (take (msg_len s) (bus s)) else reader s q)\<rparr>)"
    by (auto simp: fun_upd_def intro!: bus_state.equality)
  finally show ?case .
qed

lemma bus_run_deliver:
  assumes "reader s p = R_deliver m" and "sender s (p, 0) = S_idle"
  shows "bus_run [Reader p, Reader p] s =
    Some (s\<lparr>reader := (reader s)(p := R_wait), delivered := (delivered s)(p := delivered s p @ [(msg_len s, m)])\<rparr>)"
  using assms by (simp add: bus_eval)

lemma bus_run_delivers:
  assumes "\<And>p. p \<in> set ps \<Longrightarrow> reader s p = R_deliver m \<and> sender s (p, 0) = S_idle" and "distinct ps"
  shows "bus_run (deliver_round ps) s = Some (s\<lparr>reader := (\<lambda>p. if p \<in> set ps then R_wait else reader s p),
    delivered := (\<lambda>p. if p \<in> set ps then delivered s p @ [(msg_len s, m)] else delivered s p)\<rparr>)"
  using assms
proof (induction ps arbitrary: s)
  case Nil
  then show ?case by (simp add: deliver_round_def)
next
  case (Cons p ps)
  let ?s = "s\<lparr>reader := (reader s)(p := R_wait), delivered := (delivered s)(p := delivered s p @ [(msg_len s, m)])\<rparr>"
  have "bus_run (deliver_round (p # ps)) s = bus_run (deliver_round ps) ?s"
    using Cons.prems bus_run_deliver [of s p m] by (simp only: deliver_round_Cons bus_run_append) simp
  also have "\<dots> = Some (?s\<lparr>reader := (\<lambda>q. if q \<in> set ps then R_wait else reader ?s q),
      delivered := (\<lambda>q. if q \<in> set ps then delivered ?s q @ [(msg_len ?s, m)] else delivered ?s q)\<rparr>)"
    using Cons.prems by (intro Cons.IH) auto
  also have "\<dots> = Some (s\<lparr>reader := (\<lambda>q. if q \<in> set (p # ps) then R_wait else reader s q),
      delivered := (\<lambda>q. if q \<in> set (p # ps) then delivered s q @ [(msg_len s, m)] else delivered s q)\<rparr>)"
    using Cons.prems(2) by (auto simp: fun_eq_iff intro!: bus_state.equality)
  finally show ?case .
qed

definition others :: "bus_state \<Rightarrow> nat \<Rightarrow> nat list" where
  "others s p = filter (\<lambda>q. q \<noteq> p) [0..<Suc (nodes_count s)]"

lemma set_others [simp]: "set (others s p) = {q. is_node s q \<and> q \<noteq> p}"
  by (auto simp: others_def is_node_def)

lemma distinct_others [simp]: "distinct (others s p)"
  by (simp add: others_def)

lemma length_others: "is_node s p \<Longrightarrow> length (others s p) = nodes_count s"
proof -
  assume "is_node s p"
  then have "{q. is_node s q \<and> q \<noteq> p} = {0..nodes_count s} - {p}" "p \<in> {0..nodes_count s}"
    by (auto simp: is_node_def)
  then have "card (set (others s p)) = nodes_count s" by simp
  then show ?thesis using distinct_card [OF distinct_others, of s p] by simp
qed

definition sending :: "bus_state \<Rightarrow> thread \<Rightarrow> bytes \<Rightarrow> bus_state" where
  "sending s t m = s\<lparr>bus_mtx := Some t, using_bus := (using_bus s)(fst t := True), bus := bus_write m,
     msg_len := length m, msg_available := True, sender := (sender s)(t := S_barrier m)\<rparr>"

lemma bus_run_call:
  assumes "quiet s" and "is_node s p" and "0 < k" and "length m \<le> PAYLOAD"
  shows "bus_run [Call (p, k) m, Sender (p, k), Sender (p, k), Sender (p, k), Sender (p, k)] s = Some (sending s (p, k) m)"
  using assms by (simp add: bus_eval quiet_def sending_def)

definition finished :: "bus_state \<Rightarrow> thread \<Rightarrow> bytes \<Rightarrow> bus_state" where
  "finished s t m = s\<lparr>arrived := 0, reader := release_reader \<circ> reader s, sender := (sender s)(t := S_idle),
     msg_available := False, using_bus := (using_bus s)(fst t := False), bus_mtx := None, sent := sent s @ [(t, m)]\<rparr>"

lemma bus_run_finish:
  assumes "sender s = (\<lambda>_. S_idle)(t := S_barrier m)" and "arrived s = nodes_count s"
  shows "bus_run [Sender t, Sender t, Sender t, Sender t] s = Some (finished s t m)"
proof -
  have "release_sender \<circ> (\<lambda>_. S_idle)(t := S_blocked m) = (\<lambda>_. S_idle)(t := S_clear m)"
    by (auto simp: release_sender_def)
  with assms show ?thesis
    by (simp add: sender_step_def set_sender_def barrier_wait_def finished_def)
qed

definition full_round :: "bus_state \<Rightarrow> thread \<Rightarrow> bytes \<Rightarrow> schedule list" where
  "full_round s t m = [Call t m, Sender t, Sender t, Sender t, Sender t] @ read_round (others s (fst t)) @
     [Sender t, Sender t, Sender t, Sender t] @ deliver_round (others s (fst t))"

lemma full_round_run:
  assumes "quiet s" and "is_node s p" and "0 < k" and "length m \<le> PAYLOAD"
  shows "\<exists>t. bus_run (full_round s (p, k) m) s = Some t \<and> quiet t \<and> sent t = sent s @ [((p, k), m)] \<and>
    (\<forall>q. delivered t q = (if is_node s q \<and> q \<noteq> p then delivered s q @ [(length m, m)] else delivered s q))"
proof -
  let ?ps = "others s p" and ?s1 = "sending s (p, k) m"
  let ?s2 = "?s1\<lparr>arrived := nodes_count s, reader := (\<lambda>q. if q \<in> set ?ps then R_blocked m else R_wait)\<rparr>"
  let ?s3 = "finished ?s2 (p, k) m"
  let ?s4 = "?s3\<lparr>reader := (\<lambda>q. if q \<in> set ?ps then R_wait else reader ?s3 q),
    delivered := (\<lambda>q. if q \<in> set ?ps then delivered ?s3 q @ [(msg_len ?s3, m)] else delivered ?s3 q)\<rparr>"
  have "bus_run (read_round ?ps) ?s1 = Some ?s2"
    using assms bus_run_reads [of ?s1 ?ps]
    by (simp add: sending_def quiet_def is_node_def length_others cong: if_cong)
  moreover have "bus_run [Sender (p, k), Sender (p, k), Sender (p, k), Sender (p, k)] ?s2 = Some ?s3"
    using assms by (intro bus_run_finish) (simp_all add: sending_def quiet_def)
  moreover have "bus_run (deliver_round ?ps) ?s3 = Some ?s4"
    using assms by (intro bus_run_delivers) (auto simp: finished_def sending_def quiet_def release_reader_def)
  ultimately have "bus_run (full_round s (p, k) m) s = Some ?s4"
    using bus_run_call [OF assms] by (simp only: full_round_def bus_run_append fst_conv bind.simps)
  moreover have "quiet ?s4"
    using assms by (auto simp: quiet_def finished_def sending_def release_reader_def fun_eq_iff)
  ultimately show ?thesis by (auto simp: finished_def sending_def)
qed

text \<open>C7: the bus can always do its work. From every state in which no thread is sending or reading,
  however many processes there are, and for every sender and message that fits, the threads can complete
  \<open>send_msg\<close>, deliver exactly this message with its length once to every other process and to no one
  else, and be back at rest.\<close>

theorem bus_round:
  assumes "quiet s" and "is_node s p" and "0 < k" and "length m \<le> PAYLOAD"
  shows "\<exists>t. bus_steps s t \<and> quiet t \<and> sent t = sent s @ [((p, k), m)] \<and>
    (\<forall>q. delivered t q = (if is_node s q \<and> q \<noteq> p then delivered s q @ [(length m, m)] else delivered s q))"
  using full_round_run [OF assms] bus_run_steps by blast

theorem bus_round_witness:
  "\<exists>t. bus_steps (bus_start 5) t \<and> quiet t \<and> sent t = [((2, 1), [7, 8])] \<and>
    delivered t 0 = [(2, [7, 8])] \<and> delivered t 2 = []"
proof -
  have "quiet (bus_start 5)" "is_node (bus_start 5) 2" by (simp_all add: quiet_def bus_start_def is_node_def)
  then obtain t where "bus_steps (bus_start 5) t" "quiet t" "sent t = sent (bus_start 5) @ [((2, 1), [7, 8])]"
    and "\<forall>q. delivered t q = (if is_node (bus_start 5) q \<and> q \<noteq> 2
       then delivered (bus_start 5) q @ [(length [7, 8 :: 8 word], [7, 8])] else delivered (bus_start 5) q)"
    using bus_round [of "bus_start 5" 2 1 "[7, 8]"] by (auto simp: PAYLOAD_def)
  then show ?thesis by (intro exI [of _ t]) (simp add: bus_start_def is_node_def)
qed

section \<open>A message that is lost\<close>

text \<open>
  Two processes. The reader of process 1 is back at the flag before the sender has taken it down: it
  reads the same message again and enters the barrier for the next one.
\<close>

definition first_round :: "bytes \<Rightarrow> schedule list" where
  "first_round m = [Call (0, 1) m, Sender (0, 1), Sender (0, 1), Sender (0, 1), Sender (0, 1),
     Reader 1, Reader 1, Reader 1, Reader 1, Sender (0, 1)]"

definition loss_schedule :: "bytes \<Rightarrow> bytes \<Rightarrow> schedule list" where
  "loss_schedule m1 m2 = first_round m1 @
     [Reader 1, Reader 1, Reader 1, Reader 1, Reader 1, Reader 1, Sender (0, 1), Sender (0, 1), Sender (0, 1),
      Call (0, 1) m2, Sender (0, 1), Sender (0, 1), Sender (0, 1), Sender (0, 1), Sender (0, 1), Sender (0, 1),
      Sender (0, 1), Sender (0, 1), Reader 1, Reader 1]"

lemma loss_run:
  assumes "length m1 \<le> PAYLOAD" and "length m2 \<le> PAYLOAD"
  shows "\<exists>s. bus_run (loss_schedule m1 m2) (bus_start 1) = Some s \<and>
    sent s = [((0, 1), m1), ((0, 1), m2)] \<and> delivered s 1 = [(length m1, m1), (length m2, m1)] \<and>
    reader s 1 = R_wait \<and> \<not> msg_available s \<and> bus_mtx s = None"
  using assms by (simp add: loss_schedule_def first_round_def bus_eval)

text \<open>C9: a message can be lost and another delivered twice. With two processes there is an interleaving
  in which process 0 sends any two messages, both calls of \<open>send_msg\<close> return, and process 1 receives
  the first message twice, the second time with the length of the second message, and the second
  message never: the reader is back at the flag before the sender takes it down.\<close>

theorem bus_message_loss:
  assumes "length m1 \<le> PAYLOAD" and "length m2 \<le> PAYLOAD"
  shows "\<exists>s. bus_reachable 1 s \<and> sent s = [((0, 1), m1), ((0, 1), m2)] \<and>
    delivered s 1 = [(length m1, m1), (length m2, m1)] \<and>
    reader s 1 = R_wait \<and> \<not> msg_available s \<and> bus_mtx s = None"
  using loss_run [OF assms] bus_run_steps unfolding bus_reachable_def by blast

theorem bus_message_loss_witness:
  "\<exists>s. bus_reachable 1 s \<and> sent s = [((0, 1), [1, 2]), ((0, 1), [3])] \<and>
    delivered s 1 = [(2, [1, 2]), (1, [1, 2])]"
  using bus_message_loss [of "[1, 2]" "[3]"] by (auto simp: PAYLOAD_def)

section \<open>Sending from the reader thread\<close>

text \<open>
  Process 0 holds the bus and waits in the barrier for process 1, whose reader waits for the bus because
  the handler of the previous message sends.
\<close>

definition stuck :: "bus_state \<Rightarrow> bool" where
  "stuck s \<longleftrightarrow> nodes_count s = 1 \<and> bus_mtx s = Some (0, 1) \<and> using_bus s 0 \<and> arrived s = 1 \<and>
     (\<exists>m. sender s (0, 1) = S_blocked m) \<and> (\<forall>t. t \<noteq> (0, 1) \<longrightarrow> \<not> owns_bus (sender s t)) \<and>
     (\<exists>m. sender s (1, 0) = S_lock m) \<and> reader s 1 = R_handle \<and> reader s 0 \<in> {R_wait, R_check} \<and>
     (\<forall>p>1. reader s p = R_wait)"

lemma stuck_reader: "stuck s \<Longrightarrow> reader s p = R_handle \<and> p = 1 \<or> reader s p = R_wait \<or> reader s p = R_check \<and> p = 0"
  by (cases "p = 0"; cases "p = 1") (auto simp: stuck_def)

lemma stuck_sender: "stuck s \<Longrightarrow> t = (0, 1) \<and> (\<exists>m. sender s t = S_blocked m) \<or> sender s t = S_idle \<or> (\<exists>m. sender s t = S_lock m)"
  by (cases "t = (0, 1)"; cases "sender s t") (auto simp: stuck_def simp del: split_paired_All)

definition stuck_step :: "bus_state \<Rightarrow> bus_state \<Rightarrow> bool" where
  "stuck_step s t \<longleftrightarrow> stuck t \<and> sent t = sent s \<and> delivered t = delivered s"

lemma stuck_step_reader:
  "stuck s \<Longrightarrow> p = 0 \<Longrightarrow> r \<in> {R_wait, R_check} \<Longrightarrow> stuck_step s (set_reader s p r)"
  by (auto simp: stuck_step_def stuck_def set_reader_def simp del: split_paired_All)

lemma stuck_step_call:
  "stuck s \<Longrightarrow> sender s t = S_idle \<Longrightarrow> stuck_step s (set_sender s t (S_lock m))"
  by (auto simp: stuck_step_def stuck_def set_sender_def simp del: split_paired_All)

lemma stuck_bus_step:
  assumes "bus_step s t" and "stuck s"
  shows "stuck_step s t"
  using assms
proof (cases rule: bus_step.cases)
  case (wake p)
  with assms(2) have "p = 0" by (auto simp: stuck_def is_node_def le_Suc_eq)
  with wake assms(2) show ?thesis by (simp add: stuck_step_reader)
next
  case (own p)
  with assms(2) stuck_reader [OF assms(2), of p] show ?thesis by (auto intro: stuck_step_reader)
next
  case (other p)
  with assms(2) stuck_reader [OF assms(2), of p] show ?thesis by (auto simp: stuck_def)
next
  case (handled p)
  with assms(2) stuck_reader [OF assms(2), of p] show ?thesis by (auto simp: stuck_def)
next
  case (send_msg u m)
  with assms(2) show ?thesis by (auto simp: may_send_def intro: stuck_step_call)
next
  case (lock u m)
  with assms(2) show ?thesis by (auto simp: stuck_def)
next
  case (copy p)
  with stuck_reader [OF assms(2), of p] show ?thesis by simp
next
  case (read_done p m)
  with stuck_reader [OF assms(2), of p] show ?thesis by simp
next
  case (deliver p m)
  with stuck_reader [OF assms(2), of p] show ?thesis by simp
next
  case (write_bus u m)
  with stuck_sender [OF assms(2), of u] show ?thesis by simp
next
  case (write_len u m)
  with stuck_sender [OF assms(2), of u] show ?thesis by simp
next
  case (set_flag u m)
  with stuck_sender [OF assms(2), of u] show ?thesis by simp
next
  case (send_wait u m)
  with stuck_sender [OF assms(2), of u] show ?thesis by simp
next
  case (clear_flag u m)
  with stuck_sender [OF assms(2), of u] show ?thesis by simp
next
  case (release u m)
  with stuck_sender [OF assms(2), of u] show ?thesis by simp
next
  case (unlock u m)
  with stuck_sender [OF assms(2), of u] show ?thesis by simp
qed

lemma stuck_bus_steps: "bus_steps s t \<Longrightarrow> stuck s \<Longrightarrow> stuck_step s t"
proof (induction rule: rtranclp_induct)
  case base
  then show ?case by (simp add: stuck_step_def)
next
  case (step t u)
  then show ?case using stuck_bus_step [of t u] by (simp add: stuck_step_def)
qed

definition stuck_schedule :: "bytes \<Rightarrow> bytes \<Rightarrow> bytes \<Rightarrow> schedule list" where
  "stuck_schedule m1 r m2 = first_round m1 @
     [Sender (0, 1), Sender (0, 1), Sender (0, 1), Reader 1, Call (1, 0) r,
      Call (0, 1) m2, Sender (0, 1), Sender (0, 1), Sender (0, 1), Sender (0, 1), Sender (0, 1)]"

lemma stuck_run:
  assumes "length m1 \<le> PAYLOAD" and "length r \<le> PAYLOAD" and "length m2 \<le> PAYLOAD"
  shows "\<exists>s. bus_run (stuck_schedule m1 r m2) (bus_start 1) = Some s \<and> stuck s \<and>
    sent s = [((0, 1), m1)] \<and> sender s (0, 1) = S_blocked m2 \<and> sender s (1, 0) = S_lock r"
  using assms by (simp add: stuck_schedule_def first_round_def bus_eval stuck_def)

text \<open>C8: sending from \<open>on_receive_msg\<close> can stop the bus for ever. With two processes there is an
  interleaving after which process 0 waits in the barrier of \<open>send_msg\<close> for process 1, process 1 waits
  in \<open>send_msg\<close>, called by its reader thread, for the bus, and whatever the threads do from there, no call
  of \<open>send_msg\<close> returns and no message is delivered any more.\<close>

theorem bus_deadlock:
  assumes "length m1 \<le> PAYLOAD" and "length r \<le> PAYLOAD" and "length m2 \<le> PAYLOAD"
  shows "\<exists>s. bus_reachable 1 s \<and> sender s (0, 1) = S_blocked m2 \<and> sender s (1, 0) = S_lock r \<and>
    (\<forall>t. bus_steps s t \<longrightarrow> sent t = [((0, 1), m1)] \<and> delivered t = delivered s)"
proof -
  obtain s where "bus_run (stuck_schedule m1 r m2) (bus_start 1) = Some s" "stuck s"
    "sent s = [((0, 1), m1)]" "sender s (0, 1) = S_blocked m2" "sender s (1, 0) = S_lock r"
    using stuck_run [OF assms] by blast
  moreover from this have "\<forall>t. bus_steps s t \<longrightarrow> sent t = [((0, 1), m1)] \<and> delivered t = delivered s"
    using stuck_bus_steps unfolding stuck_step_def by metis
  ultimately show ?thesis using bus_run_steps unfolding bus_reachable_def by blast
qed

theorem bus_deadlock_witness:
  "\<exists>s. bus_reachable 1 s \<and> sender s (0, 1) = S_blocked [3] \<and> sender s (1, 0) = S_lock [2] \<and>
    (\<forall>t. bus_steps s t \<longrightarrow> sent t = [((0, 1), [1])] \<and> delivered t = delivered s)"
  using bus_deadlock [of "[1]" "[2]" "[3]"] by (auto simp: PAYLOAD_def)

end
