(* ===== verification/Protocol_Message.thy ===== *)
theory Protocol_Message
  imports Ethernet "HOL-Library.Multiset"
begin

text \<open>
  \<open>src/src/protocol.h\<close>, the message layer: endpoints, the textual message format with its
  printer and parser, and the message authentication code of control messages.
\<close>

section \<open>Endpoints\<close>

record endpoint =
  mac :: address
  port :: u16

definition Endpoint :: "address \<Rightarrow> u16 \<Rightarrow> endpoint" where
  "Endpoint a p = \<lparr>mac = a, port = p\<rparr>"

definition default_endpoint :: endpoint where
  "default_endpoint = Endpoint zero_address 0"

definition endpoint_from_string :: "string \<Rightarrow> endpoint res" where
  "endpoint_from_string s = (case str_find_last s CHR '':'' of
      None \<Rightarrow> Inr default_endpoint
    | Some pos \<Rightarrow>
        res_bind (substr s 0 pos) (\<lambda>mac_str.
        res_bind (substr s (pos + 1) (length s)) (\<lambda>port_str.
        res_bind (stoi port_str) (\<lambda>p. Inr (Endpoint (from_string mac_str) (word_of_int p))))))"

definition vm_id_from_mac :: "address \<Rightarrow> int" where
  "vm_id_from_mac a = uint (addr a ! 5)"

definition endpoint_from_vm :: "int \<Rightarrow> u16 \<Rightarrow> endpoint res" where
  "endpoint_from_vm vm_id p =
     (if vm_id < 0 \<or> 255 < vm_id then Inl (Runtime_error ''vm_id out of range'')
      else Inr (Endpoint (from_string (''00:00:00:00:00:'' @ fmt_02x (word_of_int vm_id))) p))"

section \<open>Messages\<close>

text \<open>The enumeration has \<open>int\<close> as its underlying type, so a value without a name can occur.\<close>

datatype control_type =
    NONE | READY | GO | SYNC_REQ | SYNC_RESP | DELAY_REQ | DELAY_RESP
  | GROUP_REGISTER | GROUP_MOVE_REQUEST | GROUP_MOVE_NOTIFY | GROUP_ASSIGN
  | Unnamed int

fun int_of_control :: "control_type \<Rightarrow> int" where
  "int_of_control NONE = 0"
| "int_of_control READY = 1"
| "int_of_control GO = 2"
| "int_of_control SYNC_REQ = 3"
| "int_of_control SYNC_RESP = 4"
| "int_of_control DELAY_REQ = 5"
| "int_of_control DELAY_RESP = 6"
| "int_of_control GROUP_REGISTER = 7"
| "int_of_control GROUP_MOVE_REQUEST = 8"
| "int_of_control GROUP_MOVE_NOTIFY = 9"
| "int_of_control GROUP_ASSIGN = 10"
| "int_of_control (Unnamed i) = i"

definition control_of_int :: "int \<Rightarrow> control_type" where
  "control_of_int i =
     (if i = 0 then NONE else if i = 1 then READY else if i = 2 then GO
      else if i = 3 then SYNC_REQ else if i = 4 then SYNC_RESP else if i = 5 then DELAY_REQ
      else if i = 6 then DELAY_RESP else if i = 7 then GROUP_REGISTER
      else if i = 8 then GROUP_MOVE_REQUEST else if i = 9 then GROUP_MOVE_NOTIFY
      else if i = 10 then GROUP_ASSIGN else Unnamed i)"

record message =
  group_id :: u8
  orig_vm :: u8
  orig_port :: u16
  timestamp :: u64
  mtype :: int
  msg_id :: u64
  msgac :: u8
  body :: string
  control :: control_type

definition new_message :: message where
  "new_message = \<lparr>group_id = 0, orig_vm = 0, orig_port = 0, timestamp = 0, mtype = 0, msg_id = 0,
     msgac = 0, body = [], control = NONE\<rparr>"

definition build_message :: "message \<Rightarrow> string" where
  "build_message m =
     ''GROUP='' @ show_word (group_id m) @ '' '' @
     ''VM='' @ show_word (orig_vm m) @ '' '' @
     ''PORT='' @ show_word (orig_port m) @ '' '' @
     ''TIME='' @ show_word (timestamp m) @ '' '' @
     ''TYPE='' @ show_int (mtype m) @ '' '' @
     ''ID='' @ show_word (msg_id m) @ '' '' @
     ''CONTROL='' @ show_int (int_of_control (control m)) @ '' '' @
     ''MSGAC='' @ show_word (msgac m) @ '' '' @
     body m"

text \<open>
  The local function of \<open>parse_message\<close>: the value of the next \<open>key=\<close> at or after \<open>pos\<close> up
  to the next blank, and the position after that blank; without the key, nothing moves.
\<close>

definition extract_field :: "string \<Rightarrow> string \<Rightarrow> nat \<Rightarrow> string \<times> nat" where
  "extract_field s key pos = (case str_find s (key @ ''='') pos of
      None \<Rightarrow> ([], pos)
    | Some p0 \<Rightarrow>
        (let p = p0 + length key + 1;
             e = (case str_find s '' '' p of None \<Rightarrow> length s | Some e \<Rightarrow> e)
         in (take (e - p) (drop p s), e + 1)))"

text \<open>One line \<open>if (auto v = extract_field(key); !v.empty()) \<dots>\<close> of the parser.\<close>

definition parse_field ::
  "string \<Rightarrow> string \<Rightarrow> (string \<Rightarrow> message \<Rightarrow> message res) \<Rightarrow> nat \<times> message \<Rightarrow> (nat \<times> message) res" where
  "parse_field s key setter st =
     (let (v, pos') = extract_field s key (fst st)
      in if v = [] then Inr (pos', snd st)
         else res_bind (setter v (snd st)) (\<lambda>m. Inr (pos', m)))"

definition set_group :: "string \<Rightarrow> message \<Rightarrow> message res" where
  "set_group v m = res_bind (stoi v) (\<lambda>i. Inr (m\<lparr>group_id := word_of_int i\<rparr>))"
definition set_vm :: "string \<Rightarrow> message \<Rightarrow> message res" where
  "set_vm v m = res_bind (stoi v) (\<lambda>i. Inr (m\<lparr>orig_vm := word_of_int i\<rparr>))"
definition set_port :: "string \<Rightarrow> message \<Rightarrow> message res" where
  "set_port v m = res_bind (stoi v) (\<lambda>i. Inr (m\<lparr>orig_port := word_of_int i\<rparr>))"
definition set_time :: "string \<Rightarrow> message \<Rightarrow> message res" where
  "set_time v m = res_bind (stoull v) (\<lambda>x. Inr (m\<lparr>timestamp := x\<rparr>))"
definition set_type :: "string \<Rightarrow> message \<Rightarrow> message res" where
  "set_type v m = res_bind (stoi v) (\<lambda>i. Inr (m\<lparr>mtype := i\<rparr>))"
definition set_id :: "string \<Rightarrow> message \<Rightarrow> message res" where
  "set_id v m = res_bind (stoull v) (\<lambda>x. Inr (m\<lparr>msg_id := x\<rparr>))"
definition set_control :: "string \<Rightarrow> message \<Rightarrow> message res" where
  "set_control v m = res_bind (stoi v) (\<lambda>i. Inr (m\<lparr>control := control_of_int i\<rparr>))"
definition set_msgac :: "string \<Rightarrow> message \<Rightarrow> message res" where
  "set_msgac v m = res_bind (stoull v) (\<lambda>x. Inr (m\<lparr>msgac := ucast x\<rparr>))"

definition parse_message :: "bytes \<Rightarrow> message res" where
  "parse_message payload =
     (let s = string_of_bytes payload in
      res_bind (parse_field s ''GROUP'' set_group (0, new_message)) (\<lambda>st.
      res_bind (parse_field s ''VM'' set_vm st) (\<lambda>st.
      res_bind (parse_field s ''PORT'' set_port st) (\<lambda>st.
      res_bind (parse_field s ''TIME'' set_time st) (\<lambda>st.
      res_bind (parse_field s ''TYPE'' set_type st) (\<lambda>st.
      res_bind (parse_field s ''ID'' set_id st) (\<lambda>st.
      res_bind (parse_field s ''CONTROL'' set_control st) (\<lambda>st.
      res_bind (parse_field s ''MSGAC'' set_msgac st) (\<lambda>(pos, m).
      Inr (m\<lparr>body := (if pos < length s then drop pos s else [])\<rparr>))))))))))"

section \<open>Authentication code\<close>

definition SECRET_KEY :: bytes where
  "SECRET_KEY = [0x41, 0x23, 0x55, 0x88]"

definition SECRET_KEY_LEN :: nat where
  "SECRET_KEY_LEN = 4"

fun mac_loop :: "nat \<Rightarrow> u8 \<Rightarrow> string \<Rightarrow> u8" where
  "mac_loop i acc [] = acc"
| "mac_loop i acc (c # s) =
     mac_loop (Suc i) (acc XOR (byte_of_char c XOR SECRET_KEY ! (i mod SECRET_KEY_LEN))) s"

definition generate_mac :: "string \<Rightarrow> u8" where
  "generate_mac buf = mac_loop 0 0 (c_str buf)"

definition verify_msgac :: "u8 \<Rightarrow> string \<Rightarrow> bool" where
  "verify_msgac my_msgac buf \<longleftrightarrow> generate_mac buf = my_msgac"

section \<open>Printing and parsing are inverse\<close>

lemma int_of_control_of_int [simp]: "int_of_control (control_of_int i) = i"
  by (simp add: control_of_int_def)

text \<open>The values a message object can hold: \<open>type\<close> is an \<open>int\<close>, and so is the enumeration.\<close>

definition wf_message :: "message \<Rightarrow> bool" where
  "wf_message m \<longleftrightarrow> is_i32 (mtype m) \<and> is_i32 (int_of_control (control m)) \<and>
     control_of_int (int_of_control (control m)) = control m"

lemma extract_field_here:
  assumes "drop pos s = key @ ''='' @ v @ '' '' @ rest" and "pos \<le> length s" and "CHR '' '' \<notin> set v"
  shows "extract_field s key pos = (v, pos + length key + length v + 2)"
    and "drop (pos + length key + length v + 2) s = rest"
proof -
  let ?p = "pos + length key + 1"
  have find: "str_find s (key @ ''='') pos = Some pos"
    using assms(1,2) by (simp add: str_find_def)
  have dp: "drop ?p s = v @ '' '' @ rest"
  proof -
    have "drop (length (key @ ''='')) (drop pos s) = v @ '' '' @ rest"
      unfolding assms(1) by simp
    then show ?thesis by (simp add: add.commute)
  qed
  have "length (drop pos s) = length key + length v + length rest + 2"
    using assms(1) by simp
  then have le: "?p \<le> length s" using assms(2) by simp
  have "find_sub '' '' (drop ?p s) = Some (length v)"
    unfolding dp using find_char_append [OF assms(3), of rest] by simp
  with le have e: "str_find s '' '' ?p = Some (?p + length v)"
    by (simp add: str_find_def)
  show "extract_field s key pos = (v, pos + length key + length v + 2)"
    unfolding extract_field_def find option.case Let_def e
    using dp by simp
  have "drop (Suc (length v)) (drop ?p s) = rest"
    unfolding dp by simp
  then show "drop (pos + length key + length v + 2) s = rest"
    by (simp add: add.commute add.left_commute)
qed

lemma parse_field_here:
  assumes "drop pos s = key @ ''='' @ v @ '' '' @ rest" and "pos \<le> length s" and "CHR '' '' \<notin> set v"
    and "v \<noteq> []" and "setter v m = Inr m'"
  shows "\<exists>pos'. parse_field s key setter (pos, m) = Inr (pos', m') \<and> pos' \<le> length s \<and> drop pos' s = rest"
proof -
  have "length (drop pos s) = length key + length v + length rest + 2"
    using assms(1) by simp
  then have "pos + length key + length v + 2 \<le> length s" using assms(2) by simp
  with extract_field_here [OF assms(1-3)] assms(4,5) show ?thesis
    by (simp add: parse_field_def)
qed

lemma u8_stoi [simp]: "stoi (show_word (w :: u8)) = Inr (uint w)"
proof -
  have "unat w < 2 ^ 31" using unat_u8_lt [of w] by simp
  then show ?thesis by (simp add: show_word_def)
qed

lemma u16_stoi [simp]: "stoi (show_word (w :: u16)) = Inr (uint w)"
proof -
  have "unat w < 2 ^ LENGTH(16)" by (rule unsigned_less)
  then have "unat w < 2 ^ 31" by simp
  then show ?thesis by (simp add: show_word_def)
qed

lemma u8_stoull [simp]: "stoull (show_word (w :: u8)) = Inr (ucast w)"
proof -
  have "unat w < 2 ^ 64" using unat_u8_lt [of w] by simp
  then show ?thesis by (simp add: show_word_def)
qed

lemma ucast_u8_u64 [simp]: "ucast (ucast (w :: u8) :: u64) = w"
  by (rule bit_word_eqI) (simp add: bit_simps)

lemmas setter_defs = set_group_def set_vm_def set_port_def set_time_def set_type_def set_id_def
  set_control_def set_msgac_def

lemma parse_build_string:
  assumes "wf_message m" and "string_of_bytes payload = build_message m"
  shows "parse_message payload = Inr m"
proof -
  have wf: "is_i32 (mtype m)" "is_i32 (int_of_control (control m))"
    "control_of_int (int_of_control (control m)) = control m"
    using assms(1) by (simp_all add: wf_message_def)
  define s where "s = build_message m"
  define r7 where "r7 = ''MSGAC'' @ ''='' @ show_word (msgac m) @ '' '' @ body m"
  define r6 where "r6 = ''CONTROL'' @ ''='' @ show_int (int_of_control (control m)) @ '' '' @ r7"
  define r5 where "r5 = ''ID'' @ ''='' @ show_word (msg_id m) @ '' '' @ r6"
  define r4 where "r4 = ''TYPE'' @ ''='' @ show_int (mtype m) @ '' '' @ r5"
  define r3 where "r3 = ''TIME'' @ ''='' @ show_word (timestamp m) @ '' '' @ r4"
  define r2 where "r2 = ''PORT'' @ ''='' @ show_word (orig_port m) @ '' '' @ r3"
  define r1 where "r1 = ''VM'' @ ''='' @ show_word (orig_vm m) @ '' '' @ r2"
  note r_defs = r1_def r2_def r3_def r4_def r5_def r6_def r7_def
  have 0: "drop 0 s = ''GROUP'' @ ''='' @ show_word (group_id m) @ '' '' @ r1"
    by (simp add: s_def build_message_def r_defs)
  let ?m1 = "new_message\<lparr>group_id := group_id m\<rparr>"
  obtain p1 where p1: "parse_field s ''GROUP'' set_group (0, new_message) = Inr (p1, ?m1)"
      "p1 \<le> length s" "drop p1 s = r1"
    using parse_field_here [of 0 s "''GROUP''" "show_word (group_id m)" "r1" set_group "new_message" "?m1"]
      0 wf by (auto simp: setter_defs)
  let ?m2 = "?m1\<lparr>orig_vm := orig_vm m\<rparr>"
  obtain p2 where p2: "parse_field s ''VM'' set_vm (p1, ?m1) = Inr (p2, ?m2)"
      "p2 \<le> length s" "drop p2 s = r2"
    using parse_field_here [of p1 s "''VM''" "show_word (orig_vm m)" "r2" set_vm "?m1" "?m2"]
      p1(2,3) wf by (auto simp: setter_defs r1_def)
  let ?m3 = "?m2\<lparr>orig_port := orig_port m\<rparr>"
  obtain p3 where p3: "parse_field s ''PORT'' set_port (p2, ?m2) = Inr (p3, ?m3)"
      "p3 \<le> length s" "drop p3 s = r3"
    using parse_field_here [of p2 s "''PORT''" "show_word (orig_port m)" "r3" set_port "?m2" "?m3"]
      p2(2,3) wf by (auto simp: setter_defs r2_def)
  let ?m4 = "?m3\<lparr>timestamp := timestamp m\<rparr>"
  obtain p4 where p4: "parse_field s ''TIME'' set_time (p3, ?m3) = Inr (p4, ?m4)"
      "p4 \<le> length s" "drop p4 s = r4"
    using parse_field_here [of p3 s "''TIME''" "show_word (timestamp m)" "r4" set_time "?m3" "?m4"]
      p3(2,3) wf by (auto simp: setter_defs r3_def)
  let ?m5 = "?m4\<lparr>mtype := mtype m\<rparr>"
  obtain p5 where p5: "parse_field s ''TYPE'' set_type (p4, ?m4) = Inr (p5, ?m5)"
      "p5 \<le> length s" "drop p5 s = r5"
    using parse_field_here [of p4 s "''TYPE''" "show_int (mtype m)" "r5" set_type "?m4" "?m5"]
      p4(2,3) wf by (auto simp: setter_defs r4_def)
  let ?m6 = "?m5\<lparr>msg_id := msg_id m\<rparr>"
  obtain p6 where p6: "parse_field s ''ID'' set_id (p5, ?m5) = Inr (p6, ?m6)"
      "p6 \<le> length s" "drop p6 s = r6"
    using parse_field_here [of p5 s "''ID''" "show_word (msg_id m)" "r6" set_id "?m5" "?m6"]
      p5(2,3) wf by (auto simp: setter_defs r5_def)
  let ?m7 = "?m6\<lparr>control := control m\<rparr>"
  obtain p7 where p7: "parse_field s ''CONTROL'' set_control (p6, ?m6) = Inr (p7, ?m7)"
      "p7 \<le> length s" "drop p7 s = r7"
    using parse_field_here [of p6 s "''CONTROL''" "show_int (int_of_control (control m))" "r7" set_control "?m6" "?m7"]
      p6(2,3) wf by (auto simp: setter_defs r6_def)
  let ?m8 = "?m7\<lparr>msgac := msgac m\<rparr>"
  obtain p8 where p8: "parse_field s ''MSGAC'' set_msgac (p7, ?m7) = Inr (p8, ?m8)"
      "p8 \<le> length s" "drop p8 s = body m"
    using parse_field_here [of p7 s "''MSGAC''" "show_word (msgac m)" "body m" set_msgac "?m7" "?m8"]
      p7(2,3) wf by (auto simp: setter_defs r7_def)
  have "string_of_bytes payload = s" using assms(2) by (simp add: s_def)
  then have "parse_message payload = Inr (?m8\<lparr>body := if p8 < length s then drop p8 s else []\<rparr>)"
    by (simp add: parse_message_def p1(1) p2(1) p3(1) p4(1) p5(1) p6(1) p7(1) p8(1))
  moreover have "(if p8 < length s then drop p8 s else []) = body m"
    using p8(2,3) by auto
  ultimately show ?thesis by (simp add: new_message_def)
qed

text \<open>C3: whatever a node prints, every node parses back to the same message: all eight header
  fields at every value of their types, and the body byte for byte, blanks, \<open>key=value\<close> text and
  NUL bytes included.\<close>

theorem parse_build_message:
  assumes "wf_message m"
  shows "parse_message (bytes_of_string (build_message m)) = Inr m"
  by (rule parse_build_string [OF assms]) simp

theorem parse_build_message_witness:
  "let m = new_message\<lparr>group_id := 1, orig_vm := 11, orig_port := 102, timestamp := 1700000000, mtype := -3,
     msg_id := 42, body := ''a b=c'', control := GO\<rparr>
   in parse_message (bytes_of_string (build_message m)) = Inr m"
  using parse_build_message [of "new_message\<lparr>group_id := 1, orig_vm := 11, orig_port := 102,
     timestamp := 1700000000, mtype := -3, msg_id := 42, body := ''a b=c'', control := GO\<rparr>"]
  by (simp add: wf_message_def new_message_def is_i32_def control_of_int_def)

text \<open>Padding added behind a message (an Ethernet frame has a minimum length) ends up in the body.\<close>

lemma build_message_pad: "build_message m @ pad = build_message (m\<lparr>body := body m @ pad\<rparr>)"
  by (simp add: build_message_def)

section \<open>Sizes\<close>

lemma length_show_nat: "n < 10 ^ Suc k \<Longrightarrow> length (show_nat n) \<le> Suc k"
proof (induction k arbitrary: n)
  case 0
  then show ?case by (simp add: show_nat.simps)
next
  case (Suc k)
  show ?case
  proof (cases "n < 10")
    case True
    then show ?thesis by (simp add: show_nat.simps)
  next
    case False
    have "n div 10 < 10 ^ Suc k"
      using Suc.prems by (simp add: less_mult_imp_div_less mult.commute)
    then have "length (show_nat (n div 10)) \<le> Suc k" by (rule Suc.IH)
    with False show ?thesis by (simp add: show_nat.simps [of n])
  qed
qed

lemma length_show_word:
  "length (show_word (a :: u8)) \<le> 3" "length (show_word (b :: u16)) \<le> 5"
  "length (show_word (c :: u64)) \<le> 20"
proof -
  have "unat a < 2 ^ 8" "unat b < 2 ^ 16" "unat c < 2 ^ 64"
    using unsigned_less [of a] unsigned_less [of b] unsigned_less [of c] by simp_all
  then have "unat a < 10 ^ Suc 2" "unat b < 10 ^ Suc 4" "unat c < 10 ^ Suc 19"
    by simp_all
  from this [THEN length_show_nat]
  show "length (show_word a) \<le> 3" "length (show_word b) \<le> 5" "length (show_word c) \<le> 20"
    by (simp_all add: show_word_def)
qed

lemma length_show_int_i64: "is_i64 i \<Longrightarrow> length (show_int i) \<le> 20"
proof -
  assume "is_i64 i"
  then have "nat \<bar>i\<bar> < 10 ^ Suc 18"
    by (auto simp: is_i64_def)
  from length_show_nat [OF this] show ?thesis
    by (auto simp: show_int_def)
qed

lemma is_i32_i64: "is_i32 i \<Longrightarrow> is_i64 i"
  by (simp add: is_i32_def is_i64_def)

lemma length_build_message_le:
  assumes "wf_message m"
  shows "length (build_message m) \<le> 149 + length (body m)"
  using assms length_show_word(1) [of "group_id m"] length_show_word(1) [of "orig_vm m"]
    length_show_word(2) [of "orig_port m"] length_show_word(3) [of "timestamp m"]
    length_show_word(3) [of "msg_id m"] length_show_word(1) [of "msgac m"]
    length_show_int_i64 [OF is_i32_i64, of "mtype m"]
    length_show_int_i64 [OF is_i32_i64, of "int_of_control (control m)"]
  by (simp add: build_message_def wf_message_def)

section \<open>What the parser accepts\<close>

lemma parse_field_wf:
  assumes "parse_field s key setter (pos, m) = Inr (pos', m')" and "P m"
    and "\<And>v m m'. setter v m = Inr m' \<Longrightarrow> P m \<Longrightarrow> P m'"
  shows "P m'"
  using assms by (auto simp: parse_field_def res_bind_Inr_iff split: prod.splits if_splits)

lemma wf_setters:
  "set_group v m = Inr m' \<Longrightarrow> wf_message m \<Longrightarrow> wf_message m'"
  "set_vm v m = Inr m' \<Longrightarrow> wf_message m \<Longrightarrow> wf_message m'"
  "set_port v m = Inr m' \<Longrightarrow> wf_message m \<Longrightarrow> wf_message m'"
  "set_time v m = Inr m' \<Longrightarrow> wf_message m \<Longrightarrow> wf_message m'"
  "set_type v m = Inr m' \<Longrightarrow> wf_message m \<Longrightarrow> wf_message m'"
  "set_id v m = Inr m' \<Longrightarrow> wf_message m \<Longrightarrow> wf_message m'"
  "set_control v m = Inr m' \<Longrightarrow> wf_message m \<Longrightarrow> wf_message m'"
  "set_msgac v m = Inr m' \<Longrightarrow> wf_message m \<Longrightarrow> wf_message m'"
  by (auto simp: setter_defs wf_message_def res_bind_Inr_iff dest: stoi_range)

lemma wf_new_message [simp]: "wf_message new_message"
  by (simp add: wf_message_def new_message_def is_i32_def control_of_int_def)

lemma wf_message_body [simp]: "wf_message (m\<lparr>body := b\<rparr>) = wf_message m"
  by (simp add: wf_message_def)

lemma parse_message_wf:
  assumes "parse_message payload = Inr m"
  shows "wf_message m"
proof -
  let ?s = "string_of_bytes payload"
  from assms obtain p1 m1 p2 m2 p3 m3 p4 m4 p5 m5 p6 m6 p7 m7 p8 m8 where
    f1: "parse_field ?s ''GROUP'' set_group (0, new_message) = Inr (p1, m1)"
    and f2: "parse_field ?s ''VM'' set_vm (p1, m1) = Inr (p2, m2)"
    and f3: "parse_field ?s ''PORT'' set_port (p2, m2) = Inr (p3, m3)"
    and f4: "parse_field ?s ''TIME'' set_time (p3, m3) = Inr (p4, m4)"
    and f5: "parse_field ?s ''TYPE'' set_type (p4, m4) = Inr (p5, m5)"
    and f6: "parse_field ?s ''ID'' set_id (p5, m5) = Inr (p6, m6)"
    and f7: "parse_field ?s ''CONTROL'' set_control (p6, m6) = Inr (p7, m7)"
    and f8: "parse_field ?s ''MSGAC'' set_msgac (p7, m7) = Inr (p8, m8)"
    and m: "m = m8\<lparr>body := (if p8 < length ?s then drop p8 ?s else [])\<rparr>"
    by (auto simp: parse_message_def Let_def res_bind_Inr_iff)
  note pf = parse_field_wf [where P = wf_message]
  have w1: "wf_message m1" by (rule pf [OF f1 wf_new_message wf_setters(1)])
  have w2: "wf_message m2" by (rule pf [OF f2 w1 wf_setters(2)])
  have w3: "wf_message m3" by (rule pf [OF f3 w2 wf_setters(3)])
  have w4: "wf_message m4" by (rule pf [OF f4 w3 wf_setters(4)])
  have w5: "wf_message m5" by (rule pf [OF f5 w4 wf_setters(5)])
  have w6: "wf_message m6" by (rule pf [OF f6 w5 wf_setters(6)])
  have w7: "wf_message m7" by (rule pf [OF f7 w6 wf_setters(7)])
  have w8: "wf_message m8" by (rule pf [OF f8 w7 wf_setters(8)])
  from w8 show ?thesis by (simp add: m)
qed

lemma conversion_errors:
  "stoi v = Inl e \<Longrightarrow> e \<in> {Invalid_argument, Out_of_range}"
  "stoull v = Inl e \<Longrightarrow> e \<in> {Invalid_argument, Out_of_range}"
  by (auto simp: stoi_def stoull_def split: option.splits if_splits)

lemma parse_field_error:
  assumes "parse_field s key setter st = Inl e"
  shows "\<exists>v m. setter v m = Inl e"
  using assms by (auto simp: parse_field_def res_bind_Inl_iff split: prod.splits if_splits)

lemma setter_errors:
  assumes "\<exists>v m. setter v m = Inl e"
    and "setter \<in> {set_group, set_vm, set_port, set_time, set_type, set_id, set_control, set_msgac}"
  shows "e \<in> {Invalid_argument, Out_of_range}"
  using assms by (auto simp: setter_defs res_bind_Inl_iff dest: conversion_errors)

lemma parse_message_errors:
  assumes "parse_message payload = Inl e"
  shows "e \<in> {Invalid_argument, Out_of_range}"
proof -
  from assms obtain key setter st where pf: "parse_field (string_of_bytes payload) key setter st = Inl e"
    and st: "setter \<in> {set_group, set_vm, set_port, set_time, set_type, set_id, set_control, set_msgac}"
    by (auto simp: parse_message_def Let_def res_bind_Inl_iff)
  from setter_errors [OF parse_field_error [OF pf] st] show ?thesis .
qed

text \<open>C24: what the parser accepts is a well-formed message, so that printing and parsing it again
  gives the same message; what it rejects, it rejects with one of the two exceptions of the
  numeric conversions.\<close>

theorem parse_message_sound:
  "(case parse_message payload of
      Inr m \<Rightarrow> wf_message m \<and> parse_message (bytes_of_string (build_message m)) = Inr m
    | Inl e \<Rightarrow> e = Invalid_argument \<or> e = Out_of_range)"
proof (cases "parse_message payload")
  case (Inr m)
  then have "wf_message m" by (rule parse_message_wf)
  with Inr show ?thesis
    by (simp add: parse_build_string)
next
  case (Inl e)
  then have "e \<in> {Invalid_argument, Out_of_range}" by (rule parse_message_errors)
  with Inl show ?thesis by simp
qed

section \<open>The authentication code\<close>

fun chars_xor :: "string \<Rightarrow> u8" where
  "chars_xor [] = 0"
| "chars_xor (c # s) = byte_of_char c XOR chars_xor s"

fun key_xor :: "nat \<Rightarrow> nat \<Rightarrow> u8" where
  "key_xor i 0 = 0"
| "key_xor i (Suc n) = SECRET_KEY ! (i mod SECRET_KEY_LEN) XOR key_xor (Suc i) n"

lemma mac_loop_eq: "mac_loop i acc s = acc XOR chars_xor s XOR key_xor i (length s)"
  by (induction s arbitrary: i acc) (simp_all add: ac_simps)

lemma generate_mac_eq: "generate_mac s = chars_xor (c_str s) XOR key_xor 0 (length (c_str s))"
  by (simp add: generate_mac_def mac_loop_eq)

lemma chars_xor_append: "chars_xor (s @ t) = chars_xor s XOR chars_xor t"
  by (induction s) (simp_all add: ac_simps)

lemma chars_xor_perm: "mset s = mset t \<Longrightarrow> chars_xor s = chars_xor t"
proof -
  have loop: "fold (\<lambda>c a. byte_of_char c XOR a) s acc = chars_xor s XOR acc" for s acc
    by (induction s arbitrary: acc) (simp_all add: ac_simps)
  assume "mset s = mset t"
  then have "fold (\<lambda>c a. byte_of_char c XOR a) s = fold (\<lambda>c a. byte_of_char c XOR a) t"
    by (intro fold_multiset_equiv) (auto simp: fun_eq_iff ac_simps)
  then show ?thesis
    using loop [of s 0] loop [of t 0] by simp
qed

lemma xor_right_cancel: "(a :: u8) XOR z = b XOR z \<Longrightarrow> a = b"
  by (metis xor.assoc xor_self_eq xor.right_neutral)

lemma c_str_append: "CHR 0x00 \<notin> set xs \<Longrightarrow> c_str (xs @ ys) = xs @ c_str ys"
  by (induction xs) (auto simp: c_str_def)

lemma c_str_Cons: "c \<noteq> CHR 0x00 \<Longrightarrow> c_str (c # ys) = c # c_str ys"
  by (simp add: c_str_def)



text \<open>The code is blind to the order of the bytes: every rearrangement of a body carries the same
  code, so a sequence of numbers can be permuted without the key.\<close>

lemma mac_ignores_order:
  assumes "mset s = mset t" and "CHR 0x00 \<notin> set s"
  shows "verify_msgac (generate_mac s) t"
proof -
  have "length s = length t" and "set s = set t"
    using assms(1) by (auto dest: mset_eq_length mset_eq_setD)
  with assms chars_xor_perm [OF assms(1)] show ?thesis
    by (simp add: verify_msgac_def generate_mac_eq)
qed

text \<open>The mask of the key, by length.\<close>

lemma key_xor_table:
  "key_xor 0 0 = 0" "key_xor 0 1 = 0x41" "key_xor 0 2 = 0x62" "key_xor 0 3 = 0x37"
  "key_xor 0 4 = 0xBF" "key_xor 0 5 = 0xFE" "key_xor 0 6 = 0xDD" "key_xor 0 7 = 0x88"
  "key_xor 0 8 = 0"
  by code_simp+

section \<open>Endpoints of virtual machines\<close>

lemma hex_lower_0: "hex_lower 0 = CHR ''0''"
  by code_simp

lemma scan_mac_vm: "scan_mac 6 (''00:00:00:00:00:'' @ fmt_02x b) = Some [0, 0, 0, 0, 0, b]"
proof -
  have z: "''00:00:00:00:00:'' @ fmt_02x b = fmt_02x 0 @ '':'' @ fmt_02x 0 @ '':'' @ fmt_02x 0 @ '':'' @
      fmt_02x 0 @ '':'' @ fmt_02x 0 @ '':'' @ fmt_02x b"
    by (simp add: fmt_02x_def [of 0] hex_lower_0)
  show ?thesis unfolding z by (simp add: numeral_eq_Suc)
qed

text \<open>The endpoint computed for a virtual machine carries its number in the last octet, where
  \<open>vm_id_from_mac\<close> reads it back, but always under the prefix 00:00:00:00:00,
  whatever addresses the cards have; a number outside a byte is refused.\<close>

lemma endpoint_from_vm_correct:
  "(case endpoint_from_vm vm p of
      Inr e \<Rightarrow> 0 \<le> vm \<and> vm \<le> 255 \<and> vm_id_from_mac (mac e) = vm \<and> port e = p \<and>
        take 5 (addr (mac e)) = [0, 0, 0, 0, 0]
    | Inl x \<Rightarrow> (vm < 0 \<or> 255 < vm) \<and> x = Runtime_error ''vm_id out of range'')"
proof (cases "vm < 0 \<or> 255 < vm")
  case True
  then show ?thesis by (simp add: endpoint_from_vm_def)
next
  case False
  let ?b = "word_of_int vm :: u8"
  have c: "c_str (''00:00:00:00:00:'' @ fmt_02x ?b) = ''00:00:00:00:00:'' @ fmt_02x ?b"
    by (rule c_str_id) simp
  have "from_string (''00:00:00:00:00:'' @ fmt_02x ?b) = Address 0 0 0 0 0 ?b"
    by (simp only: from_string_def c scan_mac_vm option.case) (simp add: address_of_bytes_def)
  moreover have "uint ?b = vm"
    using False by (simp add: uint_word_of_int)
  ultimately show ?thesis
    using False by (auto simp: endpoint_from_vm_def Endpoint_def vm_id_from_mac_def)
qed

section \<open>Endpoints as text\<close>

lemma str_find_last_append:
  assumes "c \<notin> set t"
  shows "str_find_last (s @ c # t) c = Some (length s)"
  using assms find_char_append [of c "rev t" "rev s"] by (simp add: str_find_last_def)

lemma show_word_no_colon: "CHR '':'' \<notin> set (show_word w)"
  by (auto simp: show_word_def is_digit_def dest: show_nat_digits)

text \<open>An endpoint written as \<open>MAC:port\<close>, the form in which subscribers are named, is read back
  to the same endpoint.\<close>

lemma endpoint_text_roundtrip:
  "endpoint_from_string (address_str (mac e) @ '':'' @ show_word (port e)) = Inr e"
  by (simp add: endpoint_from_string_def str_find_last_append [OF show_word_no_colon] substr_def
      from_string_address_str Endpoint_def)

end
