(* ===== verification/Observer.thy ===== *)
theory Observer
  imports Prelude
begin

text \<open>
  \<open>src/src/observer.h\<close>: where a packet came from, and the subject of the observer pattern.
  An observer is identified by its address (any type with equality); calling its \<open>update\<close>
  is a function on the state of the system that can fail.
\<close>

datatype channel_origin = Ethernet | SharedMemory

definition attach :: "'o list \<Rightarrow> 'o \<Rightarrow> 'o list" where
  "attach observers ob = observers @ [ob]"

definition detach :: "'o list \<Rightarrow> 'o \<Rightarrow> 'o list" where
  "detach observers ob = removeAll ob observers"

fun notify :: "('o \<Rightarrow> 's \<Rightarrow> 's res) \<Rightarrow> 'o list \<Rightarrow> 's \<Rightarrow> 's res" where
  "notify upd [] s = Inr s"
| "notify upd (ob # obs) s = res_bind (upd ob s) (notify upd obs)"

text \<open>The contract of an observer: its callback keeps a property of the system.\<close>

locale observer_contract =
  fixes upd :: "'o \<Rightarrow> 's \<Rightarrow> 's res"
    and ok :: "'s \<Rightarrow> bool"
  assumes upd_ok: "ok s \<Longrightarrow> upd ob s = Inr s' \<Longrightarrow> ok s'"
begin

lemma notify_ok: "ok s \<Longrightarrow> notify upd obs s = Inr s' \<Longrightarrow> ok s'"
  by (induction obs arbitrary: s) (auto simp: res_bind_Inr_iff dest: upd_ok)

end

lemma notify_Nil: "notify upd [] = Inr"
  by (rule ext) simp

lemma notify_append: "notify upd (xs @ ys) s = res_bind (notify upd xs s) (notify upd ys)"
  by (induction xs arbitrary: s) (simp_all add: res_bind_def split: sum.splits)

lemma notify_attach: "notify upd (attach obs ob) s = res_bind (notify upd obs s) (upd ob)"
proof -
  have "res_bind m Inr = m" for m :: "'s res" by (cases m) simp_all
  then show ?thesis
    by (cases "notify upd obs s") (simp_all add: attach_def notify_append notify_Nil)
qed

lemma detach_attach: "ob \<notin> set obs \<Longrightarrow> detach (attach obs ob) ob = obs"
  by (simp add: attach_def detach_def)

end
