(* ===== verification/Engine_Ethernet.thy ===== *)
theory Engine_Ethernet
  imports World
begin

text \<open>
  \<open>src/src/engine_ethernet.cpp\<close>: the raw-socket engine. Its constructor is a sequence of
  system calls whose results the environment chooses; \<open>send\<close> builds the link-layer packet;
  \<open>on_packet\<close> drains the socket and turns each packet into a frame for the NIC.
\<close>

section \<open>State and construction\<close>

record engine_ethernet =
  sock :: int
  ifindex :: nat
  mac_bytes :: bytes
  eng_mac :: address
  running :: bool

text \<open>What the kernel answers to the constructor's calls, and the descriptors left open.\<close>

record kernel =
  k_socket :: int
  k_if_nametoindex :: "string \<Rightarrow> nat"
  k_hwaddr :: "string \<Rightarrow> bytes option" \<comment> \<open>\<open>ioctl(SIOCGIFHWADDR)\<close>: six bytes or failure\<close>
  k_bind :: bool
  k_open :: "int set"

definition IFNAMSIZ :: nat where
  "IFNAMSIZ = 16"

definition close_safe :: "engine_ethernet \<Rightarrow> kernel \<Rightarrow> engine_ethernet \<times> kernel" where
  "close_safe e k = (if 0 \<le> sock e then (e\<lparr>sock := -1\<rparr>, k\<lparr>k_open := k_open k - {sock e}\<rparr>) else (e, k))"

definition new_engine_ethernet :: "kernel \<Rightarrow> string option \<Rightarrow> engine_ethernet res \<times> kernel" where
  "new_engine_ethernet k ifname = (case ifname of
      None \<Rightarrow> (Inl Invalid_argument, k)
    | Some [] \<Rightarrow> (Inl Invalid_argument, k)
    | Some nm \<Rightarrow>
       (let e0 = \<lparr>sock = k_socket k, ifindex = 0, mac_bytes = replicate 6 0,
                  eng_mac = zero_address, running = True\<rparr>
        in if k_socket k < 0 then (Inl (Runtime_error ''socket(AF_PACKET) failed''), k)
        else (let k1 = k\<lparr>k_open := insert (k_socket k) (k_open k)\<rparr>;
                  e1 = e0\<lparr>ifindex := k_if_nametoindex k nm\<rparr>
          in if ifindex e1 = 0
             then (Inl (Runtime_error ''if_nametoindex failed''), snd (close_safe e1 k1))
             else (case k_hwaddr k (take (IFNAMSIZ - 1) nm) of
                 None \<Rightarrow> (Inl (Runtime_error ''SIOCGIFHWADDR failed''), snd (close_safe e1 k1))
               | Some m \<Rightarrow>
                   (let e2 = e1\<lparr>mac_bytes := take 6 m, eng_mac := address_of_bytes m\<rparr>
                    in if \<not> k_bind k
                       then (Inl (Runtime_error ''bind(AF_PACKET) failed''), snd (close_safe e2 k1))
                       else (Inr e2, k1))))))"

definition destroy_engine_ethernet :: "engine_ethernet \<Rightarrow> kernel \<Rightarrow> engine_ethernet \<times> kernel" where
  "destroy_engine_ethernet e k = close_safe (e\<lparr>running := False\<rparr>) k"

section \<open>Sending\<close>

text \<open>\<open>address_to_bytes\<close>: the address is printed and scanned again.\<close>

definition address_to_bytes :: "address \<Rightarrow> bytes option" where
  "address_to_bytes a = scan_mac 6 (address_str a)"

definition ether_header_size :: nat where
  "ether_header_size = 14"

definition ether_packet :: "engine_ethernet \<Rightarrow> frame \<Rightarrow> bytes \<Rightarrow> bytes" where
  "ether_packet e f d = d @ mac_bytes e @ le16 (htons (proto f)) @ take (unat (fsize f)) (fdata f)"

definition engine_ethernet_send :: "engine_ethernet \<Rightarrow> world \<Rightarrow> frame \<Rightarrow> int \<times> world" where
  "engine_ethernet_send e w f =
     (if sock e < 0 then (-1, w)
      else (let d = (case address_to_bytes (dst f) of
                       Some bs \<Rightarrow> bs
                     | None \<Rightarrow> replicate 6 0xFF);
                buf = ether_packet e f d;
                w' = w\<lparr>eth_out := eth_out w @ [(htons (proto f), address_of_bytes d, buf)]\<rparr>;
                sent = sendto_result w buf
            in (if sent < 0 then -1
                else if int ether_header_size < sent then sent - int ether_header_size else 0, w')))"

section \<open>Receiving\<close>

definition ETH_FRAME_LEN :: nat where
  "ETH_FRAME_LEN = 1514"

text \<open>One packet of the drain loop: \<open>None\<close> is the \<open>continue\<close> on a truncated header.\<close>

definition parse_packet :: "bytes \<Rightarrow> frame option" where
  "parse_packet pkt =
     (let buf = take ETH_FRAME_LEN pkt; n = length buf in
      if n < ether_header_size then None
      else (let plen = min (n - ether_header_size) MAX_DATA in
        Some \<lparr>dst = address_of_bytes buf, src = address_of_bytes (drop 6 buf),
          proto = htons (un_le16 (drop 12 buf)),
          fdata = take plen (drop ether_header_size buf), fsize = of_nat plen\<rparr>))"

text \<open>The loop ends at the first failing \<open>recvfrom\<close>; the argument is the list of packets the
  kernel hands out before that.\<close>

fun drain :: "bytes list \<Rightarrow> frame list" where
  "drain [] = []"
| "drain (p # ps) = (case parse_packet p of None \<Rightarrow> drain ps | Some f \<Rightarrow> f # drain ps)"

definition engine_ethernet_on_packet :: "engine_ethernet \<Rightarrow> bool \<Rightarrow> bytes list \<Rightarrow> frame list" where
  "engine_ethernet_on_packet e has_nic ps = (if sock e < 0 \<or> \<not> has_nic then [] else drain ps)"

section \<open>The receive thread\<close>

text \<open>
  The kernel raises SIGIO when a packet arrives; signals that arrive while one is pending
  are merged with it. \<open>sigio_handler\<close> posts the semaphore once per delivered signal;
  \<open>rx_loop\<close> takes one token, leaves when the engine stopped, and otherwise drains the socket.
\<close>

record rx_state =
  sig_pending :: bool
  sem :: nat
  queue :: "bytes list"
  rx_running :: bool
  rx_exited :: bool
  rx_frames :: "frame list"

inductive rx_step :: "rx_state \<Rightarrow> rx_state \<Rightarrow> bool" where
  arrive: "rx_step s (s\<lparr>queue := queue s @ [p], sig_pending := True\<rparr>)"
| sigio_handler: "sig_pending s \<Longrightarrow> rx_step s (s\<lparr>sig_pending := False, sem := Suc (sem s)\<rparr>)"
| stop: "rx_step s (s\<lparr>rx_running := False\<rparr>)"
| work: "\<not> rx_exited s \<Longrightarrow> sem s = Suc n \<Longrightarrow> rx_running s \<Longrightarrow>
     rx_step s (s\<lparr>sem := n, queue := [], rx_frames := rx_frames s @ drain (queue s)\<rparr>)"
| leave: "\<not> rx_exited s \<Longrightarrow> sem s = Suc n \<Longrightarrow> \<not> rx_running s \<Longrightarrow>
     rx_step s (s\<lparr>sem := n, rx_exited := True\<rparr>)"

definition rx_start :: rx_state where
  "rx_start = \<lparr>sig_pending = False, sem = 0, queue = [], rx_running = True, rx_exited = False, rx_frames = []\<rparr>"

inductive rx_reachable :: "rx_state \<Rightarrow> bool" where
  start: "rx_reachable rx_start"
| step: "rx_reachable s \<Longrightarrow> rx_step s t \<Longrightarrow> rx_reachable t"

section \<open>Properties\<close>

lemma ether_header_size_eq [simp]: "ether_header_size = 14"
  by (simp add: ether_header_size_def)

lemma address_to_bytes_addr [simp]: "address_to_bytes a = Some (addr a)"
  by (simp add: address_to_bytes_def scan_mac_address_str)

lemma parse_packet_wf: "parse_packet p = Some f \<Longrightarrow> wf_frame f"
proof -
  assume a: "parse_packet p = Some f"
  let ?n = "min (length (take ETH_FRAME_LEN p) - 14) MAX_DATA"
  have "?n < 2 ^ 32" by (simp add: MAX_DATA_def min_def)
  then have "unat (of_nat ?n :: u32) = ?n"
    by (simp add: unat_of_nat)
  with a show ?thesis
    by (auto simp: parse_packet_def Let_def wf_frame_def split: if_splits)
qed

lemma parse_ether_packet:
  assumes "wf_frame f" and "mac_bytes e = addr m"
  shows "parse_packet (ether_packet e f (addr (dst f))) = Some (f\<lparr>src := m\<rparr>)"
proof -
  let ?pre = "addr (dst f) @ addr m @ le16 (htons (proto f))"
  let ?p = "?pre @ fdata f"
  have p: "ether_packet e f (addr (dst f)) = ?p"
    using assms by (simp add: ether_packet_def wf_frame_def)
  have len: "length ?p = 14 + unat (fsize f)" and small: "unat (fsize f) \<le> 1500"
    using assms(1) by (simp_all add: wf_frame_def MAX_DATA_def)
  then have t: "take ETH_FRAME_LEN ?p = ?p"
    by (simp add: ETH_FRAME_LEN_def del: take_append append_assoc)
  have d6: "drop 6 ?p = addr m @ le16 (htons (proto f)) @ fdata f" by simp
  have d12: "drop 12 ?p = le16 (htons (proto f)) @ fdata f"
    using drop_append_exact [of "addr (dst f) @ addr m" 12] by simp
  have d14: "drop 14 ?p = fdata f"
    using drop_append_exact [of ?pre 14] by simp
  have fields: "address_of_bytes ?p = dst f" "address_of_bytes (drop 6 ?p) = m"
    "htons (un_le16 (drop 12 ?p)) = proto f"
    by (simp_all only: d6 d12 append_assoc) simp_all
  have "min (unat (fsize f)) MAX_DATA = unat (fsize f)"
    using small by (simp add: MAX_DATA_def)
  moreover have "take (unat (fsize f)) (fdata f) = fdata f"
    using assms(1) by (simp add: wf_frame_def)
  ultimately show ?thesis
    unfolding p parse_packet_def Let_def t len fields d14 ether_header_size_eq by simp
qed

text \<open>A packet built by \<open>send\<close> is parsed by the receiving engine to the same frame, with the
  sender's hardware address as its source; \<open>send\<close> hands it to the kernel once and reports the
  number of payload bytes the kernel took.\<close>

lemma engine_ethernet_transfer:
  assumes "wf_frame f" and "mac_bytes e = addr m" and "0 \<le> sock e"
  shows "\<exists>pkt. engine_ethernet_send e w f =
      (if sendto_result w pkt < 0 then -1
       else if 14 < sendto_result w pkt then sendto_result w pkt - 14 else 0,
       w\<lparr>eth_out := eth_out w @ [(htons (proto f), dst f, pkt)]\<rparr>) \<and>
    engine_ethernet_on_packet e' True [pkt] = (if sock e' < 0 then [] else [f\<lparr>src := m\<rparr>])"
proof -
  have "parse_packet (ether_packet e f (addr (dst f))) = Some (f\<lparr>src := m\<rparr>)"
    by (rule parse_ether_packet [OF assms(1,2)])
  with assms(3) show ?thesis
    by (intro exI [of _ "ether_packet e f (addr (dst f))"])
      (simp add: engine_ethernet_send_def engine_ethernet_on_packet_def Let_def)
qed

lemma drain_wf: "f \<in> set (drain ps) \<Longrightarrow> wf_frame f"
  by (induction ps) (auto split: option.splits dest: parse_packet_wf)

lemma drain_append: "drain (ps @ qs) = drain ps @ drain qs"
  by (induction ps) (auto split: option.splits)

text \<open>A failing constructor leaves no descriptor of its own open, and a constructed engine
  owns exactly the socket it opened; the destructor gives it back.\<close>

lemma engine_ethernet_no_leak:
  assumes "k_socket k \<notin> k_open k"
  shows "(case new_engine_ethernet k nm of
      (Inl _, k') \<Rightarrow> k_open k' = k_open k
    | (Inr e, k') \<Rightarrow> k_open k' = insert (sock e) (k_open k) \<and> 0 \<le> sock e \<and>
        k_open (snd (destroy_engine_ethernet e k')) = k_open k)"
  using assms
  by (auto simp: new_engine_ethernet_def close_safe_def destroy_engine_ethernet_def Let_def
      split: option.splits list.splits if_splits)

lemma rx_inv:
  "rx_reachable s \<Longrightarrow> (rx_exited s \<or> queue s = [] \<or> sig_pending s \<or> 0 < sem s) \<and>
     (\<forall>f \<in> set (rx_frames s). wf_frame f) \<and> (rx_exited s \<longrightarrow> \<not> rx_running s)"
proof (induction rule: rx_reachable.induct)
  case start
  show ?case by (simp add: rx_start_def)
next
  case (step s t)
  from step(2) step(3) show ?case
    by (cases rule: rx_step.cases) (auto dest: drain_wf split: if_splits)
qed



end
