(* ===== verification/Nic.thy ===== *)
theory Nic
  imports Observer Engine_Shm Engine_Ethernet
begin

text \<open>
  \<open>src/src/nic.h\<close>, \<open>src/src/nic.cpp\<close>: the network card in front of the two engines. A frame
  for the card's own address goes to the shared-memory engine, every other frame to the
  Ethernet engine; received frames go to the attached observers.
\<close>

record nic =
  ethernet_engine :: "engine_ethernet option" \<comment> \<open>\<open>None\<close> for a null pointer\<close>
  shm_engine :: bool \<comment> \<open>whether the pointer is set\<close>
  nic_mac :: address

definition new_nic :: "engine_ethernet option \<Rightarrow> address \<Rightarrow> nic" where
  "new_nic eth a = \<lparr>ethernet_engine = eth, shm_engine = True, nic_mac = a\<rparr>"

definition nic_address :: "nic \<Rightarrow> address" where
  "nic_address n = nic_mac n"

definition nic_send :: "nic \<Rightarrow> world \<Rightarrow> address \<Rightarrow> u16 \<Rightarrow> bytes \<Rightarrow> (int \<times> world) res" where
  "nic_send n w d p data =
     (if MAX_DATA < length data then Inl Out_of_bounds
      else (let f = \<lparr>dst = d, src = nic_mac n, proto = p, fdata = data, fsize = of_nat (length data)\<rparr>
            in if d = nic_address n
               then (if \<not> shm_engine n then Inr (-1, w) else engine_shm_send w f)
               else (case ethernet_engine n of
                   None \<Rightarrow> Inr (-2, w)
                 | Some e \<Rightarrow> Inr (engine_ethernet_send e w f))))"

text \<open>The frame the observers are notified of, if any.\<close>

definition on_eth_frame :: "nic \<Rightarrow> frame \<Rightarrow> (u16 \<times> frame \<times> channel_origin) option" where
  "on_eth_frame n f = (if src f = nic_mac n then None else Some (proto f, f, channel_origin.Ethernet))"

definition on_shm_frame :: "nic \<Rightarrow> frame \<Rightarrow> (u16 \<times> frame \<times> channel_origin) option" where
  "on_shm_frame n f = Some (proto f, f, SharedMemory)"

section \<open>The interface the protocol layer relies on\<close>

text \<open>
  A link sends a packet of at most \<open>MAX_DATA\<close> bytes without failing, does not read the clock,
  and changes nothing of the world but the two output queues.
\<close>

definition same_but_output :: "world \<Rightarrow> world \<Rightarrow> bool" where
  "same_but_output w w' \<longleftrightarrow> w'\<lparr>eth_out := eth_out w, shm_out := shm_out w\<rparr> = w"

lemma same_but_output_clock:
  "same_but_output w w' \<Longrightarrow> gettimeofday w' = gettimeofday w \<and> readings w' = readings w"
  by (cases w; cases w') (simp add: same_but_output_def)

locale link =
  fixes lsend :: "'n \<Rightarrow> world \<Rightarrow> address \<Rightarrow> u16 \<Rightarrow> bytes \<Rightarrow> (int \<times> world) res"
  assumes send_ok: "length data \<le> MAX_DATA \<Longrightarrow> \<exists>r w'. lsend n w d p data = Inr (r, w')"
    and send_frame: "lsend n w d p data = Inr (r, w') \<Longrightarrow> same_but_output w w'"
begin

lemma send_clock: "lsend n w d p data = Inr (r, w') \<Longrightarrow>
    gettimeofday w' = gettimeofday w \<and> readings w' = readings w"
  by (rule same_but_output_clock) (rule send_frame)

end

lemma unat_small: "n \<le> MAX_DATA \<Longrightarrow> unat (of_nat n :: u32) = n"
  by (simp add: unat_of_nat MAX_DATA_def)

lemma same_but_output_simps [simp]:
  "same_but_output w w"
  "same_but_output w (w\<lparr>shm_out := x\<rparr>)"
  "same_but_output w (w\<lparr>eth_out := y\<rparr>)"
  by (simp_all add: same_but_output_def)

lemma engine_shm_send_frame:
  "engine_shm_send w f = Inr (r, w') \<Longrightarrow> same_but_output w w'"
  by (auto simp: engine_shm_send_def shm_send_msg_def res_bind_Inr_iff split: if_splits)

lemma engine_ethernet_send_frame:
  "engine_ethernet_send e w f = (r, w') \<Longrightarrow> same_but_output w w'"
  by (auto simp: engine_ethernet_send_def Let_def split: if_splits)

lemma nic_send_total:
  assumes "length data \<le> MAX_DATA"
  shows "\<exists>r w'. nic_send n w d p data = Inr (r, w')"
proof -
  let ?f = "\<lparr>dst = d, src = nic_mac n, proto = p, fdata = data, fsize = of_nat (length data)\<rparr>"
  have "\<exists>r w'. engine_shm_send w ?f = Inr (r, w')"
    using assms by (simp add: engine_shm_send_def serialize_frame_def unat_small shm_send_msg_def)
  moreover have "\<exists>r w'. engine_ethernet_send e w ?f = (r, w')" for e
    by (metis surj_pair)
  ultimately show ?thesis
    using assms by (auto simp: nic_send_def Let_def split: option.splits)
qed

interpretation nic_link: link nic_send
proof unfold_locales
  fix data :: bytes and n w d p
  assume "length data \<le> MAX_DATA"
  then show "\<exists>r w'. nic_send n w d p data = Inr (r, w')" by (rule nic_send_total)
next
  fix n w d p data r w'
  assume "nic_send n w d p data = Inr (r, w')"
  then show "same_but_output w w'"
    by (auto simp: nic_send_def Let_def dest: engine_shm_send_frame engine_ethernet_send_frame
        split: if_splits option.splits)
qed

text \<open>A packet for another card, from the call of \<open>send\<close> to the other card's engine.\<close>

lemma nic_send_emits:
  assumes "length data \<le> MAX_DATA" and "d \<noteq> nic_mac n"
    and "ethernet_engine n = Some e" and "mac_bytes e = addr (nic_mac n)" and "0 \<le> sock e"
    and "0 \<le> sock e'" and "nic_send n w d p data = Inr (r, w')"
  shows "\<exists>pkt. w' = w\<lparr>eth_out := eth_out w @ [(htons p, d, pkt)]\<rparr> \<and>
    engine_ethernet_on_packet e' True [pkt] =
      [\<lparr>dst = d, src = nic_mac n, proto = p, fdata = data, fsize = of_nat (length data)\<rparr>]"
proof -
  let ?f = "\<lparr>dst = d, src = nic_mac n, proto = p, fdata = data, fsize = of_nat (length data)\<rparr>"
  have wf: "wf_frame ?f"
    using assms(1) by (simp add: wf_frame_def unat_small)
  from engine_ethernet_transfer [OF wf assms(4,5), of w e']
  obtain pkt where send: "snd (engine_ethernet_send e w ?f) =
      w\<lparr>eth_out := eth_out w @ [(htons p, d, pkt)]\<rparr>"
    and recv: "engine_ethernet_on_packet e' True [pkt] = [?f]"
    using assms(6) by auto
  have "w' = snd (engine_ethernet_send e w ?f)"
    using assms(1,2,3,7) by (auto simp: nic_send_def nic_address_def Let_def)
  with send recv show ?thesis by auto
qed

section \<open>Properties\<close>

text \<open>Routing. What is addressed to the card itself only ever reaches the shared-memory bus;
  everything else only the Ethernet socket, and nothing at all is sent by a card without an
  Ethernet engine (the call then returns -2).\<close>

lemma nic_send_routing:
  assumes "nic_send n w d p data = Inr (r, w')"
  shows "(d = nic_mac n \<longrightarrow> eth_out w' = eth_out w) \<and>
    (d \<noteq> nic_mac n \<longrightarrow> shm_out w' = shm_out w) \<and>
    (d \<noteq> nic_mac n \<and> ethernet_engine n = None \<longrightarrow> r = -2 \<and> w' = w)"
  using assms
  by (auto simp: nic_send_def nic_address_def engine_shm_send_def shm_send_msg_def
      engine_ethernet_send_def res_bind_Inr_iff Let_def split: if_splits option.splits)

text \<open>A broadcast frame sent by one card is delivered by the Ethernet path of every other card
  with the payload, protocol and addresses it was sent with, and the sender's own card drops the
  frame when it sees it again.\<close>

lemma nic_eth_delivery:
  assumes "length data \<le> MAX_DATA" and "d \<noteq> nic_mac n"
    and "ethernet_engine n = Some e" and "mac_bytes e = addr (nic_mac n)" and "0 \<le> sock e"
    and "0 \<le> sock e'" and "nic_send n w d p data = Inr (r, w')"
  shows "\<exists>pkt f. eth_out w' = eth_out w @ [(htons p, d, pkt)] \<and>
    engine_ethernet_on_packet e' True [pkt] = [f] \<and>
    dst f = d \<and> src f = nic_mac n \<and> proto f = p \<and> fdata f = data \<and>
    on_eth_frame n f = None \<and>
    (nic_mac n' \<noteq> nic_mac n \<longrightarrow> on_eth_frame n' f = Some (p, f, channel_origin.Ethernet))"
proof -
  from nic_send_emits [OF assms] obtain pkt where
    "w' = w\<lparr>eth_out := eth_out w @ [(htons p, d, pkt)]\<rparr>"
    "engine_ethernet_on_packet e' True [pkt] =
      [\<lparr>dst = d, src = nic_mac n, proto = p, fdata = data, fsize = of_nat (length data)\<rparr>]"
    by blast
  then show ?thesis
    by (auto simp: on_eth_frame_def)
qed

end
