(* ===== verification/Clock_Syncer.thy ===== *)
theory Clock_Syncer
  imports World
begin

text \<open>
  \<open>src/src/clock_syncer.h\<close>: collection of clock-offset samples, their average, and the
  correction of the system clock. A \<open>long long\<close> is an \<open>int\<close>; results of signed arithmetic
  are brought back to 64 bits with \<open>to_i64\<close>.
\<close>

section \<open>Conversion to double\<close>

text \<open>
  The sources divide by \<open>2.0\<close> and add in double precision. Every double that occurs is an
  integer or a half, so it is represented by twice its value; rounding to 53 significant
  bits, ties to even, is the same function on both scales.
\<close>

fun bit_length :: "nat \<Rightarrow> nat" where
  "bit_length n = (if n = 0 then 0 else Suc (bit_length (n div 2)))"

declare bit_length.simps [simp del]

definition round_nat :: "nat \<Rightarrow> nat" where
  "round_nat n =
     (let k = bit_length n - 53; q = n div 2 ^ k; r = n mod 2 ^ k in
      if k = 0 then n
      else if 2 * r < 2 ^ k \<or> 2 * r = 2 ^ k \<and> even q then q * 2 ^ k
      else (q + 1) * 2 ^ k)"

definition to_double :: "int \<Rightarrow> int" where
  "to_double x = sgn x * int (round_nat (nat \<bar>x\<bar>))"

section \<open>State\<close>

definition MAX_SAMPLES_IN_CLOCK_SYNCER :: nat where
  "MAX_SAMPLES_IN_CLOCK_SYNCER = 1000000"

record clock_syncer =
  rtt_samples :: "int list"
  offset_samples :: "int list"
  alg :: int \<comment> \<open>-1 not defined, 0 NTP, 1 PTP\<close>
  avg_rtt :: int
  avg_offset :: int

definition new_clock_syncer :: clock_syncer where
  "new_clock_syncer =
     \<lparr>rtt_samples = [], offset_samples = [], alg = -1, avg_rtt = 0, avg_offset = 0\<rparr>"

section \<open>Operations\<close>

text \<open>
  \<open>std::accumulate(v.begin(), v.end(), 0)\<close> accumulates in \<open>int\<close>; dividing that \<open>int\<close> by the
  \<open>size_t\<close> of the vector is a division of unsigned 64-bit numbers.
\<close>

definition accumulate_int :: "int list \<Rightarrow> int" where
  "accumulate_int v = foldl (\<lambda>acc x. to_i32 (acc + x)) 0 v"

definition average :: "int list \<Rightarrow> int" where
  "average v = (if v = [] then 0
     else to_i64 ((accumulate_int v mod 2 ^ 64) div int (length v)))"

definition keep_last :: "nat \<Rightarrow> 'a list \<Rightarrow> 'a list" where
  "keep_last n xs = (if n < length xs then drop (length xs - n) xs else xs)"

definition addOffsetMeasurement :: "clock_syncer \<Rightarrow> int \<Rightarrow> int \<Rightarrow> clock_syncer" where
  "addOffsetMeasurement c offset qualityValue =
     (let rs = keep_last MAX_SAMPLES_IN_CLOCK_SYNCER (rtt_samples c @ [qualityValue]);
          os = keep_last MAX_SAMPLES_IN_CLOCK_SYNCER (offset_samples c @ [offset])
      in c\<lparr>rtt_samples := rs, offset_samples := os, avg_rtt := average rs, avg_offset := average os\<rparr>)"

definition addNtpSample :: "clock_syncer \<Rightarrow> int \<Rightarrow> int \<Rightarrow> int \<Rightarrow> clock_syncer" where
  "addNtpSample c localSend localRecv remoteTime =
     (if alg c = 1 then c
      else (let rtt = to_i64 (localRecv - localSend);
                sum2 = to_double (2 * to_double remoteTime + to_double rtt);
                offset = cdiv (to_double (sum2 - 2 * to_double localRecv)) 2
            in addOffsetMeasurement (c\<lparr>alg := 0\<rparr>) offset rtt))"

definition addPtpSample4 :: "clock_syncer \<Rightarrow> int \<Rightarrow> int \<Rightarrow> int \<Rightarrow> int \<Rightarrow> clock_syncer" where
  "addPtpSample4 c t1 t2 t3 t4 =
     (if alg c = 0 then c
      else (let A = to_i64 (t2 - t1); B = to_i64 (t4 - t3);
                offset = cdiv (to_double (to_i64 (A - B))) 2;
                delay = cdiv (to_double (to_i64 (A + B))) 2
            in addOffsetMeasurement (c\<lparr>alg := 1\<rparr>) offset delay))"

definition addPtpSample :: "clock_syncer \<Rightarrow> int \<Rightarrow> int \<Rightarrow> clock_syncer" where
  "addPtpSample c offset delay =
     (if alg c = 0 then c else addOffsetMeasurement (c\<lparr>alg := 1\<rparr>) offset delay)"

definition getAverageRTT :: "clock_syncer \<Rightarrow> int" where
  "getAverageRTT c = avg_rtt c"

definition getAverageOffset :: "clock_syncer \<Rightarrow> int" where
  "getAverageOffset c = avg_offset c"

definition getSynchronizedTimeUs :: "clock_syncer \<Rightarrow> world \<Rightarrow> int \<times> world" where
  "getSynchronizedTimeUs c w =
     (let (tv, w') = read_clock w
      in (to_i64 (tv_sec tv * 1000000 + tv_usec tv + avg_offset c), w'))"

definition normalize_time :: "int \<Rightarrow> int \<Rightarrow> int \<Rightarrow> timeval" where
  "normalize_time s us offset_us =
     (let sec = s + cdiv offset_us 1000000; usec = us + cmod offset_us 1000000 in
      if 1000000 \<le> usec then
        \<lparr>tv_sec = sec + cdiv usec 1000000, tv_usec = cmod usec 1000000\<rparr>
      else if usec < 0 then
        (let borrow = cdiv (- usec + 999999) 1000000
         in \<lparr>tv_sec = sec - borrow, tv_usec = usec + borrow * 1000000\<rparr>)
      else \<lparr>tv_sec = sec, tv_usec = usec\<rparr>)"

definition adjust_system_time_by_us :: "world \<Rightarrow> int \<Rightarrow> bool \<times> world" where
  "adjust_system_time_by_us w offset_us =
     (let (tv, w') = read_clock w; tv' = normalize_time (tv_sec tv) (tv_usec tv) offset_us
      in if settimeofday_ok w' tv' then (True, w'\<lparr>system_time := system_time w' @ [tv']\<rparr>)
         else (False, w'))"

definition adjust_time_gradually :: "world \<Rightarrow> int \<Rightarrow> bool \<times> world" where
  "adjust_time_gradually w offset_us =
     (let offset_ns = to_i64 (offset_us * 1000)
      in (adjtimex_result w offset_ns \<noteq> -1, w\<lparr>adjtimex_calls := adjtimex_calls w @ [offset_ns]\<rparr>))"

definition applySync :: "clock_syncer \<Rightarrow> world \<Rightarrow> bool \<times> world" where
  "applySync c w = adjust_time_gradually w (getAverageOffset c)"

section \<open>Lemmas\<close>

lemma bit_length_bound: "n < 2 ^ k \<Longrightarrow> bit_length n \<le> k"
proof (induction k arbitrary: n)
  case 0
  then show ?case by (simp add: bit_length.simps)
next
  case (Suc k)
  then have "bit_length (n div 2) \<le> k" by (intro Suc.IH) auto
  then show ?case by (simp add: bit_length.simps [of n])
qed

lemma to_double_exact [simp]: "\<bar>x\<bar> < 2 ^ 53 \<Longrightarrow> to_double x = x"
proof -
  assume "\<bar>x\<bar> < 2 ^ 53"
  then have "nat \<bar>x\<bar> < 2 ^ 53" by (simp add: nat_less_iff)
  then have "bit_length (nat \<bar>x\<bar>) \<le> 53" by (rule bit_length_bound)
  then have "round_nat (nat \<bar>x\<bar>) = nat \<bar>x\<bar>" by (simp add: round_nat_def)
  then show ?thesis by (simp add: to_double_def sgn_mult_abs)
qed

lemma to_double_range:
  "- 9007199254740992 < x \<Longrightarrow> x < 9007199254740992 \<Longrightarrow> to_double x = x"
  by (rule to_double_exact) (simp add: abs_less_iff)

lemma accumulate_snoc: "accumulate_int (v @ [x]) = to_i32 (accumulate_int v + x)"
  by (simp add: accumulate_int_def)

lemma to_i32_cong: "x mod 2 ^ 32 = y mod 2 ^ 32 \<Longrightarrow> to_i32 x = to_i32 y"
  by (simp add: to_signed_def) (metis mod_add_left_eq)

lemma to_i32_mod: "to_i32 x mod 2 ^ 32 = x mod 2 ^ 32"
  by (simp add: to_signed_def mod_diff_left_eq)

lemma accumulate_eq: "accumulate_int v = to_i32 (sum_list v)"
proof (induction v rule: rev_induct)
  case Nil
  show ?case by (simp add: accumulate_int_def to_signed_def)
next
  case (snoc x v)
  have "(to_i32 (sum_list v) + x) mod 2 ^ 32 = (sum_list v + x) mod 2 ^ 32"
    by (metis mod_add_left_eq to_i32_mod)
  then show ?case
    by (simp add: accumulate_snoc snoc) (rule to_i32_cong, simp add: add.commute)
qed

lemma length_keep_last: "length (keep_last n xs) \<le> n"
  by (simp add: keep_last_def)

lemma set_keep_last: "set (keep_last n xs) \<subseteq> set xs"
  by (auto simp: keep_last_def dest: in_set_dropD)

section \<open>Properties\<close>

text \<open>For non-negative offsets whose sum fits an \<open>int\<close>, and for a single sample of either sign,
  the average is the truncated mean.\<close>

lemma average_correct:
  assumes "v \<noteq> []" and "is_i32 (sum_list v)" and "0 \<le> sum_list v \<or> length v = 1"
  shows "average v = cdiv (sum_list v) (int (length v))"
proof -
  let ?s = "sum_list v" and ?n = "int (length v)"
  have n: "0 < ?n" using assms(1) by simp
  have avg: "average v = to_i64 (?s mod 2 ^ 64 div ?n)"
    using assms(1,2) by (simp add: average_def accumulate_eq)
  show ?thesis
  proof (cases "0 \<le> ?s")
    case True
    have "0 \<le> ?s div ?n"
      using True n by (simp add: pos_imp_zdiv_nonneg_iff)
    moreover have "?s div ?n \<le> ?s div 1"
      using True n by (intro zdiv_mono2) linarith+
    ultimately have "is_i64 (?s div ?n)"
      using assms(2) by (simp add: is_i64_def is_i32_def)
    moreover have "?s mod 2 ^ 64 = ?s" using True assms(2) by (simp add: is_i32_def)
    ultimately show ?thesis
      using avg True n by (simp add: cdiv_nonneg)
  next
    case False
    with assms(3) have one: "?n = 1" by simp
    have "?s mod 2 ^ 64 = ?s + 2 ^ 64"
      using False assms(2) by (intro int_mod_pos_eq [where q = "-1"]) (simp_all add: is_i32_def)
    then have "average v = to_i64 (?s + 2 ^ 64)"
      using avg one by simp
    also have "\<dots> = to_i64 ?s"
      by (rule to_signed_add)
    also have "\<dots> = ?s"
      using assms(2) by (simp add: is_i64_def is_i32_def)
    finally show ?thesis
      using one False by (simp add: cdiv_neg)
  qed
qed

text \<open>C29: with two or more samples whose sum is negative the signed sum is divided as an unsigned
  number, and the reported average comes out positive: the clock would be corrected in the wrong
  direction by at least \<open>(2 ^ 64 - 2 ^ 31) div n\<close> microseconds.\<close>

theorem average_negative_sum:
  assumes "2 \<le> length v" and "is_i32 (sum_list v)" and "sum_list v < 0"
  shows "average v = (2 ^ 64 + sum_list v) div int (length v) \<and>
    (2 ^ 64 - 2 ^ 31) div int (length v) \<le> average v"
proof -
  let ?s = "sum_list v" and ?n = "int (length v)"
  have n: "2 \<le> ?n" using assms(1) by simp
  have m: "?s mod 2 ^ 64 = 2 ^ 64 + ?s"
    using assms(2,3) by (intro int_mod_pos_eq [where q = "-1"]) (simp_all add: is_i32_def)
  have lo: "(2 ^ 64 - 2 ^ 31) div ?n \<le> (2 ^ 64 + ?s) div ?n"
  proof (rule zdiv_mono1)
    show "0 < ?n" using n by linarith
  qed (use assms(2) in \<open>simp add: is_i32_def\<close>)
  have "(2 ^ 64 + ?s) div ?n \<le> (2 ^ 64 + ?s) div 2"
    using n by (rule zdiv_mono2 [rotated 2]) (use assms(2) in \<open>simp_all add: is_i32_def\<close>)
  also have "\<dots> < 2 ^ 63" using assms(3) by simp
  finally have hi: "(2 ^ 64 + ?s) div ?n < 2 ^ 63" .
  have "0 \<le> (2 ^ 64 + ?s) div ?n"
    using n assms(2) by (intro iffD2 [OF pos_imp_zdiv_nonneg_iff]) (auto simp: is_i32_def)
  with hi have "is_i64 ((2 ^ 64 + ?s) div ?n)" by (simp add: is_i64_def)
  then have "average v = (2 ^ 64 + ?s) div ?n"
    using assms(1,2) m by (auto simp: average_def accumulate_eq)
  with lo show ?thesis by simp
qed

theorem average_negative_sum_witness: "average [- 3, - 4] = 9223372036854775804"
  using average_negative_sum [of "[- 3, - 4]"] by (simp add: is_i32_def)

definition wf_clock_syncer :: "clock_syncer \<Rightarrow> bool" where
  "wf_clock_syncer c \<longleftrightarrow> length (rtt_samples c) = length (offset_samples c) \<and>
     length (offset_samples c) \<le> MAX_SAMPLES_IN_CLOCK_SYNCER \<and>
     avg_rtt c = average (rtt_samples c) \<and> avg_offset c = average (offset_samples c) \<and>
     alg c \<in> {-1, 0, 1}"

lemma addOffsetMeasurement_wf:
  "wf_clock_syncer c \<Longrightarrow> wf_clock_syncer (addOffsetMeasurement c x y)"
  by (auto simp: wf_clock_syncer_def addOffsetMeasurement_def Let_def keep_last_def)

lemma addOffsetMeasurement_alg [simp]: "alg (addOffsetMeasurement c x y) = alg c"
  by (simp add: addOffsetMeasurement_def Let_def)

lemma wf_alg_update: "wf_clock_syncer c \<Longrightarrow> a \<in> {-1, 0, 1} \<Longrightarrow> wf_clock_syncer (c\<lparr>alg := a\<rparr>)"
  by (simp add: wf_clock_syncer_def)

lemma last_offset_sample: "last (offset_samples (addOffsetMeasurement c x y)) = x"
  by (simp add: addOffsetMeasurement_def Let_def keep_last_def MAX_SAMPLES_IN_CLOCK_SYNCER_def)



text \<open>The four-timestamp formula is exact. If the slave clock runs \<open>theta\<close> microseconds ahead of
  the master and the message takes \<open>delta\<close> microseconds in each direction, the sample is exactly
  \<open>(theta, delta)\<close>.\<close>

lemma ptp_sample_exact:
  assumes "alg c \<noteq> 0" and "\<bar>theta\<bar> < 2 ^ 50" and "\<bar>delta\<bar> < 2 ^ 50"
    and "\<bar>t1\<bar> < 2 ^ 52" and "\<bar>t3\<bar> < 2 ^ 52"
  shows "addPtpSample4 c t1 (t1 + theta + delta) t3 (t3 - theta + delta) =
    addOffsetMeasurement (c\<lparr>alg := 1\<rparr>) theta delta"
proof -
  have "is_i64 (theta + delta)" "is_i64 (delta - theta)" "is_i64 (2 * theta)" "is_i64 (2 * delta)"
    using assms by (auto simp: is_i64_def abs_less_iff)
  moreover have "to_double (2 * theta) = 2 * theta" "to_double (2 * delta) = 2 * delta"
    using assms by simp_all
  ultimately show ?thesis
    using assms(1) cdiv_2 [of theta] cdiv_2 [of delta]
    by (simp add: addPtpSample4_def Let_def algebra_simps)
qed

text \<open>The NTP formula estimates remote time minus local time at the moment of reception, assuming
  symmetric delay, and loses at most the half microsecond of an odd round trip to truncation.\<close>

lemma ntp_sample_exact:
  assumes "alg c \<noteq> 1" and "\<bar>localSend\<bar> < 2 ^ 50" and "\<bar>localRecv\<bar> < 2 ^ 50" and "\<bar>remoteTime\<bar> < 2 ^ 50"
  shows "addNtpSample c localSend localRecv remoteTime =
    addOffsetMeasurement (c\<lparr>alg := 0\<rparr>)
      (cdiv (2 * remoteTime - localSend - localRecv) 2) (localRecv - localSend)"
proof -
  have b: "- 1125899906842624 < localSend" "localSend < 1125899906842624"
    "- 1125899906842624 < localRecv" "localRecv < 1125899906842624"
    "- 1125899906842624 < remoteTime" "remoteTime < 1125899906842624"
    using assms(2-4) by (simp_all add: abs_less_iff)
  have "is_i64 (localRecv - localSend)"
    using b by (simp add: is_i64_def)
  then have "to_i64 (localRecv - localSend) = localRecv - localSend" by simp
  moreover have "to_double remoteTime = remoteTime" "to_double localRecv = localRecv"
    "to_double (localRecv - localSend) = localRecv - localSend"
    "to_double (2 * remoteTime + (localRecv - localSend)) = 2 * remoteTime + (localRecv - localSend)"
    "to_double (2 * remoteTime - localSend - localRecv) = 2 * remoteTime - localSend - localRecv"
    by (rule to_double_range; use b in linarith)+
  moreover have "2 * remoteTime + (localRecv - localSend) - 2 * localRecv =
      2 * remoteTime - localSend - localRecv"
    by simp
  ultimately show ?thesis
    using assms(1) by (simp only: addNtpSample_def Let_def if_False)
qed

text \<open>The adjusted time is normalised and moved by exactly the requested offset, for positive and
  negative offsets.\<close>

lemma normalize_time_correct:
  assumes "0 \<le> us" and "us < 1000000"
  shows "tv_sec (normalize_time s us off) * 1000000 + tv_usec (normalize_time s us off)
      = s * 1000000 + us + off \<and>
    0 \<le> tv_usec (normalize_time s us off) \<and> tv_usec (normalize_time s us off) < 1000000"
proof -
  define usec where "usec = us + cmod off 1000000"
  define sec where "sec = s + cdiv off 1000000"
  have tot: "sec * 1000000 + usec = s * 1000000 + us + off"
    using cdiv_cmod [of 1000000 off] by (simp add: sec_def usec_def)
  have b: "\<bar>cmod off 1000000\<bar> < 1000000" by (rule cmod_bound) simp
  then have u: "-1000000 < usec" "usec < 2000000"
    using assms by (simp_all add: usec_def)
  have nt: "normalize_time s us off = (if 1000000 \<le> usec then
        \<lparr>tv_sec = sec + cdiv usec 1000000, tv_usec = cmod usec 1000000\<rparr>
      else if usec < 0 then
        \<lparr>tv_sec = sec - cdiv (- usec + 999999) 1000000,
         tv_usec = usec + cdiv (- usec + 999999) 1000000 * 1000000\<rparr>
      else \<lparr>tv_sec = sec, tv_usec = usec\<rparr>)"
    by (simp add: normalize_time_def sec_def usec_def Let_def)
  consider "1000000 \<le> usec" | "usec < 0" | "0 \<le> usec" "usec < 1000000" by linarith
  then show ?thesis
  proof cases
    case 1
    then show ?thesis
      using nt tot u by (simp add: cdiv_nonneg cmod_nonneg algebra_simps)
  next
    case 2
    then have "cdiv (- usec + 999999) 1000000 = 1"
      using u by (simp add: cdiv_nonneg)
    with 2 show ?thesis
      using nt tot u by (simp add: algebra_simps)
  next
    case 3
    then show ?thesis using nt tot by simp
  qed
qed

end
