(* ===== verification/Protocol.thy ===== *)
theory Protocol
  imports Protocol_Message Nic Clock_Syncer
begin

text \<open>
  \<open>src/src/protocol.h\<close>, the class \<open>Protocol\<close>: packets over the NIC, the group table, the
  start barrier (READY/GO), the clock synchronisation exchange (SYNC_REQ, SYNC_RESP, DELAY_REQ,
  DELAY_RESP), group management, and the delivery of packets to port observers. Calls into the
  upper layers are returned as a list of up-calls in the order in which the code makes them.
\<close>

section \<open>State\<close>

definition ANY_PORT :: u16 where
  "ANY_PORT = 0xFFFF"

definition header_bytes :: nat where
  "header_bytes = 6"

definition MTU :: nat where
  "MTU = MAX_DATA - header_bytes"

record port_observer =
  po_id :: nat
  po_port :: u16
  po_origin :: channel_origin

record group_info =
  gi_group_id :: int
  members :: "int set"

definition new_group_info :: group_info where
  "new_group_info = \<lparr>gi_group_id = 0, members = {}\<rparr>"

text \<open>
  \<open>_groups\<close> is an unordered map: the entries are kept in insertion order, and \<open>group_order\<close>
  is the order in which the container walks over its keys, which the language leaves open.
\<close>

type_synonym group_table = "(int \<times> group_info) list"

record protocol =
  p_nic :: nic
  etherType :: u16
  current_group_id :: int
  groups :: group_table
  group_order :: "int list \<Rightarrow> int list"
  sync_total_vms :: int
  control_local :: endpoint
  sync_ready_nodes :: "string set"
  sync_done_callback :: bool \<comment> \<open>whether the callback is set\<close>
  sync_go_sent :: bool
  sync_go_received :: bool
  is_master :: bool
  portObservers :: "port_observer option list" \<comment> \<open>\<open>None\<close> for a null pointer\<close>
  clock_sync :: clock_syncer
  running_ptp :: bool
  probabilistic_ptp_timeout :: bool

definition new_protocol :: "nic \<Rightarrow> u16 \<Rightarrow> (int list \<Rightarrow> int list) \<Rightarrow> protocol" where
  "new_protocol n et ord = \<lparr>p_nic = n, etherType = et, current_group_id = 0, groups = [],
     group_order = ord, sync_total_vms = 0, control_local = default_endpoint,
     sync_ready_nodes = {}, sync_done_callback = False, sync_go_sent = False,
     sync_go_received = False, is_master = False, portObservers = [],
     clock_sync = new_clock_syncer, running_ptp = False, probabilistic_ptp_timeout = False\<rparr>"

datatype upcall =
    Sync_done
  | On_control nat control_type endpoint endpoint
  | On_packet nat endpoint endpoint bytes channel_origin

section \<open>Sending\<close>

definition packet_header :: "u16 \<Rightarrow> u16 \<Rightarrow> u16 \<Rightarrow> bytes" where
  "packet_header sp dp len = le16 sp @ le16 dp @ le16 len"

definition send :: "protocol \<Rightarrow> world \<Rightarrow> endpoint \<Rightarrow> endpoint \<Rightarrow> bytes \<Rightarrow> (int \<times> world) res" where
  "send p w frm to payload =
     (if MTU < length payload then Inr (-1, w)
      else nic_send (p_nic p) w (mac to) (etherType p)
        (packet_header (port frm) (port to) (of_nat (length payload)) @ payload))"

definition send_control ::
  "protocol \<Rightarrow> world \<Rightarrow> endpoint \<Rightarrow> endpoint \<Rightarrow> control_type \<Rightarrow> u8 \<Rightarrow> string \<Rightarrow> (int \<times> world) res" where
  "send_control p w frm to ctype ac payload =
     (let (now, w1) = get_microseconds_now w;
          msg = new_message\<lparr>control := ctype, msgac := ac,
            group_id := word_of_int (current_group_id p),
            orig_vm := word_of_int (vm_id_from_mac (mac frm)),
            orig_port := port frm, timestamp := now, body := payload\<rparr>
      in send p w1 frm to (bytes_of_string (build_message msg)))"

section \<open>Group table\<close>

definition GROUP_COORDINATORS :: "int list" where
  "GROUP_COORDINATORS = [0, 10, 20, 30]"

definition coordinator_for_group :: "int \<Rightarrow> int res" where
  "coordinator_for_group gid =
     (if 0 \<le> gid \<and> gid < int (length GROUP_COORDINATORS) then Inr (GROUP_COORDINATORS ! nat gid)
      else Inl Out_of_bounds)"

text \<open>The guarded lookup that several functions write out: \<open>-1\<close> for an unknown group.\<close>

definition coordinator_or_none :: "int \<Rightarrow> int" where
  "coordinator_or_none gid =
     (if 0 \<le> gid \<and> gid < int (length GROUP_COORDINATORS) then GROUP_COORDINATORS ! nat gid else -1)"

text \<open>\<open>_groups[gid]\<close> followed by an update of the entry; a missing entry is created.\<close>

fun group_at :: "int \<Rightarrow> (group_info \<Rightarrow> group_info) \<Rightarrow> group_table \<Rightarrow> group_table" where
  "group_at gid f [] = [(gid, f new_group_info)]"
| "group_at gid f ((k, v) # gs) =
     (if k = gid then (k, f v) # gs else (k, v) # group_at gid f gs)"

definition set_gid :: "int \<Rightarrow> group_info \<Rightarrow> group_info" where
  "set_gid gid g = g\<lparr>gi_group_id := gid\<rparr>"

definition add_member :: "int \<Rightarrow> group_info \<Rightarrow> group_info" where
  "add_member vm g = g\<lparr>members := insert vm (members g)\<rparr>"

definition del_member :: "int \<Rightarrow> group_info \<Rightarrow> group_info" where
  "del_member vm g = g\<lparr>members := members g - {vm}\<rparr>"

definition in_group :: "group_table \<Rightarrow> int \<Rightarrow> int \<Rightarrow> bool" where
  "in_group gs vm gid = (case map_of gs gid of Some g \<Rightarrow> vm \<in> members g | None \<Rightarrow> False)"

definition get_group_of :: "protocol \<Rightarrow> int \<Rightarrow> int option" where
  "get_group_of p vm_id =
     List.find (in_group (groups p) vm_id) (group_order p (map fst (groups p)))"

definition group_members :: "protocol \<Rightarrow> int \<Rightarrow> int set" where
  "group_members p gid = (case map_of (groups p) gid of Some g \<Rightarrow> members g | None \<Rightarrow> {})"

definition register_vm_in_group :: "protocol \<Rightarrow> int \<Rightarrow> int \<Rightarrow> protocol" where
  "register_vm_in_group p gid vmid =
     p\<lparr>groups := group_at gid (\<lambda>g. add_member vmid (set_gid gid g)) (groups p)\<rparr>"

definition set_group_for_vm :: "protocol \<Rightarrow> int \<Rightarrow> int \<Rightarrow> protocol" where
  "set_group_for_vm p vm_id gid =
     p\<lparr>groups := group_at gid (add_member vm_id)
        (map (\<lambda>(k, g). (k, del_member vm_id g)) (groups p))\<rparr>"

definition get_current_group :: "protocol \<Rightarrow> int" where
  "get_current_group p = current_group_id p"

definition is_message_internal :: "protocol \<Rightarrow> message \<Rightarrow> bool" where
  "is_message_internal p m \<longleftrightarrow> uint (group_id m) = get_current_group p"

definition is_local_coordinator :: "protocol \<Rightarrow> bool" where
  "is_local_coordinator p = is_master p"

definition is_remote_coordinator :: "protocol \<Rightarrow> int \<Rightarrow> bool" where
  "is_remote_coordinator p vm_id \<longleftrightarrow> coordinator_or_none (current_group_id p) = vm_id"

definition my_vm :: "protocol \<Rightarrow> int" where
  "my_vm p = vm_id_from_mac (nic_address (p_nic p))"

definition to_all :: "protocol \<Rightarrow> endpoint" where
  "to_all p = Endpoint BROADCAST (port (control_local p))"

definition group_info_text :: "int \<Rightarrow> int set \<Rightarrow> string" where
  "group_info_text gid ms = ''GROUP_INFO '' @ show_int gid @ '' MEMBERS:'' @
     concat (map (\<lambda>m. '' '' @ show_int m) (sorted_list_of_set ms))"

definition broadcast_group_info :: "protocol \<Rightarrow> world \<Rightarrow> int \<Rightarrow> (protocol \<times> world) res" where
  "broadcast_group_info p w gid =
     (let p1 = p\<lparr>groups := group_at gid id (groups p)\<rparr>
      in res_bind (send p1 w (control_local p1) (to_all p1)
           (bytes_of_string (group_info_text gid (group_members p1 gid))))
         (\<lambda>(_, w1). Inr (p1, w1)))"

definition notify_body :: "int \<Rightarrow> int \<Rightarrow> int \<Rightarrow> string" where
  "notify_body vm old_gid new_gid = show_int vm @ '' '' @ show_int old_gid @ '' '' @ show_int new_gid"

definition set_current_group :: "protocol \<Rightarrow> world \<Rightarrow> int \<Rightarrow> (protocol \<times> world) res" where
  "set_current_group p w gid =
     (let vm = my_vm p;
          p1 = p\<lparr>current_group_id := gid,
             groups := group_at gid
               (\<lambda>g. if 0 \<le> vm then add_member vm (set_gid gid g) else set_gid gid g) (groups p)\<rparr>;
          coord_vm = coordinator_or_none gid
      in if 0 \<le> coord_vm \<and> coord_vm \<noteq> vm then
           res_bind (endpoint_from_vm coord_vm (port (control_local p1))) (\<lambda>coord_ep.
           res_bind (send_control p1 w (control_local p1) coord_ep GROUP_MOVE_NOTIFY 0
               (notify_body vm (-1) gid)) (\<lambda>(_, w1). Inr (p1, w1)))
         else broadcast_group_info p1 w gid)"

definition move_group :: "protocol \<Rightarrow> world \<Rightarrow> int \<Rightarrow> (int \<times> world) res" where
  "move_group p w new_gid =
     send_control p w (control_local p) (to_all p) GROUP_MOVE_REQUEST 0 (show_int new_gid)"

definition enable_start_sync :: "protocol \<Rightarrow> int \<Rightarrow> endpoint \<Rightarrow> bool \<Rightarrow> protocol" where
  "enable_start_sync p total_vms lcl has_cb =
     p\<lparr>sync_total_vms := total_vms, control_local := lcl,
       sync_ready_nodes := (if is_master p then {} else {address_str (mac lcl)}),
       sync_done_callback := has_cb\<rparr>"

definition set_master :: "protocol \<Rightarrow> bool \<Rightarrow> protocol" where
  "set_master p m = p\<lparr>is_master := m\<rparr>"

definition set_running_ptp :: "protocol \<Rightarrow> bool \<Rightarrow> protocol" where
  "set_running_ptp p v = p\<lparr>running_ptp := v\<rparr>"

definition set_probabilistic_ptp_timeout :: "protocol \<Rightarrow> bool \<Rightarrow> protocol" where
  "set_probabilistic_ptp_timeout p v = p\<lparr>probabilistic_ptp_timeout := v\<rparr>"

definition attach_port :: "protocol \<Rightarrow> port_observer option \<Rightarrow> protocol" where
  "attach_port p po = p\<lparr>portObservers := attach (portObservers p) po\<rparr>"

definition detach_port :: "protocol \<Rightarrow> port_observer option \<Rightarrow> protocol" where
  "detach_port p po = p\<lparr>portObservers := detach (portObservers p) po\<rparr>"

section \<open>Numbers in message bodies\<close>

text \<open>\<open>%lu\<close> (saturating at \<open>ULONG_MAX\<close>), \<open>%lld\<close> (saturating at both ends) and \<open>>> int\<close>.\<close>

definition scan_lu :: "string \<Rightarrow> (u64 \<times> string) option" where
  "scan_lu s = (case scan_number s of
      None \<Rightarrow> None
    | Some (neg, m, r) \<Rightarrow>
        Some (if 2 ^ 64 \<le> m then - 1 else if neg then - of_nat m else of_nat m, r))"

definition scan_lld :: "string \<Rightarrow> (int \<times> string) option" where
  "scan_lld s = (case scan_number s of
      None \<Rightarrow> None
    | Some (neg, m, r) \<Rightarrow> Some (max (- (2 ^ 63)) (min (2 ^ 63 - 1) (signed_val neg m)), r))"

definition scan_stream_int :: "string \<Rightarrow> (int \<times> string) option" where
  "scan_stream_int s = (case scan_number s of
      None \<Rightarrow> None
    | Some (neg, m, r) \<Rightarrow>
        if is_i32 (signed_val neg m) then Some (signed_val neg m, r) else None)"

definition scan_three_lu :: "string \<Rightarrow> (u64 \<times> u64 \<times> u64) option" where
  "scan_three_lu s = (case scan_lu s of None \<Rightarrow> None | Some (a, r) \<Rightarrow>
     (case scan_lu r of None \<Rightarrow> None | Some (b, r') \<Rightarrow>
     (case scan_lu r' of None \<Rightarrow> None | Some (c, _) \<Rightarrow> Some (a, b, c))))"

definition scan_three_int :: "string \<Rightarrow> (int \<times> int \<times> int) option" where
  "scan_three_int s = (case scan_stream_int s of None \<Rightarrow> None | Some (a, r) \<Rightarrow>
     (case scan_stream_int r of None \<Rightarrow> None | Some (b, r') \<Rightarrow>
     (case scan_stream_int r' of None \<Rightarrow> None | Some (c, _) \<Rightarrow> Some (a, b, c))))"

section \<open>Control messages\<close>

text \<open>
  A packet as \<open>update\<close> prepares it. A handler's result tells whether control reaches the
  forwarding loop (\<open>False\<close> after a \<open>return\<close>) and carries the state, the world and the
  up-calls made.
\<close>

record capsule =
  cap_from :: endpoint
  cap_to :: endpoint
  cap_length :: u16
  cap_origin :: channel_origin
  cap_payload :: bytes

type_synonym outcome = "bool \<times> protocol \<times> world \<times> upcall list"

definition clean_body :: "string \<Rightarrow> string" where
  "clean_body b = rtrim (ltrim (c_str b))"

definition handle_ready :: "protocol \<Rightarrow> world \<Rightarrow> capsule \<Rightarrow> message \<Rightarrow> outcome res" where
  "handle_ready p w c m =
     (if is_message_internal p m \<and> 0 < sync_total_vms p then
        (let p1 = p\<lparr>sync_ready_nodes := insert (address_str (mac (cap_from c))) (sync_ready_nodes p)\<rparr>
         in if \<not> sync_go_sent p1 \<and> int (card (sync_ready_nodes p1)) = sync_total_vms p1 then
              res_bind (send_control p1 w (control_local p1) (to_all p1) GO 0 [])
                (\<lambda>(_, w1). Inr (True, p1\<lparr>sync_go_sent := True\<rparr>, w1, []))
            else Inr (True, p1, w, []))
      else Inr (True, p, w, []))"

definition handle_go :: "protocol \<Rightarrow> world \<Rightarrow> message \<Rightarrow> outcome res" where
  "handle_go p w m =
     (if is_message_internal p m \<and> \<not> sync_go_received p then
        Inr (True, p\<lparr>sync_go_received := True\<rparr>, w, if sync_done_callback p then [Sync_done] else [])
      else Inr (True, p, w, []))"

definition handle_sync_req :: "protocol \<Rightarrow> world \<Rightarrow> capsule \<Rightarrow> message \<Rightarrow> outcome res" where
  "handle_sync_req p w c m =
     (if is_message_internal p m \<and> is_master p then
        (let (t1, w1) = get_microseconds_now w; buf = show_word t1
         in res_bind (send_control p w1 (control_local p) (cap_from c) SYNC_RESP (generate_mac buf) buf)
              (\<lambda>(_, w2). Inr (True, p, w2, [])))
      else Inr (True, p, w, []))"

definition handle_sync_resp :: "protocol \<Rightarrow> world \<Rightarrow> capsule \<Rightarrow> message \<Rightarrow> outcome res" where
  "handle_sync_resp p w c m =
     (if is_message_internal p m \<and> \<not> is_master p then
        (let t1 = (case scan_lu (body m) of Some (t, _) \<Rightarrow> t | None \<Rightarrow> 0);
             (t2, w1) = get_microseconds_now w;
             t3 = t2;
             buf = show_word t1 @ '' '' @ show_word t2 @ '' '' @ show_word t3
         in res_bind (send_control p w1 (control_local p) (cap_from c) DELAY_REQ (generate_mac buf) buf)
              (\<lambda>(_, w2). Inr (True, p, w2, [])))
      else Inr (True, p, w, []))"

text \<open>Offset and round-trip time on the master: unsigned differences read as signed.\<close>

definition ptp_offset :: "u64 \<Rightarrow> u64 \<Rightarrow> u64 \<Rightarrow> u64 \<Rightarrow> int" where
  "ptp_offset t1 t2 t3 t4 = cdiv (to_i64 (sint (t2 - t1) + sint (t3 - t4))) 2"

definition ptp_rtt :: "u64 \<Rightarrow> u64 \<Rightarrow> u64 \<Rightarrow> u64 \<Rightarrow> int" where
  "ptp_rtt t1 t2 t3 t4 = sint ((t4 - t1) - (t3 - t2))"

definition handle_delay_req :: "protocol \<Rightarrow> world \<Rightarrow> capsule \<Rightarrow> message \<Rightarrow> outcome res" where
  "handle_delay_req p w c m =
     (if is_message_internal p m \<and> is_master p then
        (case scan_three_lu (body m) of
           None \<Rightarrow> Inr (False, p, w, [])
         | Some (t1, t2, t3) \<Rightarrow>
            (let (t4, w1) = get_microseconds_now w;
                 buf = show_int (ptp_offset t1 t2 t3 t4) @ '' '' @ show_int (ptp_rtt t1 t2 t3 t4)
             in res_bind (send_control p w1 (control_local p) (cap_from c) DELAY_RESP (generate_mac buf) buf)
                  (\<lambda>(_, w2). Inr (True, p, w2, []))))
      else Inr (True, p, w, []))"

text \<open>
  The sample is added and applied unconditionally; the value of \<open>hasEnoughSamplesCI\<close> and the
  timeout flag are computed and not used.
\<close>

definition scan_sample :: "string \<Rightarrow> int \<times> int" where
  "scan_sample s = (case scan_lld s of
      None \<Rightarrow> (0, 0)
    | Some (a, r) \<Rightarrow> (case scan_lld r of None \<Rightarrow> (a, 0) | Some (b, _) \<Rightarrow> (a, b)))"

definition handle_delay_resp :: "protocol \<Rightarrow> world \<Rightarrow> message \<Rightarrow> outcome res" where
  "handle_delay_resp p w m =
     (if is_message_internal p m \<and> \<not> is_master p then
        (let (offset, delay) = scan_sample (body m);
             cs = addPtpSample (clock_sync p) offset delay;
             (_, w1) = applySync cs w
         in Inr (True, set_running_ptp (p\<lparr>clock_sync := cs\<rparr>) False, w1, []))
      else Inr (True, p, w, []))"

text \<open>The coordinator tells every other coordinator, in the order of the table.\<close>

fun notify_coordinators ::
  "protocol \<Rightarrow> world \<Rightarrow> int list \<Rightarrow> int \<Rightarrow> int \<Rightarrow> int \<Rightarrow> world res" where
  "notify_coordinators p w [] vm old_gid new_gid = Inr w"
| "notify_coordinators p w (coord_vm # cs) vm old_gid new_gid =
     (if coord_vm = my_vm p then notify_coordinators p w cs vm old_gid new_gid
      else res_bind (endpoint_from_vm coord_vm (port (control_local p))) (\<lambda>ep.
           res_bind (send_control p w (control_local p) ep GROUP_MOVE_NOTIFY 0
               (notify_body vm old_gid new_gid)) (\<lambda>(_, w1).
           notify_coordinators p w1 cs vm old_gid new_gid)))"

text \<open>The critical section of a coordinator that performs a move.\<close>

definition apply_move_request :: "group_table \<Rightarrow> int \<Rightarrow> int \<Rightarrow> int \<Rightarrow> group_table" where
  "apply_move_request gs requester_id sender_gid requested_gid =
     (let g1 = group_at requested_gid (set_gid requested_gid) gs;
          g2 = (if sender_gid \<in> fst ` set g1
                then group_at sender_gid (del_member requester_id) g1 else g1)
      in group_at requested_gid (add_member requester_id) g2)"

definition handle_move_request :: "protocol \<Rightarrow> world \<Rightarrow> message \<Rightarrow> outcome res" where
  "handle_move_request p w m =
     (let requester_id = uint (orig_vm m) in
      res_bind (stoi (body m)) (\<lambda>new_gid.
      (let p1 = set_group_for_vm p requester_id new_gid; requested_gid = new_gid in
       (case get_group_of p1 requester_id of
          None \<Rightarrow> Inr (False, p1, w, [])
        | Some sender_gid \<Rightarrow>
            if my_vm p1 \<noteq> coordinator_or_none sender_gid then Inr (False, p1, w, [])
            else
              (let p2 = p1\<lparr>groups := apply_move_request (groups p1) requester_id sender_gid requested_gid\<rparr>
               in res_bind (notify_coordinators p2 w GROUP_COORDINATORS requester_id sender_gid requested_gid)
                  (\<lambda>w1. res_bind (endpoint_from_vm requester_id (port (control_local p2))) (\<lambda>ep.
                  res_bind (send_control p2 w1 (control_local p2) ep GROUP_ASSIGN 0 (show_int requested_gid))
                  (\<lambda>(_, w2). Inr (True, p2, w2, [])))))))))"

text \<open>The critical section of a coordinator that is told of a move.\<close>

definition apply_move_notify :: "group_table \<Rightarrow> int \<Rightarrow> int \<Rightarrow> int \<Rightarrow> group_table" where
  "apply_move_notify gs vm_id old_gid new_gid =
     (let g1 = group_at old_gid (set_gid old_gid) gs;
          g2 = group_at new_gid (set_gid new_gid) g1;
          g3 = group_at old_gid (del_member vm_id) g2
      in group_at new_gid (add_member vm_id) g3)"

definition handle_move_notify :: "protocol \<Rightarrow> world \<Rightarrow> message \<Rightarrow> outcome res" where
  "handle_move_notify p w m =
     (case scan_three_int (body m) of
        None \<Rightarrow> Inr (False, p, w, [])
      | Some (vm_id, old_gid, new_gid) \<Rightarrow>
          res_bind (coordinator_for_group old_gid) (\<lambda>co.
          res_bind (if my_vm p = co then Inr True
                    else res_bind (coordinator_for_group new_gid) (\<lambda>cn. Inr (my_vm p = cn)))
          (\<lambda>am_coordinator.
            if \<not> am_coordinator then Inr (False, p, w, [])
            else Inr (True, p\<lparr>groups := apply_move_notify (groups p) vm_id old_gid new_gid\<rparr>, w, []))))"

definition handle_assign :: "protocol \<Rightarrow> world \<Rightarrow> message \<Rightarrow> outcome res" where
  "handle_assign p w m =
     (case stoi (body m) of
        Inl _ \<Rightarrow> Inr (False, p, w, [])
      | Inr target_gid \<Rightarrow>
          res_bind (set_current_group p w target_gid) (\<lambda>(p1, w1). Inr (True, p1, w1, [])))"

definition handle_register :: "protocol \<Rightarrow> world \<Rightarrow> message \<Rightarrow> outcome res" where
  "handle_register p w m =
     (let sender_vm = uint (orig_vm m);
          target_gid = (case get_group_of p sender_vm of Some g \<Rightarrow> g | None \<Rightarrow> current_group_id p)
      in res_bind (coordinator_for_group target_gid) (\<lambda>coord_vm.
         if my_vm p \<noteq> coord_vm then Inr (False, p, w, [])
         else
           (let p1 = register_vm_in_group p target_gid sender_vm
            in res_bind (endpoint_from_vm sender_vm (port (control_local p1))) (\<lambda>ep.
               res_bind (send_control p1 w (control_local p1) ep GROUP_ASSIGN 0 (show_int target_gid))
               (\<lambda>(_, w1). Inr (True, p1, w1, []))))))"

definition handle_control :: "protocol \<Rightarrow> world \<Rightarrow> capsule \<Rightarrow> message \<Rightarrow> outcome res" where
  "handle_control p w c m = (case control m of
      READY \<Rightarrow> handle_ready p w c m
    | GO \<Rightarrow> handle_go p w m
    | SYNC_REQ \<Rightarrow> handle_sync_req p w c m
    | SYNC_RESP \<Rightarrow> handle_sync_resp p w c m
    | DELAY_REQ \<Rightarrow> handle_delay_req p w c m
    | DELAY_RESP \<Rightarrow> handle_delay_resp p w m
    | GROUP_MOVE_REQUEST \<Rightarrow> handle_move_request p w m
    | GROUP_MOVE_NOTIFY \<Rightarrow> handle_move_notify p w m
    | GROUP_ASSIGN \<Rightarrow> handle_assign p w m
    | GROUP_REGISTER \<Rightarrow> handle_register p w m
    | NONE \<Rightarrow> Inr (True, p, w, [])
    | Unnamed i \<Rightarrow> Inr (True, p, w, []))"

section \<open>Delivery\<close>

text \<open>The forwarding loop, for one observer.\<close>

definition forward_one :: "protocol \<Rightarrow> capsule \<Rightarrow> message \<Rightarrow> port_observer option \<Rightarrow> upcall list" where
  "forward_one p c m po = (case po of
      None \<Rightarrow> []
    | Some ob \<Rightarrow>
        if control m \<noteq> NONE then
          (let sender_gid = get_group_of p (uint (orig_vm m));
               sender_same_group = (sender_gid = Some (current_group_id p))
           in if control m = GROUP_REGISTER \<or> control m = GROUP_ASSIGN \<or>
                 is_local_coordinator p \<or> sender_same_group
              then [On_control (po_id ob) (control m) (cap_from c) (cap_to c)] else [])
        else if uint (group_id m) = -1 \<or> uint (group_id m) \<noteq> current_group_id p then []
        else if po_port ob = port (cap_to c) \<or> po_port ob = ANY_PORT
          then [On_packet (po_id ob) (cap_from c) (cap_to c)
                  (take (unat (cap_length c)) (cap_payload c)) (cap_origin c)]
          else [])"

definition notify_by_port :: "protocol \<Rightarrow> world \<Rightarrow> capsule \<Rightarrow> (protocol \<times> world \<times> upcall list) res" where
  "notify_by_port p w c =
     res_bind (parse_message (cap_payload c)) (\<lambda>m0.
     if control m0 \<noteq> NONE \<and> \<not> verify_msgac (msgac m0) (body m0) then Inr (p, w, [])
     else
       (let m = m0\<lparr>body := clean_body (body m0)\<rparr>
        in res_bind (handle_control p w c m) (\<lambda>(go_on, p1, w1, ups).
           Inr (p1, w1, ups @
             (if go_on then concat (map (forward_one p1 c m) (portObservers p1)) else [])))))"

definition update :: "protocol \<Rightarrow> world \<Rightarrow> u16 \<Rightarrow> frame option \<Rightarrow> channel_origin \<Rightarrow>
    (protocol \<times> world \<times> upcall list) res" where
  "update p w pnum fr origin = (case fr of
      None \<Rightarrow> Inr (p, w, [])
    | Some f \<Rightarrow>
        if pnum \<noteq> etherType p then Inr (p, w, [])
        else if unat (fsize f) \<le> header_bytes then Inr (p, w, [])
        else
          (let sp = un_le16 (fdata f); dp = un_le16 (drop 2 (fdata f));
               payloadLen = unat (fsize f) - header_bytes;
               c = \<lparr>cap_from = Endpoint (src f) sp, cap_to = Endpoint (dst f) dp,
                    cap_length = of_nat payloadLen, cap_origin = origin,
                    cap_payload = take payloadLen (drop header_bytes (fdata f))\<rparr>
           in notify_by_port p w c))"

section \<open>Sending is total and only sends\<close>

lemma header_bytes_eq [simp]: "header_bytes = 6"
  by (simp add: header_bytes_def)

lemma MTU_eq [simp]: "MTU = 1494"
  by (simp add: MTU_def MAX_DATA_def)

lemma length_packet_header [simp]: "length (packet_header a b c) = 6"
  by (simp add: packet_header_def le16_def)

lemma send_total: "\<exists>r w'. send p w frm to payload = Inr (r, w')"
proof (cases "MTU < length payload")
  case True
  then show ?thesis by (simp add: send_def)
next
  case False
  then have "length (packet_header a b c @ payload) \<le> MAX_DATA" for a b c
    by (simp add: MAX_DATA_def)
  with False show ?thesis
    unfolding send_def by (simp only: if_False) (rule nic_link.send_ok)
qed

lemma send_frame: "send p w frm to payload = Inr (r, w') \<Longrightarrow> same_but_output w w'"
  by (auto simp: send_def dest: nic_link.send_frame split: if_splits)

lemma send_control_total: "\<exists>r w'. send_control p w frm to ct ac b = Inr (r, w')"
  by (simp add: send_control_def send_total)

lemma send_control_frame:
  "send_control p w frm to ct ac b = Inr (r, w') \<Longrightarrow> same_but_output (tick w) w'"
  by (auto simp: send_control_def dest: send_frame)

text \<open>The message \<open>send_control\<close> prints.\<close>

definition control_message :: "protocol \<Rightarrow> world \<Rightarrow> endpoint \<Rightarrow> control_type \<Rightarrow> u8 \<Rightarrow> string \<Rightarrow> message" where
  "control_message p w frm ctype ac payload =
     new_message\<lparr>control := ctype, msgac := ac, group_id := word_of_int (current_group_id p),
       orig_vm := word_of_int (vm_id_from_mac (mac frm)), orig_port := port frm,
       timestamp := next_time w, body := payload\<rparr>"

lemma send_control_eq:
  "send_control p w frm to ct ac b =
     send p (tick w) frm to (bytes_of_string (build_message (control_message p w frm ct ac b)))"
  by (simp add: send_control_def control_message_def)

definition named :: "control_type \<Rightarrow> bool" where
  "named ct \<longleftrightarrow> (\<forall>i. ct \<noteq> Unnamed i)"

lemma wf_control_message:
  "named ct \<Longrightarrow> wf_message (control_message p w frm ct ac b)"
  by (cases ct) (simp_all add: named_def wf_message_def control_message_def new_message_def
      is_i32_def control_of_int_def)

lemma control_message_simps [simp]:
  "control (control_message p w frm ct ac b) = ct"
  "msgac (control_message p w frm ct ac b) = ac"
  "body (control_message p w frm ct ac b) = b"
  "group_id (control_message p w frm ct ac b) = word_of_int (current_group_id p)"
  "orig_vm (control_message p w frm ct ac b) = word_of_int (vm_id_from_mac (mac frm))"
  by (simp_all add: control_message_def)

section \<open>Receiving what was sent\<close>

text \<open>A frame that carries a packet, as \<open>NIC::send\<close> builds it.\<close>

definition packet_frame :: "address \<Rightarrow> address \<Rightarrow> u16 \<Rightarrow> bytes \<Rightarrow> frame" where
  "packet_frame d s et data =
     \<lparr>dst = d, src = s, proto = et, fdata = data, fsize = of_nat (length data)\<rparr>"

definition message_capsule :: "endpoint \<Rightarrow> endpoint \<Rightarrow> channel_origin \<Rightarrow> message \<Rightarrow> capsule" where
  "message_capsule frm to origin m = (let payload = bytes_of_string (build_message m) in
     \<lparr>cap_from = frm, cap_to = to, cap_length = of_nat (length payload), cap_origin = origin,
      cap_payload = payload\<rparr>)"

definition message_frame :: "u16 \<Rightarrow> u16 \<Rightarrow> endpoint \<Rightarrow> endpoint \<Rightarrow> message \<Rightarrow> frame" where
  "message_frame et len frm to m = packet_frame (mac to) (mac frm) et
     (packet_header (port frm) (port to) len @ bytes_of_string (build_message m))"

lemma un_le16_header [simp]:
  "un_le16 (packet_header a b c @ xs) = a"
  "un_le16 (drop 2 (packet_header a b c) @ xs) = b"
  "drop 6 (packet_header a b c @ xs) = xs"
  by (simp_all add: packet_header_def codec_simps)

lemma length_build_message: "0 < length (build_message m)"
  by (simp add: build_message_def)

lemma Endpoint_collapse [simp]: "Endpoint (mac e) (port e) = e"
  by (simp add: Endpoint_def)

lemma update_message:
  assumes "length (build_message m) \<le> MTU"
  shows "update p w (etherType p) (Some (message_frame et len frm to m)) origin =
    notify_by_port p w (message_capsule frm to origin m)"
proof -
  let ?s = "bytes_of_string (build_message m)"
  have "unat (of_nat (6 + length ?s) :: u32) = 6 + length ?s"
    using assms by (intro unat_small) (simp add: MAX_DATA_def)
  then have "unat (fsize (message_frame et len frm to m)) = 6 + length ?s"
    by (simp add: message_frame_def packet_frame_def)
  moreover have "fdata (message_frame et len frm to m) = packet_header (port frm) (port to) len @ ?s"
    by (simp add: message_frame_def packet_frame_def)
  ultimately show ?thesis
    using length_build_message [of m]
    by (simp add: update_def Let_def message_capsule_def message_frame_def packet_frame_def)
qed

lemma notify_message:
  assumes "wf_message m"
  shows "notify_by_port p w (message_capsule frm to origin m) =
    (if control m \<noteq> NONE \<and> msgac m \<noteq> generate_mac (body m) then Inr (p, w, [])
     else res_bind (handle_control p w (message_capsule frm to origin m)
              (m\<lparr>body := clean_body (body m)\<rparr>))
       (\<lambda>(go_on, p1, w1, ups). Inr (p1, w1, ups @
         (if go_on then concat (map (forward_one p1 (message_capsule frm to origin m)
            (m\<lparr>body := clean_body (body m)\<rparr>)) (portObservers p1)) else []))))"
proof -
  have "cap_payload (message_capsule frm to origin m) = bytes_of_string (build_message m)"
    by (simp add: message_capsule_def Let_def)
  moreover have "parse_message (bytes_of_string (build_message m)) = Inr m"
    by (rule parse_build_string [OF assms]) simp
  ultimately show ?thesis
    by (simp add: notify_by_port_def Let_def verify_msgac_def eq_commute [of "generate_mac _"])
qed

section \<open>Group table\<close>

lemma map_of_group_at [simp]:
  "map_of (group_at gid f gs) =
     (map_of gs)(gid \<mapsto> f (case map_of gs gid of Some g \<Rightarrow> g | None \<Rightarrow> new_group_info))"
  by (induction gs) (auto simp: fun_eq_iff)

lemma fst_group_at [simp]: "fst ` set (group_at gid f gs) = insert gid (fst ` set gs)"
  by (induction gid f gs rule: group_at.induct) (auto simp: image_iff)

lemma distinct_group_at [simp]:
  "distinct (map fst (group_at gid f gs)) \<longleftrightarrow> distinct (map fst gs)"
proof (induction gs)
  case (Cons x gs)
  have "set (map fst (group_at gid f gs)) = insert gid (set (map fst gs))"
    using fst_group_at [of gid f gs] by (simp only: set_map)
  with Cons show ?case by (cases x) auto
qed simp

lemma group_at_all:
  assumes "\<forall>(k, g) \<in> set gs. P g" and "P new_group_info" and "\<And>g. P g \<Longrightarrow> P (f g)"
  shows "\<forall>(k, g) \<in> set (group_at gid f gs). P g"
  using assms by (induction gid f gs rule: group_at.induct) (auto split: if_splits)

definition wf_groups :: "group_table \<Rightarrow> bool" where
  "wf_groups gs \<longleftrightarrow> distinct (map fst gs) \<and> (\<forall>(k, g) \<in> set gs. finite (members g))"

lemma wf_groups_group_at:
  "wf_groups gs \<Longrightarrow> (\<And>g. finite (members g) \<Longrightarrow> finite (members (f g))) \<Longrightarrow> wf_groups (group_at gid f gs)"
  using group_at_all [of gs "\<lambda>g. finite (members g)" f gid]
  by (simp add: wf_groups_def new_group_info_def)

lemma wf_groups_ops [simp]:
  assumes "wf_groups gs"
  shows "wf_groups (group_at gid id gs)" "wf_groups (group_at gid (set_gid x) gs)"
    "wf_groups (group_at gid (add_member x) gs)" "wf_groups (group_at gid (del_member x) gs)"
    "wf_groups (group_at gid (\<lambda>g. add_member x (set_gid y g)) gs)"
    "wf_groups (map (\<lambda>(k, g). (k, del_member x g)) gs)"
  using assms
  by (simp_all add: wf_groups_group_at set_gid_def add_member_def del_member_def)
    (auto simp: wf_groups_def del_member_def comp_def case_prod_beta)

lemma wf_groups_moves [simp]:
  assumes "wf_groups gs"
  shows "wf_groups (apply_move_request gs vm o' n)" "wf_groups (apply_move_notify gs vm o' n)"
  using assms by (simp_all add: apply_move_request_def apply_move_notify_def Let_def)

section \<open>Invariant of the protocol object\<close>

definition wf_protocol :: "protocol \<Rightarrow> bool" where
  "wf_protocol p \<longleftrightarrow> wf_groups (groups p) \<and> finite (sync_ready_nodes p) \<and>
     wf_clock_syncer (clock_sync p)"

text \<open>What no received packet can change, and the two flags that only ever get set.\<close>

definition same_config :: "protocol \<Rightarrow> protocol \<Rightarrow> bool" where
  "same_config p p' \<longleftrightarrow> p_nic p' = p_nic p \<and> etherType p' = etherType p \<and>
     group_order p' = group_order p \<and> sync_total_vms p' = sync_total_vms p \<and>
     control_local p' = control_local p \<and> sync_done_callback p' = sync_done_callback p \<and>
     is_master p' = is_master p \<and> portObservers p' = portObservers p \<and>
     probabilistic_ptp_timeout p' = probabilistic_ptp_timeout p \<and>
     (sync_go_sent p \<longrightarrow> sync_go_sent p') \<and> (sync_go_received p \<longrightarrow> sync_go_received p')"

lemma same_config_refl [simp]: "same_config p p"
  by (simp add: same_config_def)

lemma same_config_trans: "same_config p q \<Longrightarrow> same_config q r \<Longrightarrow> same_config p r"
  by (simp add: same_config_def)

lemma same_config_groups [simp]:
  "same_config p (p\<lparr>groups := g\<rparr>)" "same_config p (p\<lparr>current_group_id := i, groups := g\<rparr>)"
  "wf_protocol p \<Longrightarrow> wf_groups g \<Longrightarrow> wf_protocol (p\<lparr>groups := g\<rparr>)"
  "wf_protocol p \<Longrightarrow> wf_groups g \<Longrightarrow> wf_protocol (p\<lparr>current_group_id := i, groups := g\<rparr>)"
  by (simp_all add: same_config_def wf_protocol_def)

lemma wf_protocol_groups [simp]: "wf_protocol p \<Longrightarrow> wf_groups (groups p)"
  by (simp add: wf_protocol_def)

text \<open>The step every handler satisfies.\<close>

definition good_step :: "protocol \<Rightarrow> protocol \<Rightarrow> bool" where
  "good_step p p' \<longleftrightarrow> same_config p p' \<and> (wf_protocol p \<longrightarrow> wf_protocol p')"

lemma good_step_refl [simp]: "good_step p p"
  by (simp add: good_step_def)

lemma good_step_trans: "good_step p q \<Longrightarrow> good_step q r \<Longrightarrow> good_step p r"
  by (auto simp: good_step_def intro: same_config_trans)

lemma good_step_broadcast:
  "broadcast_group_info p w gid = Inr (p', w') \<Longrightarrow> good_step p p'"
  by (auto simp: broadcast_group_info_def Let_def res_bind_Inr_iff good_step_def)

lemma good_step_set_current_group:
  assumes "set_current_group p w gid = Inr (p', w')"
  shows "good_step p p'"
proof -
  let ?p1 = "p\<lparr>current_group_id := gid, groups := group_at gid
    (\<lambda>g. if 0 \<le> my_vm p then add_member (my_vm p) (set_gid gid g) else set_gid gid g) (groups p)\<rparr>"
  have "good_step p ?p1"
    by (cases "0 \<le> my_vm p") (simp_all add: good_step_def)
  moreover have "good_step ?p1 p'"
    using assms
    by (auto simp: set_current_group_def Let_def res_bind_Inr_iff
        dest: good_step_broadcast split: if_splits)
  ultimately show ?thesis by (rule good_step_trans)
qed

lemma good_step_handlers:
  "handle_ready p w c m = Inr (g, p', w', ups) \<Longrightarrow> good_step p p'"
  "handle_go p w m = Inr (g, p', w', ups) \<Longrightarrow> good_step p p'"
  "handle_sync_req p w c m = Inr (g, p', w', ups) \<Longrightarrow> good_step p p'"
  "handle_sync_resp p w c m = Inr (g, p', w', ups) \<Longrightarrow> good_step p p'"
  "handle_delay_req p w c m = Inr (g, p', w', ups) \<Longrightarrow> good_step p p'"
  "handle_assign p w m = Inr (g, p', w', ups) \<Longrightarrow> good_step p p'"
  "handle_register p w m = Inr (g, p', w', ups) \<Longrightarrow> good_step p p'"
  "handle_move_notify p w m = Inr (g, p', w', ups) \<Longrightarrow> good_step p p'"
  subgoal by (auto simp: handle_ready_def Let_def res_bind_Inr_iff good_step_def same_config_def
        wf_protocol_def split: if_splits)
  subgoal by (auto simp: handle_go_def good_step_def same_config_def wf_protocol_def split: if_splits)
  subgoal by (auto simp: handle_sync_req_def Let_def res_bind_Inr_iff split: if_splits)
  subgoal by (auto simp: handle_sync_resp_def Let_def res_bind_Inr_iff split: if_splits)
  subgoal by (auto simp: handle_delay_req_def res_bind_Inr_iff Let_def split: if_splits option.splits)
  subgoal by (auto simp: handle_assign_def res_bind_Inr_iff dest: good_step_set_current_group
        split: sum.splits)
  subgoal by (auto simp: handle_register_def register_vm_in_group_def Let_def res_bind_Inr_iff
        good_step_def split: if_splits)
  subgoal by (auto simp: handle_move_notify_def Let_def res_bind_Inr_iff good_step_def
        split: if_splits option.splits)
  done

lemma wf_addPtpSample: "wf_clock_syncer c \<Longrightarrow> wf_clock_syncer (addPtpSample c x y)"
  by (simp add: addPtpSample_def addOffsetMeasurement_wf wf_alg_update)

lemma good_step_delay_resp:
  "handle_delay_resp p w m = Inr (g, p', w', ups) \<Longrightarrow> good_step p p'"
  by (auto simp: handle_delay_resp_def good_step_def same_config_def wf_protocol_def set_running_ptp_def
      wf_addPtpSample Let_def case_prod_beta split: if_splits)

lemma good_step_move_request:
  assumes "handle_move_request p w m = Inr (g, p', w', ups)"
  shows "good_step p p'"
  using assms
  by (auto simp: handle_move_request_def set_group_for_vm_def Let_def res_bind_Inr_iff good_step_def
      split: if_splits option.splits)

lemma good_step_handle_control:
  "handle_control p w c m = Inr (g, p', w', ups) \<Longrightarrow> good_step p p'"
  by (cases "control m")
    (auto simp: handle_control_def dest: good_step_handlers good_step_delay_resp good_step_move_request)

lemma good_step_notify_by_port:
  "notify_by_port p w c = Inr (p', w', ups) \<Longrightarrow> good_step p p'"
  by (auto simp: notify_by_port_def Let_def res_bind_Inr_iff dest: good_step_handle_control
      split: if_splits)

lemma good_step_update: "update p w n f o' = Inr (p', w', ups) \<Longrightarrow> good_step p p'"
  by (auto simp: update_def Let_def dest: good_step_notify_by_port split: if_splits option.splits)

section \<open>Sample nodes\<close>

text \<open>Cards, nodes and worlds on which the theorems are tried out.\<close>

definition sample_mac :: "u8 \<Rightarrow> address" where
  "sample_mac b = Address 82 84 0 18 52 b"

definition sample_nic :: "u8 \<Rightarrow> nic" where
  "sample_nic b = new_nic (Some \<lparr>sock = 3, ifindex = 2, mac_bytes = addr (sample_mac b),
     eng_mac = sample_mac b, running = True\<rparr>) (sample_mac b)"

definition sample_node :: "u8 \<Rightarrow> protocol" where
  "sample_node b = (new_protocol (sample_nic b) 0x123 id)\<lparr>control_local := Endpoint (sample_mac b) ANY_PORT\<rparr>"

definition sample_world :: world where
  "sample_world = idle_world (\<lambda>n. \<lparr>tv_sec = int n, tv_usec = 0\<rparr>)"

lemma sample_node_simps [simp]:
  "etherType (sample_node b) = 0x123" "current_group_id (sample_node b) = 0"
  "group_order (sample_node b) = id" "groups (sample_node b) = []"
  "is_master (sample_node b) = False" "p_nic (sample_node b) = sample_nic b"
  "control_local (sample_node b) = Endpoint (sample_mac b) ANY_PORT"
  "sync_go_sent (sample_node b) = False" "sync_go_received (sample_node b) = False"
  "sync_ready_nodes (sample_node b) = {}" "portObservers (sample_node b) = []"
  "clock_sync (sample_node b) = new_clock_syncer"
  by (simp_all add: sample_node_def new_protocol_def)

section \<open>Delivery of data\<close>

lemma message_capsule_simps [simp]:
  "cap_from (message_capsule frm to origin m) = frm"
  "cap_to (message_capsule frm to origin m) = to"
  "cap_origin (message_capsule frm to origin m) = origin"
  "cap_payload (message_capsule frm to origin m) = bytes_of_string (build_message m)"
  "cap_length (message_capsule frm to origin m) = of_nat (length (build_message m))"
  by (simp_all add: message_capsule_def Let_def)

text \<open>The observers of a port, in the order in which they were attached.\<close>

definition observers_of :: "protocol \<Rightarrow> u16 \<Rightarrow> port_observer list" where
  "observers_of p dp =
     filter (\<lambda>ob. po_port ob = dp \<or> po_port ob = ANY_PORT) (List.map_filter id (portObservers p))"

lemma forward_data:
  assumes "control m = NONE" and "length (build_message m') \<le> MTU"
  shows "concat (map (forward_one p (message_capsule frm to origin m') m) obs) =
    (if uint (group_id m) = current_group_id p
     then map (\<lambda>ob. On_packet (po_id ob) frm to (bytes_of_string (build_message m')) origin)
       (filter (\<lambda>ob. po_port ob = port to \<or> po_port ob = ANY_PORT) (List.map_filter id obs))
     else [])"
proof -
  have "unat (of_nat (length (build_message m')) :: u16) = length (build_message m')"
    using assms(2) by (simp add: unat_of_nat)
  moreover have "uint (group_id m) \<noteq> -1"
    using uint_nonnegative [of "group_id m"] by linarith
  ultimately show ?thesis
    using assms(1)
    by (induction obs) (simp_all add: forward_one_def List.map_filter_def split: option.splits)
qed

lemma update_data:
  assumes "wf_message m" and "control m = NONE" and "length (build_message m) \<le> MTU"
  shows "update p w (etherType p) (Some (message_frame et len frm to m)) origin =
    Inr (p, w,
      if uint (group_id m) = current_group_id p
      then map (\<lambda>ob. On_packet (po_id ob) frm to (bytes_of_string (build_message m)) origin)
        (observers_of p (port to))
      else [])"
  using forward_data [of "m\<lparr>body := clean_body (body m)\<rparr>" m p frm to origin "portObservers p"] assms
  by (simp add: update_message notify_message handle_control_def observers_of_def)

text \<open>C4: delivery and isolation of data. A data message that arrives is handed, byte for byte and
  with the endpoints it was sent with, to exactly the observers of its destination port and to the
  wildcard observers, in the order of attachment, if it belongs to the receiver's group; a message
  of any other group reaches nobody. Neither the state nor the world changes, and the length field
  of the packet header has no influence.\<close>

theorem data_delivery:
  assumes "wf_message m" and "control m = NONE" and "length (build_message m) \<le> MTU"
  shows "update p w (etherType p) (Some (message_frame et len frm to m)) origin =
    Inr (p, w,
      if uint (group_id m) = current_group_id p
      then map (\<lambda>ob. On_packet (po_id ob) frm to (bytes_of_string (build_message m)) origin)
        (observers_of p (port to))
      else [])"
  by (rule update_data [OF assms])

theorem data_delivery_witness:
  "update (attach_port (sample_node 1) (Some \<lparr>po_id = 7, po_port = 102, po_origin = channel_origin.Ethernet\<rparr>))
      sample_world 0x123
      (Some (message_frame 0x123 0 (Endpoint (sample_mac 2) 101) (Endpoint (sample_mac 1) 102)
        (new_message\<lparr>body := ''brake!''\<rparr>))) channel_origin.Ethernet =
    Inr (attach_port (sample_node 1) (Some \<lparr>po_id = 7, po_port = 102, po_origin = channel_origin.Ethernet\<rparr>),
      sample_world,
      [On_packet 7 (Endpoint (sample_mac 2) 101) (Endpoint (sample_mac 1) 102)
        (bytes_of_string (build_message (new_message\<lparr>body := ''brake!''\<rparr>))) channel_origin.Ethernet])"
proof -
  let ?m = "new_message\<lparr>body := ''brake!''\<rparr>"
  have "length (build_message ?m) \<le> MTU"
    using length_build_message_le [of ?m] by simp
  moreover have "control ?m = NONE" "group_id ?m = 0" by (simp_all add: new_message_def)
  ultimately show ?thesis
    using data_delivery [of ?m "attach_port (sample_node 1) (Some \<lparr>po_id = 7, po_port = 102,
        po_origin = channel_origin.Ethernet\<rparr>)" sample_world "0x123" 0 "Endpoint (sample_mac 2) 101"
        "Endpoint (sample_mac 1) 102" channel_origin.Ethernet]
    by (simp add: attach_port_def attach_def observers_of_def Endpoint_def List.map_filter_def)
qed

section \<open>Authentication of control messages\<close>

text \<open>C23: a control message whose code does not match its body is ignored altogether: it changes
  nothing, sends nothing and reaches no observer, whatever its type, origin and sender.\<close>

theorem unauthentic_control_ignored:
  assumes "wf_message m" and "control m \<noteq> NONE" and "msgac m \<noteq> generate_mac (body m)"
    and "length (build_message m) \<le> MTU"
  shows "update p w (etherType p) (Some (message_frame et len frm to m)) origin = Inr (p, w, [])"
  using assms by (simp add: update_message notify_message)

theorem unauthentic_control_ignored_witness:
  "update (sample_node 1) sample_world 0x123 (Some (message_frame 0x123 0 (Endpoint (sample_mac 2) 1)
      (Endpoint BROADCAST 1) (new_message\<lparr>control := GO, msgac := 1\<rparr>))) channel_origin.Ethernet =
    Inr (sample_node 1, sample_world, [])"
proof -
  let ?m = "new_message\<lparr>control := GO, msgac := 1\<rparr>"
  have wf: "wf_message ?m" and "control ?m \<noteq> NONE" "msgac ?m \<noteq> generate_mac (body ?m)"
    by (simp_all add: wf_message_def new_message_def is_i32_def control_of_int_def generate_mac_def c_str_def)
  moreover have "length (build_message ?m) \<le> MTU"
    using length_build_message_le [OF wf] by (simp add: new_message_def)
  ultimately show ?thesis
    using unauthentic_control_ignored [of ?m "sample_node 1"] by simp
qed

section \<open>Failures\<close>

lemma send_no_error: "send p w frm to b \<noteq> Inl e"
  using send_total [of p w frm to b] by auto

lemma send_control_no_error: "send_control p w frm to ct ac b \<noteq> Inl e"
  using send_control_total [of p w frm to ct ac b] by auto

lemma endpoint_from_vm_total: "0 \<le> vm \<Longrightarrow> vm \<le> 255 \<Longrightarrow> endpoint_from_vm vm q \<noteq> Inl e"
  by (simp add: endpoint_from_vm_def)

lemma coordinator_range:
  "coordinator_or_none gid \<le> 30" "-1 \<le> coordinator_or_none gid"
  "c \<in> set GROUP_COORDINATORS \<Longrightarrow> 0 \<le> c \<and> c \<le> 255"
proof -
  have "nat gid \<in> {0, 1, 2, 3}" if "0 \<le> gid" "gid < 4" using that by auto
  then show "coordinator_or_none gid \<le> 30" "-1 \<le> coordinator_or_none gid"
    by (auto simp: coordinator_or_none_def GROUP_COORDINATORS_def)
  show "c \<in> set GROUP_COORDINATORS \<Longrightarrow> 0 \<le> c \<and> c \<le> 255"
    by (auto simp: GROUP_COORDINATORS_def)
qed

lemma uint_u8_le: "uint (x :: u8) \<le> 255"
  using uint_lt2p [of x] by simp

lemmas never_fails = send_no_error send_control_no_error endpoint_from_vm_total

lemma broadcast_group_info_no_error: "broadcast_group_info p w gid \<noteq> Inl e"
  by (auto simp: broadcast_group_info_def Let_def res_bind_Inl_iff send_no_error)

lemma set_current_group_no_error: "set_current_group p w gid \<noteq> Inl e"
  using coordinator_range(1) [of gid]
  by (auto simp: set_current_group_def Let_def res_bind_Inl_iff never_fails
      broadcast_group_info_no_error)

lemma notify_coordinators_no_error:
  "set cs \<subseteq> set GROUP_COORDINATORS \<Longrightarrow> notify_coordinators p w cs vm o' n \<noteq> Inl e"
  by (induction cs arbitrary: w) (auto simp: res_bind_Inl_iff never_fails dest: coordinator_range(3))

lemma stoi_error: "stoi s = Inl e \<Longrightarrow> e \<in> {Invalid_argument, Out_of_range}"
  using conversion_errors(1) by auto

text \<open>Only three handlers can fail.\<close>

lemma handle_control_errors:
  assumes "handle_control p w c m = Inl e"
  shows "(control m = GROUP_MOVE_REQUEST \<and> stoi (body m) = Inl e) \<or>
    (control m \<in> {GROUP_MOVE_NOTIFY, GROUP_REGISTER} \<and> e = Out_of_bounds)"
proof -
  have "handle_ready p w c m \<noteq> Inl e" "handle_go p w m \<noteq> Inl e" "handle_sync_req p w c m \<noteq> Inl e"
    "handle_sync_resp p w c m \<noteq> Inl e" "handle_delay_req p w c m \<noteq> Inl e"
    "handle_delay_resp p w m \<noteq> Inl e" "handle_assign p w m \<noteq> Inl e"
    by (auto simp: handle_ready_def handle_go_def handle_sync_req_def handle_sync_resp_def
        handle_delay_req_def handle_delay_resp_def handle_assign_def Let_def res_bind_Inl_iff
        never_fails set_current_group_no_error case_prod_beta split: if_splits option.splits sum.splits)
  moreover have "handle_move_request p w m = Inl e \<Longrightarrow> stoi (body m) = Inl e"
    by (auto simp: handle_move_request_def Let_def res_bind_Inl_iff never_fails uint_u8_le
        notify_coordinators_no_error split: if_splits option.splits)
  moreover have "coordinator_for_group g = Inl e \<Longrightarrow> e = Out_of_bounds" for g
    by (simp add: coordinator_for_group_def split: if_splits)
  then have "handle_move_notify p w m = Inl e \<Longrightarrow> e = Out_of_bounds"
    "handle_register p w m = Inl e \<Longrightarrow> e = Out_of_bounds"
    by (auto simp: handle_move_notify_def handle_register_def Let_def res_bind_Inl_iff never_fails
        uint_u8_le split: if_splits option.splits)
  ultimately show ?thesis
    using assms by (cases "control m") (auto simp: handle_control_def)
qed

text \<open>C22: the only ways in which a received packet can raise an exception: a header field that is
  not a number or does not fit, an authentic GROUP_MOVE_REQUEST whose body is not a number, and an
  index outside the table of coordinators on an authentic GROUP_MOVE_NOTIFY or GROUP_REGISTER.
  Data messages, the start barrier, clock synchronisation and GROUP_ASSIGN never fail.\<close>

theorem update_failures:
  assumes "update p w pnum (Some f) origin = Inl e"
  shows "let payload = take (unat (fsize f) - header_bytes) (drop header_bytes (fdata f)) in
    (case parse_message payload of
       Inl e' \<Rightarrow> e = e' \<and> e \<in> {Invalid_argument, Out_of_range}
     | Inr m \<Rightarrow> msgac m = generate_mac (body m) \<and>
         (control m = GROUP_MOVE_REQUEST \<and> stoi (clean_body (body m)) = Inl e \<or>
          control m \<in> {GROUP_MOVE_NOTIFY, GROUP_REGISTER} \<and> e = Out_of_bounds))"
proof -
  let ?n = "unat (fsize f) - header_bytes"
  let ?pl = "take ?n (drop header_bytes (fdata f))"
  from assms obtain c where c: "notify_by_port p w c = Inl e" "cap_payload c = ?pl"
    by (auto simp: update_def Let_def split: if_splits)
  show ?thesis
  proof (cases "parse_message ?pl")
    case (Inl e')
    moreover have "e' \<in> {Invalid_argument, Out_of_range}"
      using Inl parse_message_errors by auto
    ultimately show ?thesis
      using c by (simp add: notify_by_port_def)
  next
    case (Inr m)
    with c show ?thesis
      by (auto simp: notify_by_port_def Let_def verify_msgac_def res_bind_Inl_iff
        dest!: handle_control_errors split: if_splits)
  qed
qed

theorem update_failures_witness:
  "let f = packet_frame BROADCAST (sample_mac 2) 0x123 (packet_header 1 2 0 @ bytes_of_string ''GROUP=x'') in
   update (sample_node 1) sample_world 0x123 (Some f) channel_origin.Ethernet = Inl Invalid_argument \<and>
   parse_message (take (unat (fsize f) - header_bytes) (drop header_bytes (fdata f))) = Inl Invalid_argument"
proof -
  let ?f = "packet_frame BROADCAST (sample_mac 2) 0x123 (packet_header 1 2 0 @ bytes_of_string ''GROUP=x'')"
  have pl: "take (unat (fsize ?f) - header_bytes) (drop header_bytes (fdata ?f)) = bytes_of_string ''GROUP=x''"
    and sz: "unat (fsize ?f) = 13"
    by (simp_all add: packet_frame_def)
  have pm: "parse_message (bytes_of_string ''GROUP=x'') = Inl Invalid_argument"
    by code_simp
  have "update (sample_node 1) sample_world 0x123 (Some ?f) channel_origin.Ethernet = Inl Invalid_argument"
    using pl sz pm by (simp add: update_def Let_def notify_by_port_def)
  from update_failures [OF this] this pl pm show ?thesis by (simp add: Let_def)
qed

end
