(* ===== verification/Protocol_Sync.thy ===== *)
theory Protocol_Sync
  imports Protocol
begin

text \<open>
  The synchronisation services of \<open>src/src/protocol.h\<close>: the start barrier (READY/GO) and the
  clock exchange (SYNC_REQ, SYNC_RESP, DELAY_REQ, DELAY_RESP), followed through
  \<open>Protocol::update\<close>, that is, from the bytes of a frame to the new state.
\<close>

text \<open>A sequence of notifications, as the receiving threads make them one after the other.\<close>

fun updates :: "protocol \<Rightarrow> world \<Rightarrow> (u16 \<times> frame option \<times> channel_origin) list \<Rightarrow>
    (protocol \<times> world \<times> upcall list) res" where
  "updates p w [] = Inr (p, w, [])"
| "updates p w ((n, f, origin) # fs) =
     res_bind (update p w n f origin) (\<lambda>(p1, w1, u1).
     res_bind (updates p1 w1 fs) (\<lambda>(p2, w2, u2). Inr (p2, w2, u1 @ u2)))"

section \<open>Authentic control messages\<close>

definition authentic :: "message \<Rightarrow> bool" where
  "authentic m \<longleftrightarrow> wf_message m \<and> control m \<noteq> NONE \<and> msgac m = generate_mac (body m) \<and>
     length (build_message m) \<le> MTU"

lemma update_control:
  assumes "authentic m"
    and "handle_control p w (message_capsule frm to origin m) (m\<lparr>body := clean_body (body m)\<rparr>) =
      Inr (go_on, p', w', ups)"
  shows "\<exists>ups'. update p w (etherType p) (Some (message_frame et len frm to m)) origin =
      Inr (p', w', ups @ ups') \<and> Sync_done \<notin> set ups'"
proof -
  have "Sync_done \<notin> set (forward_one q c x po)" for q c x po
    by (auto simp: forward_one_def Let_def split: option.splits)
  with assms show ?thesis
    by (auto simp: authentic_def update_message notify_message)
qed

lemma send_control_cong:
  assumes "p_nic p' = p_nic p" "etherType p' = etherType p" "current_group_id p' = current_group_id p"
  shows "send_control p' w frm to ct ac b = send_control p w frm to ct ac b"
  using assms by (simp add: send_control_def send_def Let_def)

lemma clean_body_id:
  assumes "CHR 0x00 \<notin> set s" and "s \<noteq> []" and "\<not> is_space (hd s)" and "\<not> is_space (last s)"
  shows "clean_body s = s"
proof -
  have "dropWhile is_space s = s" using assms(2,3) by (cases s) auto
  moreover have "dropWhile is_space (rev s) = rev s"
    using assms(2,4) by (cases s rule: rev_cases) auto
  ultimately show ?thesis
    using assms(1) by (simp add: clean_body_def ltrim_def rtrim_def)
qed

section \<open>Start barrier\<close>

definition is_ready_frame :: "protocol \<Rightarrow> frame \<Rightarrow> bool" where
  "is_ready_frame p f \<longleftrightarrow> (\<exists>len frm to m. f = message_frame (etherType p) len frm to m \<and>
     authentic m \<and> control m = READY \<and> uint (group_id m) = current_group_id p)"

lemma update_ready:
  assumes "is_ready_frame p f" and "0 < sync_total_vms p"
  shows "\<exists>p' w' ups. update p w (etherType p) (Some f) origin = Inr (p', w', ups) \<and>
    sync_ready_nodes p' = insert (address_str (src f)) (sync_ready_nodes p) \<and>
    current_group_id p' = current_group_id p \<and> same_config p p' \<and>
    (if \<not> sync_go_sent p \<and> int (card (sync_ready_nodes p')) = sync_total_vms p
     then sync_go_sent p' \<and> (\<exists>r. send_control p w (control_local p) (to_all p) GO 0 [] = Inr (r, w'))
     else w' = w \<and> sync_go_sent p' = sync_go_sent p)"
proof -
  from assms(1) obtain len frm to m where f: "f = message_frame (etherType p) len frm to m"
    and m: "authentic m" "control m = READY" "uint (group_id m) = current_group_id p"
    by (auto simp: is_ready_frame_def)
  let ?c = "message_capsule frm to origin m" and ?m = "m\<lparr>body := clean_body (body m)\<rparr>"
  let ?p1 = "p\<lparr>sync_ready_nodes := insert (address_str (mac frm)) (sync_ready_nodes p)\<rparr>"
  have hc: "handle_control p w ?c ?m = handle_ready p w ?c ?m"
    using m by (simp add: handle_control_def)
  have src: "src f = mac frm" by (simp add: f message_frame_def packet_frame_def)
  obtain r w1 where send: "send_control p w (control_local p) (to_all p) GO 0 [] = Inr (r, w1)"
    using send_control_total by blast
  have send': "send_control ?p1 w (control_local p) (to_all ?p1) GO 0 [] = Inr (r, w1)"
    using send send_control_cong [of ?p1 p] by (simp add: to_all_def)
  show ?thesis
  proof (cases "\<not> sync_go_sent p \<and> int (card (sync_ready_nodes ?p1)) = sync_total_vms p")
    case True
    then have "handle_control p w ?c ?m = Inr (True, ?p1\<lparr>sync_go_sent := True\<rparr>, w1, [])"
      using m assms(2) send' by (simp add: hc handle_ready_def is_message_internal_def get_current_group_def)
    from update_control [OF m(1) this] obtain ups where
      "update p w (etherType p) (Some f) origin = Inr (?p1\<lparr>sync_go_sent := True\<rparr>, w1, ups)"
      unfolding f by auto
    with True send src show ?thesis
      by (intro exI [of _ "?p1\<lparr>sync_go_sent := True\<rparr>"] exI [of _ w1] exI [of _ ups])
        (simp add: same_config_def)
  next
    case False
    then have "handle_control p w ?c ?m = Inr (True, ?p1, w, [])"
      using m assms(2) by (auto simp: hc handle_ready_def Let_def is_message_internal_def get_current_group_def)
    from update_control [OF m(1) this] obtain ups where
      "update p w (etherType p) (Some f) origin = Inr (?p1, w, ups)"
      unfolding f by auto
    with False src show ?thesis
      by (intro exI [of _ ?p1] exI [of _ w] exI [of _ ups]) (auto simp: same_config_def)
  qed
qed

abbreviation arrivals :: "protocol \<Rightarrow> channel_origin \<Rightarrow> frame list \<Rightarrow> (u16 \<times> frame option \<times> channel_origin) list" where
  "arrivals p origin \<equiv> map (\<lambda>f. (etherType p, Some f, origin))"

lemma is_ready_frame_cong:
  "same_config p p' \<Longrightarrow> current_group_id p' = current_group_id p \<Longrightarrow>
    is_ready_frame p f \<Longrightarrow> is_ready_frame p' f"
  by (simp add: is_ready_frame_def same_config_def)

lemma ready_after_go:
  assumes "sync_go_sent p" and "0 < sync_total_vms p" and "\<forall>f \<in> set fs. is_ready_frame p f"
  shows "\<exists>p' ups. updates p w (arrivals p origin fs) = Inr (p', w, ups) \<and> sync_go_sent p'"
  using assms
proof (induction fs arbitrary: p)
  case (Cons f fs)
  from update_ready [of p f w origin] Cons.prems obtain p1 u1 where
    u: "update p w (etherType p) (Some f) origin = Inr (p1, w, u1)" and s: "same_config p p1"
      "current_group_id p1 = current_group_id p"
    by auto
  have "\<forall>f \<in> set fs. is_ready_frame p1 f"
    using Cons.prems(3) is_ready_frame_cong [OF s] by simp
  moreover have "sync_go_sent p1" "0 < sync_total_vms p1" and et: "etherType p1 = etherType p"
    using Cons.prems(1,2) s(1) by (simp_all add: same_config_def)
  ultimately obtain p2 u2 where
    "updates p1 w (arrivals p1 origin fs) = Inr (p2, w, u2)" "sync_go_sent p2"
    using Cons.IH [of p1] by blast
  with u show ?case by (simp add: et)
qed simp

text \<open>C5: the start barrier. A node that waits for \<open>n\<close> others and receives any sequence of authentic
  READY messages of its group, repetitions included, sends nothing while fewer than \<open>n\<close> different
  nodes are known to be ready, and as soon as \<open>n\<close> are it has broadcast GO exactly once and
  nothing else.\<close>

theorem start_barrier:
  assumes "0 < sync_total_vms p" and "\<not> sync_go_sent p"
    and "sync_ready_nodes p = address_str ` S" and "finite S" and "int (card S) < sync_total_vms p"
    and "\<forall>f \<in> set fs. is_ready_frame p f"
  shows "\<exists>p' w' ups. updates p w (arrivals p origin fs) = Inr (p', w', ups) \<and>
    (if int (card (S \<union> src ` set fs)) < sync_total_vms p then w' = w \<and> \<not> sync_go_sent p'
     else sync_go_sent p' \<and> (\<exists>r. send_control p w (control_local p) (to_all p) GO 0 [] = Inr (r, w')))"
  using assms
proof (induction fs arbitrary: p S)
  case (Cons f fs)
  let ?S = "insert (src f) S"
  from update_ready [of p f w origin] Cons.prems obtain p1 w1 u1 where
    u: "update p w (etherType p) (Some f) origin = Inr (p1, w1, u1)"
    and r: "sync_ready_nodes p1 = address_str ` ?S"
    and s: "same_config p p1" "current_group_id p1 = current_group_id p"
    and g: "if int (card ?S) = sync_total_vms p
      then sync_go_sent p1 \<and> (\<exists>r. send_control p w (control_local p) (to_all p) GO 0 [] = Inr (r, w1))
      else w1 = w \<and> \<not> sync_go_sent p1"
    using card_image [OF inj_on_subset [OF inj_address_str], of ?S] by auto
  have fs: "\<forall>f \<in> set fs. is_ready_frame p1 f"
    using Cons.prems(6) is_ready_frame_cong [OF s] by simp
  have et: "etherType p1 = etherType p"
    and tot: "sync_total_vms p1 = sync_total_vms p" and cl: "control_local p1 = control_local p"
    using s(1) by (simp_all add: same_config_def)
  have union: "S \<union> src ` set (f # fs) = ?S \<union> src ` set fs" by simp
  have fin: "finite (?S \<union> src ` set fs)" using Cons.prems(4) by simp
  show ?case
  proof (cases "int (card ?S) = sync_total_vms p")
    case True
    with card_mono [OF fin Un_upper1] have "\<not> int (card (?S \<union> src ` set fs)) < sync_total_vms p"
      by linarith
    moreover from True g have "sync_go_sent p1"
      "\<exists>r. send_control p w (control_local p) (to_all p) GO 0 [] = Inr (r, w1)" by simp_all
    moreover from ready_after_go [of p1 fs w1 origin] \<open>sync_go_sent p1\<close> fs obtain p2 u2
      where "updates p1 w1 (arrivals p1 origin fs) = Inr (p2, w1, u2)" "sync_go_sent p2"
      using Cons.prems(1) tot by auto
    ultimately show ?thesis
      using u union by (simp add: et)
  next
    case False
    have "card ?S \<le> Suc (card S)" 
      using Cons.prems(4) by (simp add: card_insert_if)
    with False Cons.prems(5) have "int (card ?S) < sync_total_vms p1" by (simp add: tot)
    moreover have sc: "send_control p1 w (control_local p1) (to_all p1) GO 0 [] =
        send_control p w (control_local p) (to_all p) GO 0 []"
      using s(1) send_control_cong [of p1 p] s(2) by (simp add: cl to_all_def same_config_def)
    moreover from False g have "\<not> sync_go_sent p1" by simp
    ultimately have "\<exists>p2 w2 u2. updates p1 w (arrivals p1 origin fs) = Inr (p2, w2, u2) \<and>
      (if int (card (?S \<union> src ` set fs)) < sync_total_vms p1 then w2 = w \<and> \<not> sync_go_sent p2
       else sync_go_sent p2 \<and>
         (\<exists>r. send_control p1 w (control_local p1) (to_all p1) GO 0 [] = Inr (r, w2)))"
      using Cons.prems(1,4) tot by (intro Cons.IH r fs) simp_all
    then obtain p2 w2 u2 where "updates p1 w (arrivals p1 origin fs) = Inr (p2, w2, u2)"
      "if int (card (?S \<union> src ` set fs)) < sync_total_vms p then w2 = w \<and> \<not> sync_go_sent p2
       else sync_go_sent p2 \<and> (\<exists>r. send_control p w (control_local p) (to_all p) GO 0 [] = Inr (r, w2))"
      unfolding sc tot by blast
    moreover from False g have "w1 = w" by simp
    ultimately show ?thesis
      using u by (intro exI [of _ p2] exI [of _ w2] exI [of _ "u1 @ u2"]) (simp add: et union)
  qed
qed simp

definition sample_ready :: "u8 \<Rightarrow> frame" where
  "sample_ready b = message_frame 0x123 0 (Endpoint (sample_mac b) ANY_PORT) (Endpoint BROADCAST ANY_PORT)
     (new_message\<lparr>control := READY\<rparr>)"

lemma sample_ready_frame:
  "etherType p = 0x123 \<Longrightarrow> current_group_id p = 0 \<Longrightarrow> is_ready_frame p (sample_ready b)"
proof -
  have wf: "wf_message (new_message\<lparr>control := READY\<rparr>)"
    by (simp add: wf_message_def new_message_def is_i32_def control_of_int_def)
  have "authentic (new_message\<lparr>control := READY\<rparr>)"
    using length_build_message_le [OF wf] wf
    by (simp add: authentic_def new_message_def generate_mac_def c_str_def)
  moreover assume "etherType p = 0x123" "current_group_id p = 0"
  ultimately show ?thesis
    unfolding is_ready_frame_def sample_ready_def
    by (intro exI [of _ 0] exI [of _ "Endpoint (sample_mac b) ANY_PORT"] exI [of _ "Endpoint BROADCAST ANY_PORT"]
        exI [of _ "new_message\<lparr>control := READY\<rparr>"]) (simp add: new_message_def)
qed

theorem start_barrier_witness:
  "\<exists>p' w' ups r. updates ((sample_node 0)\<lparr>sync_total_vms := 2\<rparr>) sample_world
      (arrivals (sample_node 0) channel_origin.Ethernet [sample_ready 1, sample_ready 1, sample_ready 2]) =
      Inr (p', w', ups) \<and> sync_go_sent p' \<and>
    send_control ((sample_node 0)\<lparr>sync_total_vms := 2\<rparr>) sample_world
      (control_local (sample_node 0)) (to_all (sample_node 0)) GO 0 [] = Inr (r, w')"
proof -
  let ?p = "(sample_node 0)\<lparr>sync_total_vms := 2\<rparr>"
  have "src (sample_ready b) = sample_mac b" for b
    by (simp add: sample_ready_def message_frame_def packet_frame_def Endpoint_def)
  then have "card ({} \<union> src ` set [sample_ready 1, sample_ready 1, sample_ready 2]) = 2"
    by (simp add: sample_mac_def)
  then show ?thesis
    using start_barrier [of ?p "{}" "[sample_ready 1, sample_ready 1, sample_ready 2]" sample_world
        channel_origin.Ethernet]
    by (auto simp: sample_ready_frame to_all_def)
qed

lemma good_step_updates: "updates p w fs = Inr (p', w', ups) \<Longrightarrow> good_step p p'"
proof (induction fs arbitrary: p w ups)
  case (Cons x fs)
  then obtain p1 w1 u1 u2 where "update p w (fst x) (fst (snd x)) (snd (snd x)) = Inr (p1, w1, u1)"
    and us: "updates p1 w1 fs = Inr (p', w', u2)"
    by (cases x) (auto simp: res_bind_Inr_iff)
  from good_step_trans [OF good_step_update [OF this(1)] Cons.IH [OF us]] show ?case .
qed simp

lemma good_step_received:
  "good_step p p' \<Longrightarrow> sync_go_received p \<Longrightarrow> sync_go_received p'"
  "good_step p p' \<Longrightarrow> sync_done_callback p' = sync_done_callback p"
  by (simp_all add: good_step_def same_config_def)

lemma quiet_handlers:
  "handle_ready p w c m = Inr (g, p', w', ups) \<Longrightarrow> ups = []"
  "handle_sync_req p w c m = Inr (g, p', w', ups) \<Longrightarrow> ups = []"
  "handle_sync_resp p w c m = Inr (g, p', w', ups) \<Longrightarrow> ups = []"
  "handle_delay_req p w c m = Inr (g, p', w', ups) \<Longrightarrow> ups = []"
  "handle_delay_resp p w m = Inr (g, p', w', ups) \<Longrightarrow> ups = []"
  "handle_assign p w m = Inr (g, p', w', ups) \<Longrightarrow> ups = []"
  "handle_register p w m = Inr (g, p', w', ups) \<Longrightarrow> ups = []"
  "handle_move_notify p w m = Inr (g, p', w', ups) \<Longrightarrow> ups = []"
  "handle_move_request p w m = Inr (g, p', w', ups) \<Longrightarrow> ups = []"
  subgoal by (auto simp: handle_ready_def Let_def res_bind_Inr_iff split: if_splits)
  subgoal by (auto simp: handle_sync_req_def Let_def res_bind_Inr_iff split: if_splits)
  subgoal by (auto simp: handle_sync_resp_def Let_def res_bind_Inr_iff split: if_splits)
  subgoal by (auto simp: handle_delay_req_def Let_def res_bind_Inr_iff split: if_splits option.splits)
  subgoal by (auto simp: handle_delay_resp_def Let_def case_prod_beta split: if_splits)
  subgoal by (auto simp: handle_assign_def res_bind_Inr_iff split: sum.splits)
  subgoal by (auto simp: handle_register_def Let_def res_bind_Inr_iff split: if_splits)
  subgoal by (auto simp: handle_move_notify_def Let_def res_bind_Inr_iff split: if_splits option.splits)
  subgoal by (auto simp: handle_move_request_def Let_def res_bind_Inr_iff split: if_splits option.splits)
  done

lemma handle_control_sync_done:
  assumes "handle_control p w c m = Inr (g, p', w', ups)"
  shows "ups = [] \<or> ups = [Sync_done] \<and> sync_done_callback p \<and> \<not> sync_go_received p \<and> sync_go_received p'"
proof (cases "control m = GO")
  case True
  with assms show ?thesis by (auto simp: handle_control_def handle_go_def split: if_splits)
next
  case False
  with assms show ?thesis by (cases "control m") (auto simp: handle_control_def dest: quiet_handlers)
qed

lemma update_sync_done:
  assumes "update p w n f origin = Inr (p', w', ups)"
  shows "count_list ups Sync_done = 0 \<or>
    count_list ups Sync_done = 1 \<and> sync_done_callback p \<and> \<not> sync_go_received p \<and> sync_go_received p'"
proof -
  have fwd: "count_list (concat (map (forward_one q c x) obs)) Sync_done = 0" for q c x obs
    by (induction obs) (auto simp: forward_one_def Let_def split: option.splits)
  from assms consider "ups = []" | c where "notify_by_port p w c = Inr (p', w', ups)"
    by (auto simp: update_def Let_def split: if_splits option.splits)
  then show ?thesis
  proof cases
    case 2
    then show ?thesis
      by (auto simp: notify_by_port_def Let_def res_bind_Inr_iff fwd
          dest!: handle_control_sync_done split: if_splits)
  qed simp
qed

text \<open>C21: the owner is told that the barrier is passed at most once, whatever packets arrive in
  whatever order; it is told only if it asked to be, and never again after the first GO.\<close>

theorem sync_done_once:
  assumes "updates p w fs = Inr (p', w', ups)"
  shows "count_list ups Sync_done \<le> (if sync_done_callback p \<and> \<not> sync_go_received p then 1 else 0) \<and>
    (0 < count_list ups Sync_done \<longrightarrow> sync_go_received p')"
  using assms
proof (induction fs arbitrary: p w ups)
  case (Cons x fs)
  obtain n f origin where x: "x = (n, f, origin)" by (cases x)
  with Cons.prems obtain p1 w1 u1 u2 where u: "update p w n f origin = Inr (p1, w1, u1)"
    and us: "updates p1 w1 fs = Inr (p', w', u2)" and ups: "ups = u1 @ u2"
    by (auto simp: res_bind_Inr_iff)
  from update_sync_done [OF u] Cons.IH [OF us] show ?case
    using good_step_received [OF good_step_update [OF u]] good_step_received(1) [OF good_step_updates [OF us]]
    by (auto simp: ups split: if_splits)
qed simp

theorem sync_done_once_witness:
  "\<exists>p' w' ups. updates ((sample_node 1)\<lparr>sync_total_vms := 2\<rparr>) sample_world
      (arrivals (sample_node 1) channel_origin.Ethernet [sample_ready 1]) = Inr (p', w', ups) \<and>
    count_list ups Sync_done = 0"
proof -
  let ?p = "(sample_node 1)\<lparr>sync_total_vms := 2\<rparr>"
  obtain p' w' ups where u: "update ?p sample_world 0x123 (Some (sample_ready 1)) channel_origin.Ethernet =
      Inr (p', w', ups)"
    using update_ready [of ?p "sample_ready 1" sample_world channel_origin.Ethernet] sample_ready_frame [of ?p 1]
    by auto
  then have us: "updates ?p sample_world (arrivals (sample_node 1) channel_origin.Ethernet [sample_ready 1]) =
      Inr (p', w', ups)" by simp
  from sync_done_once [OF this] us show ?thesis
    by (auto simp: sample_node_def new_protocol_def)
qed

section \<open>Clock exchange\<close>

definition number_char :: "char \<Rightarrow> bool" where
  "number_char c \<longleftrightarrow> is_digit c \<or> c = CHR ''-''"

lemma number_char_show [simp]:
  "c \<in> set (show_int i) \<Longrightarrow> number_char c" "c \<in> set (show_word w) \<Longrightarrow> number_char c"
  by (auto simp: number_char_def show_int_def show_word_def dest: show_nat_digits split: if_splits)

lemma number_char_neq: "number_char c \<Longrightarrow> c \<noteq> CHR 0x00 \<and> \<not> is_space c"
  by (auto simp: number_char_def is_digit_def is_space_def Let_def)

lemma clean_numbers:
  assumes "\<forall>c \<in> set s. number_char c \<or> c = CHR '' ''"
    and "s \<noteq> []" and "number_char (hd s)" and "number_char (last s)"
  shows "clean_body s = s"
  using assms by (intro clean_body_id) (auto dest: number_char_neq)

lemma hd_last_show [simp]:
  "number_char (hd (show_word w))" "number_char (hd (show_int i))"
  "number_char (last (show_word w))" "number_char (last (show_int i))"
  by (simp_all add: number_char_show [OF hd_in_set] number_char_show [OF last_in_set])

lemma scan_lu_show [simp]: "stops_number r \<Longrightarrow> scan_lu (show_word t @ r) = Some (t, r)"
proof -
  have "unat t < 2 ^ 64" using unsigned_less [of t] by simp
  moreover assume "stops_number r"
  ultimately show ?thesis by (simp add: scan_lu_def show_word_def)
qed

lemma scan_lu_space [simp]: "scan_lu (CHR '' '' # s) = scan_lu s"
  by (simp add: scan_lu_def is_space_def)

lemma scan_lu_last [simp]: "scan_lu (show_word t) = Some (t, [])"
  using scan_lu_show [of "[]" t] by simp

lemma scan_three_show [simp]:
  "scan_three_lu (show_word a @ CHR '' '' # show_word b @ CHR '' '' # show_word c) = Some (a, b, c)"
  by (simp add: scan_three_lu_def is_digit_def)

lemma scan_lld_show [simp]: "is_i64 i \<Longrightarrow> stops_number r \<Longrightarrow> scan_lld (show_int i @ r) = Some (i, r)"
  by (auto simp: scan_lld_def signed_val_def is_i64_def)

lemma scan_lld_space [simp]: "scan_lld (CHR '' '' # s) = scan_lld s"
  by (simp add: scan_lld_def is_space_def)

lemma scan_sample_show [simp]:
  "is_i64 a \<Longrightarrow> is_i64 b \<Longrightarrow> scan_sample (show_int a @ CHR '' '' # show_int b) = (a, b)"
  using scan_lld_show [of b "[]"] by (simp add: scan_sample_def is_digit_def)

lemma authentic_control_message:
  assumes "named ct" and "ct \<noteq> NONE" and "ac = generate_mac b" and "length b \<le> 1345"
  shows "authentic (control_message p w frm ct ac b)"
  using assms wf_control_message [of ct p w frm ac b]
    length_build_message_le [of "control_message p w frm ct ac b"]
  by (simp add: authentic_def)

text \<open>The texts of the exchange.\<close>

abbreviation delay_req_text :: "u64 \<Rightarrow> u64 \<Rightarrow> string" where
  "delay_req_text t1 t2 \<equiv> show_word t1 @ '' '' @ show_word t2 @ '' '' @ show_word t2"

abbreviation delay_resp_text :: "u64 \<Rightarrow> u64 \<Rightarrow> u64 \<Rightarrow> string" where
  "delay_resp_text t1 t2 t4 \<equiv> show_int (ptp_offset t1 t2 t2 t4) @ '' '' @ show_int (ptp_rtt t1 t2 t2 t4)"

lemma exchange_text_facts [simp]:
  "length (show_word (t :: u64)) \<le> 1345"
  "length (delay_req_text t1 t2) \<le> 1345"
  "clean_body (show_word t) = show_word t"
  "clean_body (delay_req_text t1 t2) = delay_req_text t1 t2"
  "clean_body (delay_resp_text t1 t2 t4) = delay_resp_text t1 t2 t4"
  using length_show_word(3) [of t] length_show_word(3) [of t1] length_show_word(3) [of t2]
  by (auto intro!: clean_numbers)

definition in_group_of :: "protocol \<Rightarrow> message \<Rightarrow> bool" where
  "in_group_of p m \<longleftrightarrow> uint (group_id m) = current_group_id p"

lemma internal_iff [simp]: "is_message_internal p m = in_group_of p m"
  by (simp add: is_message_internal_def in_group_of_def get_current_group_def)

lemma in_group_of_body [simp]: "in_group_of p (m\<lparr>body := b\<rparr>) = in_group_of p m"
  by (simp add: in_group_of_def)

lemma update_sync_req:
  assumes "authentic m" and "control m = SYNC_REQ" and "in_group_of p m" and "is_master p"
  shows "\<exists>w' r ups. update p w (etherType p) (Some (message_frame et len frm to m)) origin = Inr (p, w', ups) \<and>
    send_control p (tick w) (control_local p) frm SYNC_RESP
      (generate_mac (show_word (next_time w))) (show_word (next_time w)) = Inr (r, w')"
proof -
  obtain r w' where send: "send_control p (tick w) (control_local p) frm SYNC_RESP
      (generate_mac (show_word (next_time w))) (show_word (next_time w)) = Inr (r, w')"
    using send_control_total by blast
  then have "handle_control p w (message_capsule frm to origin m) (m\<lparr>body := clean_body (body m)\<rparr>) =
      Inr (True, p, w', [])"
    using assms(2-4) by (simp add: handle_control_def handle_sync_req_def)
  from update_control [OF assms(1) this] send show ?thesis by auto
qed

lemma update_sync_resp:
  assumes "authentic m" and "control m = SYNC_RESP" and "in_group_of p m" and "\<not> is_master p"
    and "body m = show_word t1"
  shows "\<exists>w' r ups. update p w (etherType p) (Some (message_frame et len frm to m)) origin = Inr (p, w', ups) \<and>
    send_control p (tick w) (control_local p) frm DELAY_REQ
      (generate_mac (delay_req_text t1 (next_time w))) (delay_req_text t1 (next_time w)) = Inr (r, w')"
proof -
  obtain r w' where send: "send_control p (tick w) (control_local p) frm DELAY_REQ
      (generate_mac (delay_req_text t1 (next_time w))) (delay_req_text t1 (next_time w)) = Inr (r, w')"
    using send_control_total by blast
  then have "handle_control p w (message_capsule frm to origin m) (m\<lparr>body := clean_body (body m)\<rparr>) =
      Inr (True, p, w', [])"
    using assms(2-5) by (simp add: handle_control_def handle_sync_resp_def Let_def)
  from update_control [OF assms(1) this] send show ?thesis by auto
qed

lemma update_delay_req:
  assumes "authentic m" and "control m = DELAY_REQ" and "in_group_of p m" and "is_master p"
    and "body m = delay_req_text t1 t2"
  shows "\<exists>w' r ups. update p w (etherType p) (Some (message_frame et len frm to m)) origin = Inr (p, w', ups) \<and>
    send_control p (tick w) (control_local p) frm DELAY_RESP
      (generate_mac (delay_resp_text t1 t2 (next_time w))) (delay_resp_text t1 t2 (next_time w)) = Inr (r, w')"
proof -
  obtain r w' where send: "send_control p (tick w) (control_local p) frm DELAY_RESP
      (generate_mac (delay_resp_text t1 t2 (next_time w))) (delay_resp_text t1 t2 (next_time w)) = Inr (r, w')"
    using send_control_total by blast
  moreover have "scan_three_lu (clean_body (body m)) = Some (t1, t2, t2)"
    unfolding assms(5) exchange_text_facts by simp
  ultimately have "handle_control p w (message_capsule frm to origin m) (m\<lparr>body := clean_body (body m)\<rparr>) =
      Inr (True, p, w', [])"
    using assms(2-4) by (simp add: handle_control_def handle_delay_req_def Let_def)
  from update_control [OF assms(1) this] send show ?thesis by auto
qed

lemma update_delay_resp:
  assumes "authentic m" and "control m = DELAY_RESP" and "in_group_of p m" and "\<not> is_master p"
    and "body m = show_int offset @ '' '' @ show_int delay" and "is_i64 offset" and "is_i64 delay"
  shows "\<exists>ups. update p w (etherType p) (Some (message_frame et len frm to m)) origin =
    Inr (p\<lparr>clock_sync := addPtpSample (clock_sync p) offset delay, running_ptp := False\<rparr>,
      snd (applySync (addPtpSample (clock_sync p) offset delay) w), ups)"
proof -
  have "clean_body (body m) = body m"
    unfolding assms(5) by (rule clean_numbers) auto
  with assms(2-7) have "handle_control p w (message_capsule frm to origin m) (m\<lparr>body := clean_body (body m)\<rparr>) =
      Inr (True, p\<lparr>clock_sync := addPtpSample (clock_sync p) offset delay, running_ptp := False\<rparr>,
        snd (applySync (addPtpSample (clock_sync p) offset delay) w), [])"
    by (simp add: handle_control_def handle_delay_resp_def set_running_ptp_def case_prod_beta Let_def)
  from update_control [OF assms(1) this] show ?thesis by auto
qed

end
