(* ===== verification/Protocol_Groups.thy ===== *)
theory Protocol_Groups
  imports Protocol_Sync
begin

text \<open>
  Group management of \<open>src/src/protocol.h\<close>: who belongs to which group after each operation on
  the group table, which node answers a request to move, and which of the group messages that
  the program sends can be received at all.
\<close>

section \<open>Membership\<close>

text \<open>The container walks over every key exactly once, in an order of its own.\<close>

definition walks_all :: "(int list \<Rightarrow> int list) \<Rightarrow> bool" where
  "walks_all ord \<longleftrightarrow> (\<forall>ks. mset (ord ks) = mset ks)"

definition unique_groups :: "group_table \<Rightarrow> bool" where
  "unique_groups gs \<longleftrightarrow> (\<forall>v g h. in_group gs v g \<and> in_group gs v h \<longrightarrow> g = h)"

lemma in_group_dom: "in_group gs v g \<Longrightarrow> g \<in> set (map fst gs)"
  by (auto simp: in_group_def split: option.splits dest: map_of_SomeD intro: rev_image_eqI)

lemma group_members_iff: "v \<in> group_members p g \<longleftrightarrow> in_group (groups p) v g"
  by (simp add: group_members_def in_group_def split: option.splits)

lemma set_walk: "walks_all ord \<Longrightarrow> set (ord ks) = set ks"
  by (metis walks_all_def mset_eq_setD)

lemma get_group_of_Some:
  assumes "walks_all (group_order p)" and "get_group_of p v = Some g"
  shows "in_group (groups p) v g"
  using assms by (auto simp: get_group_of_def find_Some_iff)

lemma get_group_of_None:
  assumes "walks_all (group_order p)"
  shows "get_group_of p v = None \<longleftrightarrow> (\<forall>g. \<not> in_group (groups p) v g)"
  using set_walk [OF assms] in_group_dom [of "groups p" v]
  by (auto simp: get_group_of_def find_None_iff)

lemma get_group_of_unique:
  assumes "walks_all (group_order p)" and "in_group (groups p) v g"
    and "\<And>h. in_group (groups p) v h \<Longrightarrow> h = g"
  shows "get_group_of p v = Some g"
  using assms get_group_of_None [of p v] get_group_of_Some [of p v]
  by (cases "get_group_of p v") auto

lemma in_group_group_at [simp]:
  "in_group (group_at gid (add_member vm) gs) v g \<longleftrightarrow> (v = vm \<and> g = gid) \<or> in_group gs v g"
  "in_group (group_at gid (del_member vm) gs) v g \<longleftrightarrow> \<not> (v = vm \<and> g = gid) \<and> in_group gs v g"
  "in_group (group_at gid (set_gid x) gs) v g \<longleftrightarrow> in_group gs v g"
  "in_group (group_at gid id gs) v g \<longleftrightarrow> in_group gs v g"
  "in_group (group_at gid (\<lambda>i. add_member vm (set_gid x i)) gs) v g \<longleftrightarrow>
     (v = vm \<and> g = gid) \<or> in_group gs v g"
  by (auto simp: in_group_def add_member_def del_member_def set_gid_def new_group_info_def
      split: option.splits)

lemma in_group_del_all [simp]:
  "in_group (map (\<lambda>(k, g). (k, del_member vm g)) gs) v g \<longleftrightarrow> v \<noteq> vm \<and> in_group gs v g"
  by (auto simp: in_group_def map_of_map del_member_def split: option.splits)

lemma in_group_set_group_for_vm:
  "in_group (groups (set_group_for_vm p vm gid)) v g \<longleftrightarrow>
     (if v = vm then g = gid else in_group (groups p) v g)"
  by (auto simp: set_group_for_vm_def)

lemma in_group_apply_move_notify:
  "in_group (apply_move_notify gs vm old_gid new_gid) v g \<longleftrightarrow>
     (v = vm \<and> g = new_gid) \<or> (in_group gs v g \<and> \<not> (v = vm \<and> g = old_gid))"
  by (auto simp: apply_move_notify_def Let_def)

lemma in_group_apply_move_request:
  "in_group (apply_move_request gs vm old_gid new_gid) v g \<longleftrightarrow>
     (v = vm \<and> g = new_gid) \<or> (in_group gs v g \<and> \<not> (v = vm \<and> g = old_gid))"
proof -
  have "old_gid \<in> fst ` set (group_at new_gid (set_gid new_gid) gs)" if "in_group gs vm old_gid"
    using in_group_dom [OF that] by simp
  then show ?thesis
    by (auto simp: apply_move_request_def Let_def)
qed

text \<open>Assigning a VM to a group. Afterwards the VM is found in that group and in no other, for
  every order in which the container may be walked, and the membership of every other VM is as
  before.\<close>

lemma set_group_for_vm_correct:
  assumes "walks_all (group_order p)"
  shows "get_group_of (set_group_for_vm p vm gid) vm = Some gid \<and>
    (\<forall>g. vm \<in> group_members (set_group_for_vm p vm gid) g \<longleftrightarrow> g = gid) \<and>
    (\<forall>v g. v \<noteq> vm \<longrightarrow> (v \<in> group_members (set_group_for_vm p vm gid) g \<longleftrightarrow> v \<in> group_members p g))"
proof -
  have "group_order (set_group_for_vm p vm gid) = group_order p"
    by (simp add: set_group_for_vm_def)
  with assms get_group_of_unique [of "set_group_for_vm p vm gid" vm gid] show ?thesis
    by (simp add: group_members_iff in_group_set_group_for_vm)
qed

text \<open>A group message with the code of its body.\<close>

definition sample_group_message :: "control_type \<Rightarrow> string \<Rightarrow> message" where
  "sample_group_message ct b = new_message\<lparr>control := ct, orig_vm := 11, msgac := generate_mac b, body := b\<rparr>"

lemma sample_group_message_simps [simp]:
  "control (sample_group_message ct b) = ct" "body (sample_group_message ct b) = b"
  "orig_vm (sample_group_message ct b) = 11"
  by (simp_all add: sample_group_message_def new_message_def)

lemma authentic_sample:
  assumes "ct \<in> {GROUP_MOVE_REQUEST, GROUP_MOVE_NOTIFY, GROUP_ASSIGN, GROUP_REGISTER}" and "length b \<le> 1000"
  shows "authentic (sample_group_message ct b)"
proof -
  have wf: "wf_message (sample_group_message ct b)"
    using assms(1) by (auto simp: sample_group_message_def wf_message_def new_message_def is_i32_def control_of_int_def)
  with assms length_build_message_le [OF wf] show ?thesis
    by (auto simp: authentic_def sample_group_message_def new_message_def)
qed

lemma sample_one: "stoi (clean_body ''1'') = Inr 1" "stoi (clean_body ''3'') = Inr 3"
  by code_simp+

section \<open>Requests to move\<close>

lemma move_request_group:
  assumes "walks_all (group_order p)"
  shows "get_group_of (set_group_for_vm p vm gid) vm = Some gid"
  using get_group_of_unique [of "set_group_for_vm p vm gid" vm gid] assms
  by (simp add: in_group_set_group_for_vm) (simp add: set_group_for_vm_def)



section \<open>Membership stays unique\<close>

lemma unique_groupsI:
  assumes "unique_groups gs" and "\<And>v g. in_group gs' v g \<Longrightarrow> v \<noteq> vm \<Longrightarrow> in_group gs v g"
    and "\<And>g. in_group gs' vm g \<Longrightarrow> g = gid"
  shows "unique_groups gs'"
  using assms unfolding unique_groups_def by metis

lemma unique_set_group_for_vm:
  "unique_groups (groups p) \<Longrightarrow> unique_groups (groups (set_group_for_vm p vm gid))"
  by (rule unique_groupsI [where vm = vm and gid = gid]) (auto simp: in_group_set_group_for_vm)

lemma unique_move_request:
  assumes "unique_groups (groups p)" and "walks_all (group_order p)"
    and "handle_move_request p w m = Inr (g, p', w', ups)"
  shows "unique_groups (groups p')"
proof -
  from assms(3) obtain gid where "stoi (body m) = Inr gid"
    by (auto simp: handle_move_request_def Let_def res_bind_Inr_iff)
  with assms(3) have "groups p' = groups (set_group_for_vm p (uint (orig_vm m)) gid) \<or>
      groups p' = apply_move_request (groups (set_group_for_vm p (uint (orig_vm m)) gid))
        (uint (orig_vm m)) gid gid"
    by (auto simp: handle_move_request_def Let_def res_bind_Inr_iff move_request_group [OF assms(2)]
        split: if_splits)
  moreover have "unique_groups (apply_move_request
      (groups (set_group_for_vm p (uint (orig_vm m)) gid)) (uint (orig_vm m)) gid gid)"
    by (rule unique_groupsI [OF assms(1), where vm = "uint (orig_vm m)" and gid = gid])
      (simp_all add: in_group_apply_move_request in_group_set_group_for_vm)
  ultimately show ?thesis
    using unique_set_group_for_vm [OF assms(1), of "uint (orig_vm m)" gid] by auto
qed

lemma unique_register:
  assumes "unique_groups (groups p)" and "walks_all (group_order p)"
    and "handle_register p w m = Inr (g, p', w', ups)"
  shows "unique_groups (groups p')"
proof -
  define vm where "vm = uint (orig_vm m)"
  define gid where "gid = (case get_group_of p vm of Some g \<Rightarrow> g | None \<Rightarrow> current_group_id p)"
  have "p' = p \<or> p' = register_vm_in_group p gid vm"
    using assms(3) unfolding handle_register_def vm_def [symmetric] Let_def gid_def [symmetric]
    by (auto simp: res_bind_Inr_iff split: if_splits)
  moreover have gid: "g = gid" if "in_group (groups p) vm g" for g
  proof (cases "get_group_of p vm")
    case None
    with that show ?thesis by (simp add: get_group_of_None [OF assms(2)])
  next
    case (Some h)
    with that get_group_of_Some [OF assms(2) Some] assms(1) show ?thesis
      by (auto simp: unique_groups_def gid_def)
  qed
  have "unique_groups (groups (register_vm_in_group p gid vm))"
    by (rule unique_groupsI [OF assms(1), of _ vm gid]) (auto simp: register_vm_in_group_def gid)
  ultimately show ?thesis using assms(1) by auto
qed

lemma other_handlers_groups:
  "handle_ready p w c m = Inr (g, p', w', ups) \<Longrightarrow> groups p' = groups p"
  "handle_go p w m = Inr (g, p', w', ups) \<Longrightarrow> groups p' = groups p"
  "handle_sync_req p w c m = Inr (g, p', w', ups) \<Longrightarrow> groups p' = groups p"
  "handle_sync_resp p w c m = Inr (g, p', w', ups) \<Longrightarrow> groups p' = groups p"
  "handle_delay_req p w c m = Inr (g, p', w', ups) \<Longrightarrow> groups p' = groups p"
  "handle_delay_resp p w m = Inr (g, p', w', ups) \<Longrightarrow> groups p' = groups p"
  subgoal by (auto simp: handle_ready_def Let_def res_bind_Inr_iff split: if_splits)
  subgoal by (auto simp: handle_go_def split: if_splits)
  subgoal by (auto simp: handle_sync_req_def Let_def res_bind_Inr_iff split: if_splits)
  subgoal by (auto simp: handle_sync_resp_def Let_def res_bind_Inr_iff split: if_splits)
  subgoal by (auto simp: handle_delay_req_def Let_def res_bind_Inr_iff split: if_splits option.splits)
  subgoal by (auto simp: handle_delay_resp_def set_running_ptp_def Let_def case_prod_beta split: if_splits)
  done

text \<open>C20: no received packet other than GROUP_ASSIGN and GROUP_MOVE_NOTIFY can put a VM into two
  groups: on every other message the table stays a partial function from VMs to groups.\<close>

theorem unique_groups_preserved:
  assumes "unique_groups (groups p)" and "walks_all (group_order p)" and "wf_message m"
    and "control m \<noteq> GROUP_ASSIGN" and "control m \<noteq> GROUP_MOVE_NOTIFY"
    and "length (build_message m) \<le> MTU"
    and "update p w (etherType p) (Some (message_frame et len frm to m)) origin = Inr (p', w', ups)"
  shows "unique_groups (groups p')"
proof (cases "control m \<noteq> NONE \<and> msgac m \<noteq> generate_mac (body m)")
  case True
  with assms show ?thesis by (simp add: update_message notify_message)
next
  case False
  let ?m = "m\<lparr>body := clean_body (body m)\<rparr>"
  from False assms(3,6,7) obtain g us where
    "handle_control p w (message_capsule frm to origin m) ?m = Inr (g, p', w', us)"
    by (auto simp: update_message notify_message res_bind_Inr_iff split: if_splits)
  then show ?thesis
    using assms(1,4,5) unique_move_request [OF assms(1,2), of w ?m] unique_register [OF assms(1,2), of w ?m]
    by (cases "control m") (auto simp: handle_control_def dest: other_handlers_groups)
qed

theorem unique_groups_preserved_witness:
  "\<exists>p' w' ups. update (sample_node 10) sample_world 0x123 (Some (message_frame 0x123 0 (Endpoint (sample_mac 11) 1)
      (Endpoint BROADCAST 1) (sample_group_message GROUP_MOVE_REQUEST ''3''))) channel_origin.Ethernet =
    Inr (p', w', ups) \<and> unique_groups (groups p')"
proof -
  let ?m = "sample_group_message GROUP_MOVE_REQUEST ''3''"
  have au: "authentic ?m" by (simp add: authentic_sample)
  have nf: "update (sample_node 10) sample_world 0x123 (Some (message_frame 0x123 0 (Endpoint (sample_mac 11) 1)
      (Endpoint BROADCAST 1) ?m)) channel_origin.Ethernet \<noteq> Inl e" for e
    using au update_message [of ?m "sample_node 10"]
    by (auto simp: authentic_def notify_message sample_one res_bind_Inl_iff dest!: handle_control_errors)
  then obtain p' w' ups where u: "update (sample_node 10) sample_world 0x123 (Some (message_frame 0x123 0
      (Endpoint (sample_mac 11) 1) (Endpoint BROADCAST 1) ?m)) channel_origin.Ethernet = Inr (p', w', ups)"
    by (metis prod_cases3 sumE)
  have "unique_groups (groups (sample_node 10))" "walks_all (group_order (sample_node 10))"
    by (simp_all add: unique_groups_def in_group_def walks_all_def)
  then have "unique_groups (groups p')"
    using au u unique_groups_preserved [of "sample_node 10" ?m sample_world "0x123" 0 "Endpoint (sample_mac 11) 1"
        "Endpoint BROADCAST 1" channel_origin.Ethernet p' w' ups]
    by (simp add: authentic_def)
  with u show ?thesis by blast
qed

section \<open>A node in two groups\<close>

lemma my_vm_range: "0 \<le> my_vm p" "my_vm p \<le> 255"
  by (simp_all add: my_vm_def vm_id_from_mac_def uint_u8_le)

lemma set_current_group_groups:
  assumes "set_current_group p w gid = Inr (p', w')"
  shows "current_group_id p' = gid"
    and "in_group (groups p') v g \<longleftrightarrow> (v = my_vm p \<and> g = gid) \<or> in_group (groups p) v g"
  using assms my_vm_range(1) [of p]
  by (auto simp: set_current_group_def broadcast_group_info_def Let_def res_bind_Inr_iff
      split: if_splits)

text \<open>Joining a group does not leave the old one. A node that is assigned to another group makes
  it its current group but stays a member of the previous group in its own table, so the group
  found for it depends on the order in which the container is walked.\<close>

lemma assign_keeps_old_group:
  assumes "authentic m" and "control m = GROUP_ASSIGN" and "stoi (clean_body (body m)) = Inr new_gid"
    and "in_group (groups p) (my_vm p) old_gid" and "old_gid \<noteq> new_gid"
    and "update p w (etherType p) (Some (message_frame et len frm to m)) origin = Inr (p', w', ups)"
  shows "current_group_id p' = new_gid \<and> my_vm p \<in> group_members p' old_gid \<and>
    my_vm p \<in> group_members p' new_gid \<and> \<not> unique_groups (groups p')"
proof -
  from assms(1,2,3,6) obtain w1 where scg: "set_current_group p w new_gid = Inr (p', w1)"
    by (auto simp: authentic_def update_message notify_message handle_control_def handle_assign_def
        res_bind_Inr_iff)
  have "in_group (groups p') (my_vm p) old_gid" "in_group (groups p') (my_vm p) new_gid"
    using set_current_group_groups(2) [OF scg] assms(4) by auto
  with assms(5) set_current_group_groups(1) [OF scg] show ?thesis
    unfolding unique_groups_def by (auto simp: group_members_iff)
qed

section \<open>The group messages of the program\<close>

lemma bit_chars_xor:
  "(\<And>c. c \<in> set s \<Longrightarrow> \<not> bit (byte_of_char c) n) \<Longrightarrow> \<not> bit (chars_xor s) n"
  by (induction s) (simp_all add: bit_xor_iff)

lemma number_char_bits:
  assumes "number_char c \<or> c = CHR '' ''"
  shows "\<not> bit (byte_of_char c) 6" and "\<not> bit (byte_of_char c) 7"
proof -
  have "\<exists>n < 64. byte_of_char c = of_nat n"
  proof (cases "is_digit c")
    case True
    then show ?thesis by (intro exI [of _ "of_char c"]) (simp add: is_digit_def Let_def byte_of_char_def of_nat_of_char)
  next
    case False
    with assms show ?thesis
      by (auto simp: number_char_def byte_of_char_def intro: exI [of _ "45 :: nat"] exI [of _ "32 :: nat"])
  qed
  then obtain n where n: "n < 64" "byte_of_char c = of_nat n" by blast
  then have "take_bit 6 (byte_of_char c) = byte_of_char c"
    by (simp add: take_bit_of_nat take_bit_nat_eq_self flip: of_nat_take_bit)
  then have "\<not> bit (byte_of_char c) k" if "6 \<le> k" for k
    using that by (metis bit_take_bit_iff not_less)
  then show "\<not> bit (byte_of_char c) 6" and "\<not> bit (byte_of_char c) 7" by simp_all
qed

lemma mac_neq_0:
  assumes "CHR 0x00 \<notin> set s" and "\<not> bit (chars_xor s) n" and "bit (key_xor 0 (length s)) n"
  shows "generate_mac s \<noteq> 0"
  using assms by (metis generate_mac_eq c_str_id bit_xor_iff bit_0_eq bot_fun_def bot_bool_def)

lemma mac_text_4_7:
  assumes "\<And>c. c \<in> set s \<Longrightarrow> \<not> bit (byte_of_char c) 7" and "CHR 0x00 \<notin> set s"
    and "4 \<le> length s" and "length s \<le> 7"
  shows "generate_mac s \<noteq> 0"
proof -
  have "length s \<in> {4, 5, 6, 7}" using assms(3,4) by auto
  then have "bit (key_xor 0 (length s)) 7"
    by (auto simp: key_xor_table bit_numeral_simps)
  with bit_chars_xor [of s 7] assms(1,2) show ?thesis by (intro mac_neq_0) auto
qed

lemma length_show_small:
  "0 \<le> i \<Longrightarrow> i < 10 \<Longrightarrow> length (show_int i) = 1"
  "0 \<le> i \<Longrightarrow> i < 100 \<Longrightarrow> length (show_int i) \<in> {1, 2}"
proof -
  have one: "n < 10 \<Longrightarrow> length (show_nat n) = 1" for n by (simp add: show_nat.simps)
  then show "0 \<le> i \<Longrightarrow> i < 10 \<Longrightarrow> length (show_int i) = 1"
    by (simp add: show_int_def)
  assume i: "0 \<le> i" "i < 100"
  show "length (show_int i) \<in> {1, 2}"
  proof (cases "i < 10")
    case False
    with i one [of "nat i div 10"] show ?thesis
      by (simp add: show_int_def show_nat.simps [of "nat i"])
  qed (use i one [of "nat i"] in \<open>simp add: show_int_def\<close>)
qed

lemma show_int_no_NUL: "CHR 0x00 \<notin> set (show_int i)"
  by (auto dest: number_char_show(1) [THEN number_char_neq])

lemma mac_group_number:
  assumes "0 \<le> g" and "g < 10"
  shows "generate_mac (show_int g) \<noteq> 0"
proof (rule mac_neq_0)
  show "CHR 0x00 \<notin> set (show_int g)" by (rule show_int_no_NUL)
  show "\<not> bit (chars_xor (show_int g)) 6"
    by (rule bit_chars_xor) (simp add: number_char_bits)
  have "length (show_int g) = 1" using assms by (rule length_show_small)
  then show "bit (key_xor 0 (length (show_int g))) 6"
    by (simp only: key_xor_table) (simp add: bit_numeral_simps)
qed

lemma show_minus_1: "length (show_int (-1)) = 2"
  by (simp add: show_int_def show_nat.simps)

lemma mac_notify:
  assumes "0 \<le> vm" "vm < 100" and "old_gid = -1 \<or> 0 \<le> old_gid \<and> old_gid < 10" and "0 \<le> g" "g < 10"
  shows "generate_mac (notify_body vm old_gid g) \<noteq> 0"
proof (rule mac_text_4_7)
  from assms(3) show_minus_1 have "length (show_int old_gid) \<in> {1, 2}" by (auto simp: length_show_small)
  moreover have "length (show_int vm) \<in> {1, 2}" "length (show_int g) = 1"
    using assms by (simp_all only: length_show_small)
  ultimately show "4 \<le> length (notify_body vm old_gid g)" "length (notify_body vm old_gid g) \<le> 7"
    by (auto simp: notify_body_def)
  show "CHR 0x00 \<notin> set (notify_body vm old_gid g)"
    by (simp add: notify_body_def show_int_no_NUL)
  show "\<not> bit (byte_of_char c) 7" if "c \<in> set (notify_body vm old_gid g)" for c
    using that number_char_bits(2) [of c] by (auto simp: notify_body_def)
qed

lemma mac_register:
  assumes "0 \<le> vm" "vm < 100"
  shows "generate_mac (''VM_ID='' @ show_int vm) \<noteq> 0"
proof (cases "length (show_int vm) = 1")
  case True
  have ascii: "\<not> bit (byte_of_char c) 7" if "c \<in> set ''VM_ID=''" for c
    using that by (auto simp: byte_of_char_def)
  have "\<not> bit (byte_of_char c) 7" if "c \<in> set (''VM_ID='' @ show_int vm)" for c
    using that unfolding set_append by (rule UnE) (simp_all add: ascii number_char_bits)
  with True show ?thesis
    by (intro mac_text_4_7) (simp_all add: show_int_no_NUL)
next
  case False
  with assms have len: "length (show_int vm) = 2" using length_show_small(2) [of vm] by auto
  have "chars_xor ''VM_ID='' = 0x74" by code_simp
  moreover have "\<not> bit (chars_xor (show_int vm)) 6"
    by (rule bit_chars_xor) (simp add: number_char_bits)
  ultimately have "bit (chars_xor (''VM_ID='' @ show_int vm)) 6"
    by (simp only: chars_xor_append bit_xor_iff) (simp add: bit_numeral_simps)
  moreover have "generate_mac (''VM_ID='' @ show_int vm) = chars_xor (''VM_ID='' @ show_int vm)"
    using len show_int_no_NUL [of vm] by (simp add: generate_mac_eq key_xor_table del: chars_xor.simps)
  ultimately show ?thesis by (metis bit_0_eq bot_fun_def bot_bool_def)
qed



text \<open>A node that joins a group announces -1 as its old group. A receiver that accepted the
  announcement would index the table of coordinators with -1, outside its bounds.\<close>

lemma join_notification_out_of_bounds:
  assumes "authentic m" and "control m = GROUP_MOVE_NOTIFY"
    and "body m = notify_body vm (-1) g" and "is_i32 vm" and "is_i32 g"
  shows "update p w (etherType p) (Some (message_frame et len frm to m)) origin = Inl Out_of_bounds"
proof -
  have sp: "scan_stream_int (CHR '' '' # s) = scan_stream_int s" for s
    by (simp add: scan_stream_int_def is_space_def)
  have si: "scan_stream_int (show_int i @ r) = Some (i, r)" if "is_i32 i" "stops_number r" for i r
    using that by (simp add: scan_stream_int_def signed_val_def)
  have "clean_body (body m) = body m"
    unfolding assms(3) notify_body_def by (rule clean_numbers) auto
  moreover have "scan_three_int (notify_body vm (-1) g) = Some (vm, -1, g)"
    using assms(4,5) si [of g "[]"]
    by (simp add: scan_three_int_def notify_body_def sp si is_digit_def is_i32_def [of "-1"])
  ultimately show ?thesis
    using assms(1,2,3)
    by (simp add: authentic_def update_message notify_message handle_control_def
        handle_move_notify_def coordinator_for_group_def)
qed

end
