(* ===== verification/Node.thy ===== *)
theory Node
  imports Protocol_Groups
begin

text \<open>
  One node of the network: a protocol object attached to its NIC, with the Ethernet engine below.
  A packet taken from the socket runs through \<open>EngineEthernet\<close> (\<open>engine_ethernet.cpp\<close>),
  \<open>NIC::on_eth_frame\<close> and \<open>Observed::notify\<close> (\<open>nic.cpp\<close>, \<open>observer.h\<close>) and
  \<open>Protocol::update\<close>; the theorems follow whole exchanges between two nodes from packet to packet.
\<close>

section \<open>From the socket to the protocol\<close>

type_synonym node_state = "protocol \<times> world \<times> upcall list"

text \<open>The protocol object as an observer of the NIC; its up-calls are collected.\<close>

definition protocol_observer :: "u16 \<Rightarrow> frame \<Rightarrow> channel_origin \<Rightarrow> unit \<Rightarrow> node_state \<Rightarrow> node_state res" where
  "protocol_observer pnum f origin ob s = (case s of (p, w, ups) \<Rightarrow>
     res_bind (update p w pnum (Some f) origin) (\<lambda>(p', w', us). Inr (p', w', ups @ us)))"

definition nic_deliver :: "(u16 \<times> frame \<times> channel_origin) option \<Rightarrow> node_state \<Rightarrow> node_state res" where
  "nic_deliver n s = (case n of
      None \<Rightarrow> Inr s
    | Some (pnum, f, origin) \<Rightarrow> notify (protocol_observer pnum f origin) (attach [] ()) s)"

fun deliver_eth :: "frame list \<Rightarrow> node_state \<Rightarrow> node_state res" where
  "deliver_eth [] s = Inr s"
| "deliver_eth (f # fs) s =
     res_bind (nic_deliver (on_eth_frame (p_nic (fst s)) f) s) (deliver_eth fs)"

definition receive_packets :: "bytes list \<Rightarrow> node_state \<Rightarrow> node_state res" where
  "receive_packets pkts s = (case ethernet_engine (p_nic (fst s)) of
      None \<Rightarrow> Inr s
    | Some e \<Rightarrow> deliver_eth (engine_ethernet_on_packet e True pkts) s)"

text \<open>A message taken from the bus; the engine has its NIC and no handler for raw bytes.\<close>

definition receive_blob :: "int \<Rightarrow> bytes option \<Rightarrow> node_state \<Rightarrow> node_state res" where
  "receive_blob msg_len msg s =
     res_bind (engine_shm_on_receive True False msg_len msg) (\<lambda>d. case d of
         To_nic f \<Rightarrow> nic_deliver (on_shm_frame (p_nic (fst s)) f) s
       | _ \<Rightarrow> Inr s)"

section \<open>The protocol keeps the contract of an observer\<close>

definition node_ok :: "protocol \<Rightarrow> node_state \<Rightarrow> bool" where
  "node_ok p0 s \<longleftrightarrow> good_step p0 (fst s)"

interpretation protocol_obs: observer_contract "protocol_observer pnum f origin" "node_ok p0"
  for pnum f origin p0
proof unfold_locales
  fix s s' :: node_state and ob
  assume "node_ok p0 s" and "protocol_observer pnum f origin ob s = Inr s'"
  then show "node_ok p0 s'"
    by (cases s) (auto simp: protocol_observer_def node_ok_def res_bind_Inr_iff
        dest: good_step_trans [OF _ good_step_update])
qed

lemma nic_deliver_ok: "node_ok p0 s \<Longrightarrow> nic_deliver n s = Inr s' \<Longrightarrow> node_ok p0 s'"
  by (auto simp: nic_deliver_def split: option.splits dest: protocol_obs.notify_ok)

lemma deliver_eth_ok: "node_ok p0 s \<Longrightarrow> deliver_eth fs s = Inr s' \<Longrightarrow> node_ok p0 s'"
  by (induction fs arbitrary: s) (auto simp: res_bind_Inr_iff dest: nic_deliver_ok)



section \<open>One control message from node to node\<close>

text \<open>A node that is set up: its engine has a socket and the card's address, and control messages
  are sent from that address.\<close>

definition linked :: "protocol \<Rightarrow> bool" where
  "linked p \<longleftrightarrow> (\<exists>e. ethernet_engine (p_nic p) = Some e \<and> mac_bytes e = addr (nic_mac (p_nic p)) \<and>
     0 \<le> sock e) \<and> mac (control_local p) = nic_mac (p_nic p) \<and> nic_mac (p_nic p) \<noteq> BROADCAST"

text \<open>Two nodes that can talk to each other about their group.\<close>

definition peers :: "protocol \<Rightarrow> protocol \<Rightarrow> bool" where
  "peers p q \<longleftrightarrow> linked p \<and> linked q \<and> nic_mac (p_nic p) \<noteq> nic_mac (p_nic q) \<and>
     etherType p = etherType q \<and> current_group_id p = current_group_id q \<and>
     0 \<le> current_group_id p \<and> current_group_id p < 256"

lemma peers_sym: "peers p q \<Longrightarrow> peers q p"
  by (auto simp: peers_def)

text \<open>The world after a packet has been handed to the socket.\<close>

definition emits :: "world \<Rightarrow> u16 \<Rightarrow> address \<Rightarrow> bytes \<Rightarrow> world \<Rightarrow> bool" where
  "emits w et d pkt w' \<longleftrightarrow> eth_out w' = eth_out w @ [(htons et, d, pkt)] \<and>
     shm_out w' = shm_out w \<and> adjtimex_calls w' = adjtimex_calls w"

lemma receive_one:
  assumes "ethernet_engine (p_nic q) = Some e" and "engine_ethernet_on_packet e True [pkt] = [f]"
    and "src f \<noteq> nic_mac (p_nic q)" and "update q v (proto f) (Some f) channel_origin.Ethernet = Inr (q', v', us)"
  shows "receive_packets [pkt] (q, v, ups) = Inr (q', v', ups @ us)"
  using assms
  by (simp add: receive_packets_def nic_deliver_def on_eth_frame_def attach_def protocol_observer_def)

lemma message_frame_fields:
  "src (message_frame et len frm to m) = mac frm" "dst (message_frame et len frm to m) = mac to"
  "proto (message_frame et len frm to m) = et"
  by (simp_all add: message_frame_def packet_frame_def)

text \<open>Any message from one node to another over Ethernet: what \<open>Protocol::send\<close> hands to the socket is, at
  the other node, the frame of that message.\<close>

lemma message_transfer:
  assumes p: "ethernet_engine (p_nic p) = Some e" "mac_bytes e = addr (nic_mac (p_nic p))" "0 \<le> sock e"
    and q: "ethernet_engine (p_nic q) = Some e'" "0 \<le> sock e'"
    and neq: "nic_mac (p_nic p) \<noteq> nic_mac (p_nic q)" and et: "etherType q = etherType p"
    and frm: "mac frm = nic_mac (p_nic p)" and to: "mac to \<noteq> nic_mac (p_nic p)"
    and len: "length (build_message m) \<le> MTU"
    and send: "send p w frm to (bytes_of_string (build_message m)) = Inr (r, w')"
  shows "\<exists>pkt len. w' = w\<lparr>eth_out := eth_out w @ [(htons (etherType p), mac to, pkt)]\<rparr> \<and>
    (\<forall>v q' v' us ups. update q v (etherType q)
       (Some (message_frame (etherType q) len frm to m)) channel_origin.Ethernet = Inr (q', v', us) \<longrightarrow>
       receive_packets [pkt] (q, v, ups) = Inr (q', v', ups @ us))"
proof -
  let ?s = "bytes_of_string (build_message m)"
  let ?len = "of_nat (length ?s) :: u16"
  let ?data = "packet_header (port frm) (port to) ?len @ ?s"
  let ?f = "message_frame (etherType q) ?len frm to m"
  have len': "length ?data \<le> MAX_DATA"
    and send': "nic_send (p_nic p) w (mac to) (etherType p) ?data = Inr (r, w')"
    using len send by (simp_all add: send_def MAX_DATA_def)
  obtain pkt where "w' = w\<lparr>eth_out := eth_out w @ [(htons (etherType p), mac to, pkt)]\<rparr>"
    and "engine_ethernet_on_packet e' True [pkt] = [\<lparr>dst = mac to, src = nic_mac (p_nic p),
        proto = etherType p, fdata = ?data, fsize = of_nat (length ?data)\<rparr>]"
    using nic_send_emits [OF len' to p q(2) send'] by blast
  moreover from this(2) have "engine_ethernet_on_packet e' True [pkt] = [?f]"
    by (simp add: message_frame_def packet_frame_def frm et)
  then have "receive_packets [pkt] (q, v, ups) = Inr (q', v', ups @ us)"
    if "update q v (etherType q) (Some ?f) channel_origin.Ethernet = Inr (q', v', us)" for v q' v' us ups
    using receive_one [OF q(1), of pkt ?f v q' v' us ups] that neq frm by (simp add: message_frame_fields)
  ultimately show ?thesis by blast
qed

text \<open>The same over the shared-memory bus, for a message to the node's own address.\<close>

abbreviation sent_frame :: "u16 \<Rightarrow> endpoint \<Rightarrow> endpoint \<Rightarrow> message \<Rightarrow> frame" where
  "sent_frame et frm to m \<equiv> message_frame et (of_nat (length (build_message m))) frm to m"

definition message_blob :: "u16 \<Rightarrow> endpoint \<Rightarrow> endpoint \<Rightarrow> message \<Rightarrow> bytes" where
  "message_blob et frm to m = (let f = sent_frame et frm to m
     in addr (dst f) @ addr (src f) @ le16 (proto f) @ le32 (fsize f) @ fdata f)"

lemma sent_frame_wf:
  assumes "length (build_message m) \<le> 1476"
  shows "wf_frame (sent_frame et frm to m)" "unat (fsize (sent_frame et frm to m)) = 6 + length (build_message m)"
proof -
  show u: "unat (fsize (sent_frame et frm to m)) = 6 + length (build_message m)"
    using assms unat_small [of "6 + length (build_message m)"]
    by (simp add: message_frame_def packet_frame_def MAX_DATA_def)
  show "wf_frame (sent_frame et frm to m)"
    using assms u by (simp add: wf_frame_def MAX_DATA_def) (simp add: message_frame_def packet_frame_def)
qed

lemma length_message_blob:
  "length (message_blob et frm to m) = 24 + length (build_message m)"
  by (simp add: message_blob_def message_frame_def packet_frame_def)

lemma send_on_bus:
  assumes "shm_engine (p_nic p)" and "mac frm = nic_mac (p_nic p)" and "mac to = nic_mac (p_nic p)"
    and "length (build_message m) \<le> 1476"
  shows "send p w frm to (bytes_of_string (build_message m)) =
    Inr (0, w\<lparr>shm_out := shm_out w @ [message_blob (etherType p) frm to m]\<rparr>)"
proof -
  have "send p w frm to (bytes_of_string (build_message m)) = engine_shm_send w (sent_frame (etherType p) frm to m)"
    using assms
    by (simp add: send_def nic_send_def nic_address_def MAX_DATA_def message_frame_def packet_frame_def)
  also have "\<dots> = Inr (0, w\<lparr>shm_out := shm_out w @ [message_blob (etherType p) frm to m]\<rparr>)"
    using assms(4) sent_frame_wf(2) [OF assms(4)]
    by (simp add: engine_shm_send_wf [OF sent_frame_wf(1) [OF assms(4)]] PAYLOAD_def message_blob_def Let_def)
  finally show ?thesis .
qed

lemma receive_message_blob:
  assumes "length (build_message m) \<le> 1476"
    and "update q v et (Some (sent_frame et frm to m)) SharedMemory = Inr (q', v', us)"
  defines "blob \<equiv> message_blob et frm to m"
  shows "receive_blob (int (length blob)) (Some blob) (q, v, ups) = Inr (q', v', ups @ us)"
proof -
  have "blob \<noteq> []" using length_message_blob [of et frm to m] by (auto simp: blob_def)
  moreover have "deserialize_frame (Some blob) (length blob) = Inr (Some (sent_frame et frm to m))"
    using deserialize_image [OF sent_frame_wf(1) [OF assms(1)], of "length blob" et frm to] length_message_blob [of et frm to m]
    by (simp add: message_blob_def Let_def blob_def)
  ultimately have "engine_shm_on_receive True False (int (length blob)) (Some blob) = Inr (To_nic (sent_frame et frm to m))"
    by (rule on_receive_frame)
  with assms(2) show ?thesis
    by (simp add: receive_blob_def nic_deliver_def on_shm_frame_def attach_def protocol_observer_def message_frame_fields)
qed

lemma control_transfer:
  assumes "peers p q" and "mac to \<noteq> nic_mac (p_nic p)"
    and "named ct" and "length b \<le> 1345"
    and "send_control p w (control_local p) to ct ac b = Inr (r, w')"
  defines "m \<equiv> control_message p w (control_local p) ct ac b"
  shows "\<exists>pkt len. emits w (etherType p) (mac to) pkt w' \<and>
    (\<forall>v q' v' us ups. update q v (etherType q)
       (Some (message_frame (etherType q) len (control_local p) to m)) channel_origin.Ethernet = Inr (q', v', us) \<longrightarrow>
       receive_packets [pkt] (q, v, ups) = Inr (q', v', ups @ us))"
proof -
  from assms(1) obtain e e' where p: "ethernet_engine (p_nic p) = Some e"
      "mac_bytes e = addr (nic_mac (p_nic p))" "0 \<le> sock e" "mac (control_local p) = nic_mac (p_nic p)"
    and q: "ethernet_engine (p_nic q) = Some e'" "0 \<le> sock e'"
    and neq: "nic_mac (p_nic p) \<noteq> nic_mac (p_nic q)" and et: "etherType q = etherType p"
    by (auto simp: peers_def linked_def)
  have len: "length (build_message m) \<le> MTU"
    using length_build_message_le [OF wf_control_message [OF assms(3)], of p w "control_local p" ac b] assms(4)
    by (simp add: m_def)
  have send: "send p (tick w) (control_local p) to (bytes_of_string (build_message m)) = Inr (r, w')"
    using assms(5) by (simp add: send_control_eq m_def)
  have emit: "emits w (etherType p) (mac to) pkt w'"
    if "w' = (tick w)\<lparr>eth_out := eth_out (tick w) @ [(htons (etherType p), mac to, pkt)]\<rparr>" for pkt
    using that by (simp add: emits_def)
  from message_transfer [OF p(1-3) q neq et p(4) assms(2) len send] show ?thesis
    by (elim exE conjE) (intro exI conjI, erule emit)
qed

lemma peers_in_group: "peers p q \<Longrightarrow> in_group_of q (control_message p w frm ct ac b)"
  by (simp add: peers_def in_group_of_def uint_word_of_int)

section \<open>Clock synchronisation between two nodes\<close>

text \<open>The node receives the packet, stays as it is, and answers with a packet to \<open>d\<close>.\<close>

definition answers :: "protocol \<Rightarrow> world \<Rightarrow> bytes \<Rightarrow> world \<Rightarrow> address \<Rightarrow> bytes \<Rightarrow> bool" where
  "answers q v pkt v' d pkt' \<longleftrightarrow>
     (\<forall>ups. \<exists>us. receive_packets [pkt] (q, v, ups) = Inr (q, v', ups @ us)) \<and> emits v (etherType q) d pkt' v'"

text \<open>What a packet is worth to its receiver: it carries the given control message.\<close>

definition carries :: "protocol \<Rightarrow> protocol \<Rightarrow> world \<Rightarrow> endpoint \<Rightarrow> control_type \<Rightarrow> string \<Rightarrow> bytes \<Rightarrow> bool" where
  "carries p q w to ct b pkt \<longleftrightarrow> (\<exists>len. \<forall>v q' v' us ups. update q v (etherType q)
     (Some (message_frame (etherType q) len (control_local p) to
        (control_message p w (control_local p) ct (generate_mac b) b))) channel_origin.Ethernet =
     Inr (q', v', us) \<longrightarrow> receive_packets [pkt] (q, v, ups) = Inr (q', v', ups @ us))"

lemma control_carried:
  assumes "peers p q" and "mac to \<noteq> nic_mac (p_nic p)" and "named ct" and "length b \<le> 1345"
    and "send_control p w (control_local p) to ct (generate_mac b) b = Inr (r, w')"
  shows "\<exists>pkt. emits w (etherType p) (mac to) pkt w' \<and> carries p q w to ct b pkt"
  using control_transfer [OF assms] by (auto simp: carries_def)

lemma peers_control_local:
  "peers p q \<Longrightarrow> mac (control_local p) = nic_mac (p_nic p)"
  "peers p q \<Longrightarrow> mac (control_local q) \<noteq> nic_mac (p_nic p)"
  "peers p q \<Longrightarrow> mac (to_all p) \<noteq> nic_mac (p_nic p)"
  by (auto simp: peers_def linked_def to_all_def Endpoint_def)

text \<open>One answer of the exchange: the received message makes the handler send the next one.\<close>

lemma exchange_step:
  assumes "peers p q" and "carries p q w to ct b pkt"
    and "\<And>len. \<exists>v' r ups. update q v (etherType q) (Some (message_frame (etherType q) len (control_local p) to
        (control_message p w (control_local p) ct (generate_mac b) b))) channel_origin.Ethernet = Inr (q, v', ups) \<and>
      send_control q (tick v) (control_local q) (control_local p) ct' (generate_mac b') b' = Inr (r, v')"
    and "named ct'" and "length b' \<le> 1345"
  shows "\<exists>v' pkt'. answers q v pkt v' (nic_mac (p_nic p)) pkt' \<and>
    carries q p (tick v) (control_local p) ct' b' pkt'"
proof -
  from assms(2) obtain len where c: "\<And>v q' v' us ups. update q v (etherType q)
     (Some (message_frame (etherType q) len (control_local p) to
        (control_message p w (control_local p) ct (generate_mac b) b))) channel_origin.Ethernet =
     Inr (q', v', us) \<Longrightarrow> receive_packets [pkt] (q, v, ups) = Inr (q', v', ups @ us)"
    unfolding carries_def by blast
  from assms(3) [of len] obtain v' r us where u: "update q v (etherType q) (Some (message_frame (etherType q) len
        (control_local p) to (control_message p w (control_local p) ct (generate_mac b) b)))
        channel_origin.Ethernet = Inr (q, v', us)"
    and s: "send_control q (tick v) (control_local q) (control_local p) ct' (generate_mac b') b' = Inr (r, v')"
    by blast
  have qp: "peers q p" using assms(1) by (rule peers_sym)
  from control_carried [OF qp _ assms(4,5) s] obtain pkt' where
    "emits (tick v) (etherType q) (mac (control_local p)) pkt' v'"
    "carries q p (tick v) (control_local p) ct' b' pkt'"
    using peers_control_local(2) [OF qp] by blast
  with c [OF u] peers_control_local(1) [OF assms(1)] show ?thesis
    by (auto simp: answers_def emits_def)
qed

lemma is_i64_ptp: "is_i64 (ptp_offset t1 t2 t3 t4)" "is_i64 (ptp_rtt t1 t2 t3 t4)"
proof -
  have "is_i64 (sint (x :: u64))" for x
    using sint_lt [of x] sint_ge [of x] by (simp add: is_i64_def)
  then show "is_i64 (ptp_rtt t1 t2 t3 t4)" by (simp add: ptp_rtt_def)
  have half: "is_i64 (cdiv x 2)" if "is_i64 x" for x
    using that by (cases "0 \<le> x") (auto simp: is_i64_def cdiv_nonneg cdiv_neg)
  show "is_i64 (ptp_offset t1 t2 t3 t4)"
    by (simp add: ptp_offset_def half is_i64_to_i64)
qed

lemma master_on_sync_req:
  assumes "peers W M" and "is_master M" and "carries W M w to SYNC_REQ [] pkt"
  shows "\<exists>v' pkt'. answers M v pkt v' (nic_mac (p_nic W)) pkt' \<and>
    carries M W (tick v) (control_local W) SYNC_RESP (show_word (next_time v)) pkt'"
proof (rule exchange_step [OF assms(1,3)])
  have "authentic (control_message W w (control_local W) SYNC_REQ (generate_mac []) [])"
    by (rule authentic_control_message) (simp_all add: named_def)
  then show "\<exists>v' r ups. update M v (etherType M) (Some (message_frame (etherType M) len (control_local W) to
      (control_message W w (control_local W) SYNC_REQ (generate_mac []) []))) channel_origin.Ethernet = Inr (M, v', ups) \<and>
    send_control M (tick v) (control_local M) (control_local W) SYNC_RESP
      (generate_mac (show_word (next_time v))) (show_word (next_time v)) = Inr (r, v')" for len
    by (rule update_sync_req) (simp_all add: peers_in_group [OF assms(1)] assms(2))
qed (simp_all add: named_def)

lemma worker_on_sync_resp:
  assumes "peers W M" and "\<not> is_master W" and "carries M W w to SYNC_RESP (show_word t1) pkt"
  shows "\<exists>v' pkt'. answers W v pkt v' (nic_mac (p_nic M)) pkt' \<and>
    carries W M (tick v) (control_local M) DELAY_REQ (delay_req_text t1 (next_time v)) pkt'"
proof (rule exchange_step [OF peers_sym [OF assms(1)] assms(3)])
  let ?b = "show_word t1"
  have "authentic (control_message M w (control_local M) SYNC_RESP (generate_mac ?b) ?b)"
    by (rule authentic_control_message) (simp_all add: named_def)
  then show "\<exists>v' r ups. update W v (etherType W) (Some (message_frame (etherType W) len (control_local M) to
      (control_message M w (control_local M) SYNC_RESP (generate_mac ?b) ?b))) channel_origin.Ethernet = Inr (W, v', ups) \<and>
    send_control W (tick v) (control_local W) (control_local M) DELAY_REQ
      (generate_mac (delay_req_text t1 (next_time v))) (delay_req_text t1 (next_time v)) = Inr (r, v')" for len
    by (rule update_sync_resp) (simp_all add: peers_in_group [OF peers_sym [OF assms(1)]] assms(2))
qed (rule exchange_text_facts | simp add: named_def)+

lemma length_delay_resp_text: "length (delay_resp_text t1 t2 t4) \<le> 1345"
  using length_show_int_i64 [OF is_i64_ptp(1), of t1 t2 t2 t4]
    length_show_int_i64 [OF is_i64_ptp(2), of t1 t2 t2 t4] by simp

lemma master_on_delay_req:
  assumes "peers W M" and "is_master M" and "carries W M w to DELAY_REQ (delay_req_text t1 t2) pkt"
  shows "\<exists>v' pkt'. answers M v pkt v' (nic_mac (p_nic W)) pkt' \<and>
    carries M W (tick v) (control_local W) DELAY_RESP (delay_resp_text t1 t2 (next_time v)) pkt'"
proof (rule exchange_step [OF assms(1,3)])
  let ?b = "delay_req_text t1 t2"
  have "authentic (control_message W w (control_local W) DELAY_REQ (generate_mac ?b) ?b)"
    by (rule authentic_control_message) (rule exchange_text_facts | simp add: named_def)+
  then show "\<exists>v' r ups. update M v (etherType M) (Some (message_frame (etherType M) len (control_local W) to
      (control_message W w (control_local W) DELAY_REQ (generate_mac ?b) ?b))) channel_origin.Ethernet = Inr (M, v', ups) \<and>
    send_control M (tick v) (control_local M) (control_local W) DELAY_RESP
      (generate_mac (delay_resp_text t1 t2 (next_time v))) (delay_resp_text t1 t2 (next_time v)) = Inr (r, v')" for len
    by (rule update_delay_req) (simp_all add: peers_in_group [OF assms(1)] assms(2))
  show "length (delay_resp_text t1 t2 (next_time v)) \<le> 1345" by (rule length_delay_resp_text)
qed (simp_all add: named_def)

lemma worker_on_delay_resp:
  assumes "peers W M" and "\<not> is_master W" and "carries M W w to DELAY_RESP (delay_resp_text t1 t2 t4) pkt"
  defines "cs \<equiv> addPtpSample (clock_sync W) (ptp_offset t1 t2 t2 t4) (ptp_rtt t1 t2 t2 t4)"
  shows "\<exists>us. receive_packets [pkt] (W, v, ups) = Inr (W\<lparr>clock_sync := cs, running_ptp := False\<rparr>,
    v\<lparr>adjtimex_calls := adjtimex_calls v @ [to_i64 (getAverageOffset cs * 1000)]\<rparr>, ups @ us)"
proof -
  let ?b = "delay_resp_text t1 t2 t4"
  let ?m = "control_message M w (control_local M) DELAY_RESP (generate_mac ?b) ?b"
  from assms(3) obtain len where c: "\<And>q' v' us. update W v (etherType W) (Some (message_frame (etherType W) len
      (control_local M) to ?m)) channel_origin.Ethernet = Inr (q', v', us) \<Longrightarrow>
      receive_packets [pkt] (W, v, ups) = Inr (q', v', ups @ us)"
    unfolding carries_def by blast
  have "authentic ?m"
    by (rule authentic_control_message) (rule length_delay_resp_text | simp add: named_def)+
  then have "\<exists>us. update W v (etherType W) (Some (message_frame (etherType W) len (control_local M) to ?m))
      channel_origin.Ethernet = Inr (W\<lparr>clock_sync := cs, running_ptp := False\<rparr>, snd (applySync cs v), us)"
    unfolding cs_def
    by (rule update_delay_resp)
      (simp_all add: peers_in_group [OF peers_sym [OF assms(1)]] assms(2) is_i64_ptp)
  then show ?thesis
    using c by (auto simp: applySync_def adjust_time_gradually_def Let_def)
qed

text \<open>C2: the clock exchange, end to end. After a worker has broadcast SYNC_REQ, the master answers the
  packet with SYNC_RESP to the worker, the worker that with DELAY_REQ, the master that with
  DELAY_RESP, each to the address of the other card, whatever else the two did in between; with the
  last packet the worker stores exactly the offset and round-trip time computed from the three
  clock readings (the master's on SYNC_REQ, the worker's on SYNC_RESP, the master's on DELAY_REQ)
  and hands the new average offset to the clock once.\<close>

theorem clock_exchange:
  assumes "peers W M" and "is_master M" and "\<not> is_master W"
    and "send_control W w0 (control_local W) (to_all W) SYNC_REQ 0 [] = Inr (r, w0')"
  shows "\<exists>pkt1. emits w0 (etherType W) BROADCAST pkt1 w0' \<and>
    (\<forall>m1. \<exists>m1' pkt2. answers M m1 pkt1 m1' (nic_mac (p_nic W)) pkt2 \<and>
    (\<forall>w2. \<exists>w2' pkt3. answers W w2 pkt2 w2' (nic_mac (p_nic M)) pkt3 \<and>
    (\<forall>m3. \<exists>m3' pkt4. answers M m3 pkt3 m3' (nic_mac (p_nic W)) pkt4 \<and>
    (\<forall>w4 ups. \<exists>us.
      let offset = ptp_offset (next_time m1) (next_time w2) (next_time w2) (next_time m3);
          rtt = ptp_rtt (next_time m1) (next_time w2) (next_time w2) (next_time m3);
          cs = addPtpSample (clock_sync W) offset rtt
      in receive_packets [pkt4] (W, w4, ups) =
         Inr (W\<lparr>clock_sync := cs, running_ptp := False\<rparr>,
           w4\<lparr>adjtimex_calls := adjtimex_calls w4 @ [to_i64 (getAverageOffset cs * 1000)]\<rparr>, ups @ us)))))"
proof -
  have mac0: "generate_mac [] = 0" by (simp add: generate_mac_eq c_str_def)
  have "named SYNC_REQ" "mac (to_all W) = BROADCAST"
    by (simp_all add: named_def to_all_def Endpoint_def)
  with control_carried [OF assms(1) peers_control_local(3) [OF assms(1)], of SYNC_REQ "[]" w0 r w0'] assms(4)
  obtain pkt1 where "emits w0 (etherType W) BROADCAST pkt1 w0'" "carries W M w0 (to_all W) SYNC_REQ [] pkt1"
    by (auto simp: mac0)
  with master_on_sync_req [OF assms(1,2)] worker_on_sync_resp [OF assms(1,3)]
    master_on_delay_req [OF assms(1,2)] worker_on_delay_resp [OF assms(1,3)]
  show ?thesis
    unfolding Let_def by meson
qed

lemma sample_peers: "b \<noteq> c \<Longrightarrow> peers (sample_node b) (set_master (sample_node c) x)"
  by (simp add: peers_def linked_def set_master_def sample_nic_def new_nic_def sample_mac_def Endpoint_def
      BROADCAST_def)

theorem clock_exchange_witness:
  "\<exists>r w' pkt1. send_control (sample_node 1) sample_world (control_local (sample_node 1))
      (to_all (sample_node 1)) SYNC_REQ 0 [] = Inr (r, w') \<and>
    emits sample_world 0x123 BROADCAST pkt1 w' \<and>
    (\<exists>m' pkt2. answers (set_master (sample_node 10) True) sample_world pkt1 m' (sample_mac 1) pkt2)"
proof -
  let ?W = "sample_node 1" and ?M = "set_master (sample_node 10) True"
  obtain r w' where s: "send_control ?W sample_world (control_local ?W) (to_all ?W) SYNC_REQ 0 [] = Inr (r, w')"
    using send_control_total by blast
  have "peers ?W ?M" "is_master ?M" "\<not> is_master ?W" and mac: "nic_mac (p_nic ?W) = sample_mac 1"
    and et: "etherType ?W = 0x123"
    using sample_peers [of 1 10 True] by (simp_all add: set_master_def sample_nic_def new_nic_def)
  from clock_exchange [OF this(1-3) s, unfolded mac et] s show ?thesis by meson
qed

section \<open>What the exchange measures\<close>

lemma sint_diff:
  assumes "is_i64 (uint a - uint b)"
  shows "sint (a - b :: u64) = uint a - uint b"
proof -
  have "sint (word_of_int k :: u64) = k" if "is_i64 k" for k
    using that by (simp add: is_i64_def signed_of_int signed_take_bit_int_eq_self)
  from this [OF assms] show ?thesis by simp
qed

lemma to_i64_mod: "is_i64 x \<Longrightarrow> to_i64 (x mod 2 ^ 64) = x"
proof -
  assume "is_i64 x"
  then have "to_i64 x = x" by simp
  moreover have "to_i64 (x mod 2 ^ 64) = to_i64 x"
    by (simp only: to_signed_def mod_add_left_eq)
  ultimately show ?thesis by simp
qed

lemma average_single: "is_i32 x \<Longrightarrow> average [x] = x"
  using to_i64_mod [of x] is_i32_i64 [of x] by (simp add: average_def accumulate_int_def)

lemma ptp_symmetric:
  assumes "uint t1 = T" and "uint t2 = T + delta + theta" and "uint t4 = T + 2 * delta"
    and "\<bar>theta\<bar> < 2 ^ 31" and "\<bar>delta\<bar> < 2 ^ 60"
  shows "ptp_offset t1 t2 t2 t4 = theta" and "ptp_rtt t1 t2 t2 t4 = 2 * delta"
proof -
  have b: "- 2147483648 < theta" "theta < 2147483648"
    "- 1152921504606846976 < delta" "delta < 1152921504606846976"
    using assms(4,5) by (simp_all add: abs_less_iff)
  have "sint (t2 - t1) = delta + theta" "sint (t2 - t4) = theta - delta" "sint (t4 - t1) = 2 * delta"
    using b by (simp_all add: sint_diff is_i64_def assms(1-3))
  moreover have "is_i64 (2 * theta)" using b by (simp add: is_i64_def)
  ultimately show "ptp_offset t1 t2 t2 t4 = theta" "ptp_rtt t1 t2 t2 t4 = 2 * delta"
    by (simp_all add: ptp_offset_def ptp_rtt_def cdiv_2)
qed



end
