(* ===== verification/Communicator.thy ===== *)
theory Communicator
  imports Node
begin

text \<open>
  \<open>src/src/communicator.h\<close>: the communicator between a component and the protocol. It numbers and
  stamps outgoing messages, keeps received messages in a queue, hands each of them to the attached
  observers, and writes one log line per message.
\<close>

section \<open>State\<close>

record rx =
  rx_msg :: message
  rx_from :: endpoint
  rx_to :: endpoint
  rx_origin :: channel_origin

record communicator =
  c_local :: endpoint
  next_msg_id :: u64
  log_is_open :: bool
  on_sync_done :: bool \<comment> \<open>whether the callback is set\<close>
  rx_queue :: "rx list"
  rx_observers :: "nat list" \<comment> \<open>observers of received messages, in order of attachment\<close>
  eth_obs :: "port_observer option"
  shm_obs :: "port_observer option"

text \<open>The name of the log file, and the constructor: it throws when the file cannot be opened.\<close>

definition log_name :: "endpoint \<Rightarrow> string" where
  "log_name l = ''vm_'' @ show_int (uint (addr (mac l) ! 5)) @ ''_'' @ show_word (port l) @ ''.log''"

definition new_communicator :: "(string \<Rightarrow> bool) \<Rightarrow> endpoint \<Rightarrow> communicator res" where
  "new_communicator can_open l =
     (if can_open (''/mnt/logs/'' @ log_name l)
      then Inr \<lparr>c_local = l, next_msg_id = 0, log_is_open = True, on_sync_done = False, rx_queue = [],
        rx_observers = [], eth_obs = None, shm_obs = None\<rparr>
      else Inl (Runtime_error (''Failed to open log file: '' @ log_name l)))"

text \<open>The two port observers of a communicator, one per origin.\<close>

definition eth_port_observer :: "u16 \<Rightarrow> port_observer" where
  "eth_port_observer prt = \<lparr>po_id = 0, po_port = prt, po_origin = channel_origin.Ethernet\<rparr>"

definition shm_port_observer :: "u16 \<Rightarrow> port_observer" where
  "shm_port_observer prt = \<lparr>po_id = 1, po_port = prt, po_origin = SharedMemory\<rparr>"

definition set_up_port_observer :: "communicator \<Rightarrow> protocol \<Rightarrow> u16 \<Rightarrow> communicator \<times> protocol" where
  "set_up_port_observer c p prt =
     (let e = eth_port_observer prt; s = shm_port_observer prt
      in (c\<lparr>eth_obs := Some e, shm_obs := Some s\<rparr>, attach_port (attach_port p (Some e)) (Some s)))"

definition close_communicator :: "communicator \<Rightarrow> protocol \<Rightarrow> communicator \<times> protocol" where
  "close_communicator c p =
     (let p1 = (if eth_obs c \<noteq> None then detach_port p (eth_obs c) else p);
          p2 = (if shm_obs c \<noteq> None then detach_port p1 (shm_obs c) else p1)
      in (c\<lparr>eth_obs := None, shm_obs := None, log_is_open := False\<rparr>, p2))"

definition comm_attach :: "communicator \<Rightarrow> nat \<Rightarrow> communicator" where
  "comm_attach c ob = c\<lparr>rx_observers := attach (rx_observers c) ob\<rparr>"

definition comm_detach :: "communicator \<Rightarrow> nat \<Rightarrow> communicator" where
  "comm_detach c ob = c\<lparr>rx_observers := detach (rx_observers c) ob\<rparr>"

definition set_on_sync_done :: "communicator \<Rightarrow> communicator" where
  "set_on_sync_done c = c\<lparr>on_sync_done := True\<rparr>"

section \<open>Logging\<close>

text \<open>What \<open>printf\<close> makes of the two formats; \<open>snprintf\<close> keeps 255 characters.\<close>

definition log_text :: "string \<Rightarrow> int \<Rightarrow> int \<Rightarrow> int \<Rightarrow> u64 \<Rightarrow> int \<Rightarrow> u64 \<Rightarrow> string" where
  "log_text tag g vm prt t ty i = ''['' @ tag @ '' GROUP='' @ show_int g @ '' VM='' @ show_int vm @
     '' PORT='' @ show_int prt @ '' TIME='' @ show_word t @ '' TYPE='' @ show_int ty @
     '' ID='' @ show_word i @ '']'' @ [CHR 0x0A]"

definition logf :: "communicator \<Rightarrow> world \<Rightarrow> string \<Rightarrow> world" where
  "logf c w text =
     (let line = c_str (take 255 text)
      in if log_is_open c then w\<lparr>log_out := log_out w @ [line @ [CHR 0x0A]]\<rparr> else w)"

section \<open>Sending\<close>

definition data_message :: "communicator \<Rightarrow> protocol \<Rightarrow> u64 \<Rightarrow> int \<Rightarrow> string \<Rightarrow> message" where
  "data_message c p now ty data =
     new_message\<lparr>group_id := word_of_int (get_current_group p), orig_vm := addr (mac (c_local c)) ! 5,
       orig_port := port (c_local c), timestamp := now, mtype := ty, msg_id := next_msg_id c, body := data\<rparr>"

definition log_message :: "communicator \<Rightarrow> world \<Rightarrow> string \<Rightarrow> u64 \<Rightarrow> message \<Rightarrow> world" where
  "log_message c w tag t m =
     logf c w (log_text tag (uint (group_id m)) (uint (orig_vm m)) (uint (orig_port m)) t (mtype m) (msg_id m))"

definition comm_send :: "communicator \<Rightarrow> protocol \<Rightarrow> world \<Rightarrow> endpoint \<Rightarrow> int \<Rightarrow> string \<Rightarrow>
    (int \<times> communicator \<times> world) res" where
  "comm_send c p w to ty data =
     (let (send_time, w1) = get_microseconds_now w;
          msg = data_message c p send_time ty data;
          c1 = c\<lparr>next_msg_id := next_msg_id c + 1\<rparr>;
          payload = build_message msg;
          w2 = log_message c1 w1 ''SEND'' send_time msg
      in res_bind (send p w2 (c_local c1) to (bytes_of_string payload)) (\<lambda>(r, w3). Inr (r, c1, w3)))"

definition send_message :: "communicator \<Rightarrow> protocol \<Rightarrow> world \<Rightarrow> endpoint \<Rightarrow> message \<Rightarrow> (int \<times> world) res" where
  "send_message c p w to msg =
     (let payload = build_message msg; w1 = log_message c w ''SEND'' (timestamp msg) msg
      in send p w1 (c_local c) to (bytes_of_string payload))"

section \<open>Receiving\<close>

text \<open>
  \<open>receive\<close> waits until the queue is not empty: \<open>None\<close> while it has to wait. \<open>try_receive\<close> answers at
  once.
\<close>

definition receive :: "communicator \<Rightarrow> (rx \<times> communicator) option" where
  "receive c = (case rx_queue c of [] \<Rightarrow> None | r # rs \<Rightarrow> Some (r, c\<lparr>rx_queue := rs\<rparr>))"

definition try_receive :: "communicator \<Rightarrow> rx \<Rightarrow> bool \<times> rx \<times> communicator" where
  "try_receive c out = (case rx_queue c of
      [] \<Rightarrow> (False, out, c)
    | r # rs \<Rightarrow> (True, r, c\<lparr>rx_queue := rs\<rparr>))"

definition enqueue :: "communicator \<Rightarrow> rx \<Rightarrow> communicator" where
  "enqueue c r = c\<lparr>rx_queue := rx_queue c @ [r]\<rparr>"

text \<open>
  \<open>PortObserverImpl::on_packet\<close>. The result lists the observers that are notified, each with the
  message, in order.
\<close>

definition on_packet :: "port_observer \<Rightarrow> communicator \<Rightarrow> world \<Rightarrow> endpoint \<Rightarrow> endpoint \<Rightarrow> bytes \<Rightarrow>
    channel_origin \<Rightarrow> (communicator \<times> world \<times> (nat \<times> rx) list) res" where
  "on_packet ob c w frm to data origin =
     (if po_origin ob \<noteq> origin then Inr (c, w, [])
      else
        (let (recv_time, w1) = get_microseconds_now w
         in res_bind (parse_message data) (\<lambda>m.
            (let msg = m\<lparr>body := rtrim (ltrim (body m))\<rparr>;
                 w2 = log_message c w1 ''RECV'' recv_time msg;
                 r = \<lparr>rx_msg = msg, rx_from = frm, rx_to = to, rx_origin = origin\<rparr>
             in Inr (enqueue c r, w2, map (\<lambda>o'. (o', r)) (rx_observers c))))))"

text \<open>\<open>PortObserverImpl::on_control\<close>: whether the callback of the start barrier is called.\<close>

definition on_control :: "communicator \<Rightarrow> control_type \<Rightarrow> bool" where
  "on_control c ct = (case ct of GO \<Rightarrow> on_sync_done c | _ \<Rightarrow> False)"

section \<open>Log lines\<close>

lemma show_int_uint [simp]: "show_int (uint w) = show_word w"
  by (simp add: show_int_def show_word_def)

lemma not_NUL_show_nat [simp]: "CHR 0x00 \<notin> set (show_nat n)"
  using show_nat_digits by fastforce

lemma not_NUL_show [simp]: "CHR 0x00 \<notin> set (show_word w)" "CHR 0x00 \<notin> set (show_int i)"
  by (simp_all add: show_word_def show_int_def)

text \<open>The line of a message: \<open>snprintf\<close> never cuts it, for any contents of the fields.\<close>

definition message_line :: "string \<Rightarrow> u64 \<Rightarrow> message \<Rightarrow> string" where
  "message_line tag t m =
     log_text tag (uint (group_id m)) (uint (orig_vm m)) (uint (orig_port m)) t (mtype m) (msg_id m) @ [CHR 0x0A]"

lemma length_log_text:
  assumes "is_i32 (mtype m)" and "length tag \<le> 20"
  shows "length (log_text tag (uint (group_id m)) (uint (orig_vm m)) (uint (orig_port m)) t (mtype m) (msg_id m)) \<le> 150"
  using assms length_show_word(1) [of "group_id m"] length_show_word(1) [of "orig_vm m"]
    length_show_word(2) [of "orig_port m"] length_show_word(3) [of t] length_show_word(3) [of "msg_id m"]
    length_show_int_i64 [OF is_i32_i64, of "mtype m"]
  by (simp add: log_text_def)

lemma log_message_line:
  assumes "is_i32 (mtype m)" and "length tag \<le> 20" and "CHR 0x00 \<notin> set tag"
  shows "log_message c w tag t m =
    (if log_is_open c then w\<lparr>log_out := log_out w @ [message_line tag t m]\<rparr> else w)"
proof -
  let ?x = "log_text tag (uint (group_id m)) (uint (orig_vm m)) (uint (orig_port m)) t (mtype m) (msg_id m)"
  have "take 255 ?x = ?x" using length_log_text [OF assms(1,2), of t] by simp
  moreover have "CHR 0x00 \<notin> set ?x" using assms(3) by (simp add: log_text_def)
  ultimately show ?thesis
    by (simp add: log_message_def logf_def message_line_def)
qed

section \<open>Sending\<close>

lemma wf_data_message: "is_i32 ty \<Longrightarrow> wf_message (data_message c p now ty data)"
  by (simp add: wf_message_def data_message_def new_message_def is_i32_def control_of_int_def)

lemma data_message_simps [simp]:
  "group_id (data_message c p now ty data) = word_of_int (current_group_id p)"
  "orig_vm (data_message c p now ty data) = addr (mac (c_local c)) ! 5"
  "orig_port (data_message c p now ty data) = port (c_local c)"
  "timestamp (data_message c p now ty data) = now"
  "mtype (data_message c p now ty data) = ty"
  "msg_id (data_message c p now ty data) = next_msg_id c"
  "body (data_message c p now ty data) = data"
  "control (data_message c p now ty data) = NONE"
  "msgac (data_message c p now ty data) = 0"
  by (simp_all add: data_message_def get_current_group_def new_message_def)

definition logged :: "communicator \<Rightarrow> world \<Rightarrow> string \<Rightarrow> world" where
  "logged c w line = (if log_is_open c then w\<lparr>log_out := log_out w @ [line]\<rparr> else w)"

lemma comm_send_eq:
  assumes "is_i32 ty"
  shows "comm_send c p w to ty data =
    (let m = data_message c p (next_time w) ty data
     in res_bind (send p (logged c (tick w) (message_line ''SEND'' (next_time w) m)) (c_local c) to
          (bytes_of_string (build_message m)))
        (\<lambda>(r, w'). Inr (r, c\<lparr>next_msg_id := next_msg_id c + 1\<rparr>, w')))"
  using assms by (simp add: comm_send_def log_message_line logged_def Let_def)

lemma send_message_eq:
  assumes "is_i32 (mtype m)"
  shows "send_message c p w to m =
    send p (logged c w (message_line ''SEND'' (timestamp m) m)) (c_local c) to (bytes_of_string (build_message m))"
  using assms by (simp add: send_message_def log_message_line logged_def)

lemma comm_send_total: "\<exists>r w'. comm_send c p w to ty data = Inr (r, c\<lparr>next_msg_id := next_msg_id c + 1\<rparr>, w')"
proof -
  let ?m = "data_message c p (next_time w) ty data"
  obtain r w' where "send p (log_message (c\<lparr>next_msg_id := next_msg_id c + 1\<rparr>) (tick w) ''SEND'' (next_time w) ?m)
      (c_local c) to (bytes_of_string (build_message ?m)) = Inr (r, w')"
    using send_total by blast
  then show ?thesis by (simp add: comm_send_def)
qed

lemma send_message_total: "\<exists>r w'. send_message c p w to m = Inr (r, w')"
  unfolding send_message_def Let_def by (rule send_total)

section \<open>Receiving\<close>

definition trim_body :: "message \<Rightarrow> message" where
  "trim_body m = m\<lparr>body := rtrim (ltrim (body m))\<rparr>"

lemma trim_body_id: "rtrim (ltrim (body m)) = body m \<Longrightarrow> trim_body m = m"
  by (simp add: trim_body_def)

text \<open>A message that was printed by the sender arrives in the queue and at every observer.\<close>

lemma on_packet_message:
  fixes frm to :: endpoint
  assumes "wf_message m" and "po_origin ob = origin"
  defines "r \<equiv> \<lparr>rx_msg = trim_body m, rx_from = frm, rx_to = to, rx_origin = origin\<rparr>"
  shows "on_packet ob c w frm to (bytes_of_string (build_message m)) origin =
    Inr (enqueue c r, logged c (tick w) (message_line ''RECV'' (next_time w) (trim_body m)),
      map (\<lambda>o'. (o', r)) (rx_observers c))"
proof -
  have "parse_message (bytes_of_string (build_message m)) = Inr m"
    by (rule parse_build_string [OF assms(1)]) simp
  moreover have "is_i32 (mtype (trim_body m))" using assms(1) by (simp add: wf_message_def trim_body_def)
  ultimately show ?thesis
    using assms(2) log_message_line [of "trim_body m" "''RECV''"]
    by (simp add: on_packet_def r_def logged_def Let_def flip: trim_body_def)
qed

lemma on_packet_other_origin: "po_origin ob \<noteq> origin \<Longrightarrow> on_packet ob c w frm to data origin = Inr (c, w, [])"
  by (simp add: on_packet_def)

section \<open>The queue\<close>

text \<open>A queue as its clients see it: entries come out in the order in which they went in.\<close>

locale fifo =
  fixes enq :: "'q \<Rightarrow> 'e \<Rightarrow> 'q"
    and deq :: "'q \<Rightarrow> ('e \<times> 'q) option"
    and contents :: "'q \<Rightarrow> 'e list"
  assumes contents_enq: "contents (enq q x) = contents q @ [x]"
    and deq_None: "deq q = None \<longleftrightarrow> contents q = []"
    and deq_Some: "deq q = Some (x, q') \<Longrightarrow> contents q = x # contents q'"
begin

primrec takes :: "nat \<Rightarrow> 'q \<Rightarrow> ('e list \<times> 'q) option" where
  "takes 0 q = Some ([], q)"
| "takes (Suc n) q = (case deq q of
     None \<Rightarrow> None
   | Some (x, q') \<Rightarrow> map_option (\<lambda>(xs, q''). (x # xs, q'')) (takes n q'))"

lemma contents_enqs: "contents (foldl enq q xs) = contents q @ xs"
  by (induction xs arbitrary: q) (simp_all add: contents_enq)

lemma takes_prefix:
  "n \<le> length (contents q) \<Longrightarrow> \<exists>q'. takes n q = Some (take n (contents q), q') \<and> contents q' = drop n (contents q)"
proof (induction n arbitrary: q)
  case (Suc n)
  then have "contents q \<noteq> []" by auto
  with deq_None [of q] obtain x q' where d: "deq q = Some (x, q')" by fastforce
  from deq_Some [OF this] Suc.prems have "contents q = x # contents q'" "n \<le> length (contents q')" by simp_all
  with Suc.IH [of q'] d show ?case by auto
qed simp

lemma takes_enqs:
  "contents q = [] \<Longrightarrow> \<exists>q'. takes (length xs) (foldl enq q xs) = Some (xs, q') \<and> contents q' = []"
  using takes_prefix [of "length xs" "foldl enq q xs"] by (simp add: contents_enqs)

end

interpretation rx_fifo: fifo enqueue receive rx_queue
  by unfold_locales (auto simp: enqueue_def receive_def split: list.splits)

lemma try_receive_receive:
  "try_receive c out = (case receive c of None \<Rightarrow> (False, out, c) | Some (r, c') \<Rightarrow> (True, r, c'))"
  by (simp add: try_receive_def receive_def split: list.splits)

text \<open>Packets that arrive one after the other at the same port observer.\<close>

fun on_packets :: "port_observer \<Rightarrow> communicator \<Rightarrow> world \<Rightarrow> (endpoint \<times> endpoint \<times> bytes) list \<Rightarrow> channel_origin \<Rightarrow>
    (communicator \<times> world) res" where
  "on_packets ob c w [] origin = Inr (c, w)"
| "on_packets ob c w ((frm, to, data) # ps) origin =
     res_bind (on_packet ob c w frm to data origin) (\<lambda>(c', w', _). on_packets ob c' w' ps origin)"

definition packet_of :: "endpoint \<times> endpoint \<times> message \<Rightarrow> endpoint \<times> endpoint \<times> bytes" where
  "packet_of x = (case x of (frm, to, m) \<Rightarrow> (frm, to, bytes_of_string (build_message m)))"

definition rx_of :: "channel_origin \<Rightarrow> endpoint \<times> endpoint \<times> message \<Rightarrow> rx" where
  "rx_of origin x = (case x of (frm, to, m) \<Rightarrow>
     \<lparr>rx_msg = trim_body m, rx_from = frm, rx_to = to, rx_origin = origin\<rparr>)"

lemma on_packets_queue:
  assumes "po_origin ob = origin" and "\<forall>(frm, to, m) \<in> set xs. wf_message m"
  shows "\<exists>w'. on_packets ob c w (map packet_of xs) origin = Inr (foldl enqueue c (map (rx_of origin) xs), w')"
  using assms(2)
proof (induction xs arbitrary: c w)
  case (Cons x xs)
  obtain frm to m where x: "x = (frm, to, m)" by (rule prod_cases3)
  with Cons.prems have "wf_message m" by simp
  note step = on_packet_message [OF this assms(1), of c w frm to]
  from Cons.prems have "\<forall>(frm, to, m) \<in> set xs. wf_message m" by simp
  from Cons.IH [OF this] show ?case by (simp add: x packet_of_def rx_of_def step)
qed simp

text \<open>C17: the communicator neither drops nor reorders what it receives. Whatever messages arrive, one packet
  after the other, they are all accepted, and as many calls of \<open>receive\<close> then return exactly these
  messages, with their endpoints and trimmed bodies, in the order of arrival.\<close>

theorem communicator_fifo:
  assumes "po_origin ob = origin" and "\<forall>(frm, to, m) \<in> set xs. wf_message m" and "rx_queue c = []"
  shows "\<exists>c' w' c''. on_packets ob c w (map packet_of xs) origin = Inr (c', w') \<and>
    rx_fifo.takes (length xs) c' = Some (map (rx_of origin) xs, c'') \<and> rx_queue c'' = []"
  using on_packets_queue [OF assms(1,2), of c w] rx_fifo.takes_enqs [OF assms(3), of "map (rx_of origin) xs"]
  by fastforce

theorem communicator_fifo_witness:
  "let c = \<lparr>c_local = default_endpoint, next_msg_id = 0, log_is_open = True, on_sync_done = False, rx_queue = [],
         rx_observers = [], eth_obs = None, shm_obs = None\<rparr>;
       xs = [(default_endpoint, default_endpoint, new_message\<lparr>body := '' brake! ''\<rparr>), (default_endpoint, default_endpoint, new_message)]
   in \<exists>c' w' c''. on_packets (shm_port_observer 102) c sample_world (map packet_of xs) SharedMemory = Inr (c', w') \<and>
     rx_fifo.takes 2 c' = Some (map (rx_of SharedMemory) xs, c'') \<and> body (rx_msg (rx_of SharedMemory (hd xs))) = ''brake!''"
proof -
  let ?c = "\<lparr>c_local = default_endpoint, next_msg_id = 0, log_is_open = True, on_sync_done = False, rx_queue = [],
         rx_observers = [], eth_obs = None, shm_obs = None\<rparr>"
  let ?xs = "[(default_endpoint, default_endpoint, new_message\<lparr>body := '' brake! ''\<rparr>), (default_endpoint, default_endpoint, new_message)]"
  have "\<forall>(frm, to, m) \<in> set ?xs. wf_message m" "po_origin (shm_port_observer 102) = SharedMemory"
    by (simp_all add: wf_message_def new_message_def is_i32_def control_of_int_def shm_port_observer_def)
  moreover have "rtrim (ltrim '' brake! '') = ''brake!''" by code_simp
  ultimately show ?thesis
    using communicator_fifo [of "shm_port_observer 102" SharedMemory ?xs ?c sample_world]
    by (simp add: rx_of_def trim_body_def numeral_2_eq_2) blast
qed

section \<open>Setting up and closing\<close>

lemma close_set_up:
  assumes "Some (eth_port_observer prt) \<notin> set (portObservers p)" and "Some (shm_port_observer prt) \<notin> set (portObservers p)"
  shows "snd (close_communicator (fst (set_up_port_observer c p prt)) (snd (set_up_port_observer c p prt))) = p"
  using assms
  by (simp add: close_communicator_def set_up_port_observer_def attach_port_def detach_port_def attach_def detach_def Let_def
      eth_port_observer_def shm_port_observer_def)

end
