(* ===== verification/Pub_Sub.thy ===== *)
theory Pub_Sub
  imports World
begin

text \<open>
  \<open>src/src/publish_subscriber.h\<close> and \<open>src/src/vehicle_sensor_codes.h\<close>: the data types a component can
  produce, the periodic subscriptions to them, and the waiting of the publisher thread.
\<close>

section \<open>State\<close>

text \<open>The enumeration has \<open>uint16_t\<close> as its underlying type, so a value without a name can occur.\<close>

datatype vehicle_data_type =
    ENGINE_RPM | VEHICLE_SPEED | ENGINE_TEMPERATURE | FUEL_LEVEL | BATTERY_VOLTAGE | OIL_PRESSURE
  | GPS_LOCATION | AMBIENT_TEMPERATURE | Unnamed_data u16

definition data_type_of :: "u16 \<Rightarrow> vehicle_data_type" where
  "data_type_of x =
     (if x = 1 then ENGINE_RPM else if x = 2 then VEHICLE_SPEED else if x = 3 then ENGINE_TEMPERATURE
      else if x = 4 then FUEL_LEVEL else if x = 5 then BATTERY_VOLTAGE else if x = 6 then OIL_PRESSURE
      else if x = 7 then GPS_LOCATION else if x = 8 then AMBIENT_TEMPERATURE else Unnamed_data x)"

record subscription =
  who :: string
  period_us :: u64
  next_due_us :: u64

text \<open>
  The unordered containers are lists in order of insertion; \<open>cap_order\<close> is the order in which the
  container walks over the capabilities, which the language leaves open.
\<close>

type_synonym sub_table = "(vehicle_data_type \<times> subscription list) list"

record publish_subscriber =
  capabilities :: "vehicle_data_type list"
  cap_order :: "vehicle_data_type list \<Rightarrow> vehicle_data_type list"
  subs :: sub_table

definition new_publish_subscriber :: "(vehicle_data_type list \<Rightarrow> vehicle_data_type list) \<Rightarrow> publish_subscriber" where
  "new_publish_subscriber ord = \<lparr>capabilities = [], cap_order = ord, subs = []\<rparr>"

definition add_capability :: "publish_subscriber \<Rightarrow> vehicle_data_type \<Rightarrow> publish_subscriber" where
  "add_capability ps t =
     ps\<lparr>capabilities := (if t \<in> set (capabilities ps) then capabilities ps else capabilities ps @ [t])\<rparr>"

definition remove_capability :: "publish_subscriber \<Rightarrow> vehicle_data_type \<Rightarrow> publish_subscriber" where
  "remove_capability ps t = ps\<lparr>capabilities := removeAll t (capabilities ps)\<rparr>"

definition supports :: "publish_subscriber \<Rightarrow> vehicle_data_type \<Rightarrow> bool" where
  "supports ps t \<longleftrightarrow> t \<in> set (capabilities ps)"

section \<open>Operations\<close>

text \<open>\<open>subs_[type]\<close> with an update of the list; a missing entry is created.\<close>

fun subs_at :: "vehicle_data_type \<Rightarrow> (subscription list \<Rightarrow> subscription list) \<Rightarrow> sub_table \<Rightarrow> sub_table" where
  "subs_at t f [] = [(t, f [])]"
| "subs_at t f ((k, v) # xs) = (if k = t then (k, f v) # xs else (k, v) # subs_at t f xs)"

text \<open>The first entry of the subscriber gets the new timing; without one, an entry is added.\<close>

fun put_subscription :: "string \<Rightarrow> u64 \<Rightarrow> u64 \<Rightarrow> subscription list \<Rightarrow> subscription list" where
  "put_subscription x period due [] = [\<lparr>who = x, period_us = period, next_due_us = due\<rparr>]"
| "put_subscription x period due (s # ss) =
     (if who s = x then s\<lparr>period_us := period, next_due_us := due\<rparr> # ss
      else s # put_subscription x period due ss)"

definition subscribe :: "publish_subscriber \<Rightarrow> world \<Rightarrow> vehicle_data_type \<Rightarrow> string \<Rightarrow> u64 \<Rightarrow>
    bool \<times> publish_subscriber \<times> world" where
  "subscribe ps w t x period =
     (if \<not> supports ps t \<or> period = 0 then (False, ps, w)
      else (let (subscribed_at_us, w1) = get_microseconds_now w
            in (True, ps\<lparr>subs := subs_at t (put_subscription x period (subscribed_at_us + period)) (subs ps)\<rparr>, w1)))"

definition is_due :: "u64 \<Rightarrow> subscription \<Rightarrow> bool" where
  "is_due now s \<longleftrightarrow> next_due_us s \<le> now"

definition advance :: "u64 \<Rightarrow> subscription \<Rightarrow> subscription" where
  "advance now s = (if is_due now s then s\<lparr>next_due_us := next_due_us s + period_us s\<rparr> else s)"

text \<open>The loop over the types to check.\<close>

fun collect_due :: "publish_subscriber \<Rightarrow> u64 \<Rightarrow> vehicle_data_type list \<Rightarrow> string list \<times> publish_subscriber" where
  "collect_due ps now [] = ([], ps)"
| "collect_due ps now (t # ts) =
     (if \<not> supports ps t then collect_due ps now ts
      else case map_of (subs ps) t of
          None \<Rightarrow> collect_due ps now ts
        | Some l \<Rightarrow>
            (let (due, ps') = collect_due (ps\<lparr>subs := subs_at t (map (advance now)) (subs ps)\<rparr>) now ts
             in (map who (filter (is_due now) l) @ due, ps')))"

definition get_due_subscribers :: "publish_subscriber \<Rightarrow> world \<Rightarrow> vehicle_data_type \<Rightarrow> bool \<Rightarrow>
    string list \<times> publish_subscriber \<times> world" where
  "get_due_subscribers ps w t allTypes =
     (let types_to_check = (if allTypes then cap_order ps (capabilities ps) else [t]);
          (now_us, w1) = get_microseconds_now w;
          (due, ps') = collect_due ps now_us types_to_check
      in (due, ps', w1))"

text \<open>The microseconds for which \<open>wait_until_next_due\<close> asks to sleep; 0 when it returns at once.\<close>

definition all_subs :: "publish_subscriber \<Rightarrow> subscription list" where
  "all_subs ps = concat (map snd (subs ps))"

definition next_due :: "publish_subscriber \<Rightarrow> u64" where
  "next_due ps = foldl (\<lambda>nd s. if next_due_us s < nd then next_due_us s else nd) (-1) (all_subs ps)"

definition wait_until_next_due :: "publish_subscriber \<Rightarrow> world \<Rightarrow> u64 \<times> world" where
  "wait_until_next_due ps w =
     (let (now_us, w1) = get_microseconds_now w
      in (if next_due ps = -1 then 1000000 else if now_us < next_due ps then next_due ps - now_us else 0, w1))"

section \<open>The table of subscriptions\<close>

lemma map_of_subs_at [simp]:
  "map_of (subs_at t f xs) = (map_of xs)(t \<mapsto> f (case map_of xs t of Some l \<Rightarrow> l | None \<Rightarrow> []))"
  by (induction t f xs rule: subs_at.induct) (auto simp: fun_eq_iff)

lemma fst_subs_at [simp]: "fst ` set (subs_at t f xs) = insert t (fst ` set xs)"
  by (induction t f xs rule: subs_at.induct) (auto simp: image_iff)

lemma distinct_subs_at [simp]: "distinct (map fst (subs_at t f xs)) \<longleftrightarrow> distinct (map fst xs)"
proof (induction t f xs rule: subs_at.induct)
  case (2 t f k v xs)
  have "set (map fst (subs_at t f xs)) = insert t (set (map fst xs))"
    using fst_subs_at [of t f xs] by (simp only: set_map)
  with 2 show ?case by auto
qed simp

lemma set_subs_at: "(k, v) \<in> set (subs_at t f xs) \<Longrightarrow> (k, v) \<in> set xs \<or> k = t \<and> (v = f [] \<or> (\<exists>u. (k, u) \<in> set xs \<and> v = f u))"
  by (induction t f xs rule: subs_at.induct) (auto split: if_splits)

text \<open>One entry per data type, one entry per subscriber, and no period of 0.\<close>

definition wf_list :: "subscription list \<Rightarrow> bool" where
  "wf_list l \<longleftrightarrow> distinct (map who l) \<and> (\<forall>s \<in> set l. period_us s \<noteq> 0)"

definition wf_pubsub :: "publish_subscriber \<Rightarrow> bool" where
  "wf_pubsub ps \<longleftrightarrow> distinct (map fst (subs ps)) \<and> (\<forall>(t, l) \<in> set (subs ps). wf_list l) \<and>
     distinct (capabilities ps)"

lemma who_put: "who ` set (put_subscription x period due l) = insert x (who ` set l)"
  by (induction x period due l rule: put_subscription.induct) auto

lemma wf_put: "wf_list l \<Longrightarrow> period \<noteq> 0 \<Longrightarrow> wf_list (put_subscription x period due l)"
proof (induction x period due l rule: put_subscription.induct)
  case (2 x period due s ss)
  have "set (map who (put_subscription x period due ss)) = insert x (set (map who ss))"
    by (simp add: who_put)
  with 2 show ?case by (auto simp: wf_list_def)
qed (simp add: wf_list_def)

lemma who_advance [simp]: "who (advance now s) = who s" "period_us (advance now s) = period_us s"
  by (simp_all add: advance_def)

lemma wf_advance: "wf_list l \<Longrightarrow> wf_list (map (advance now) l)"
  by (simp add: wf_list_def comp_def)

lemma wf_subs_at:
  assumes "wf_pubsub ps" and "\<And>l. wf_list l \<Longrightarrow> wf_list (f l)"
  shows "wf_pubsub (ps\<lparr>subs := subs_at t f (subs ps)\<rparr>)"
proof -
  have "wf_list (f [])" using assms(2) [of "[]"] by (simp add: wf_list_def)
  with assms show ?thesis
    by (auto simp: wf_pubsub_def dest!: set_subs_at)
qed

lemma collect_due_wf: "wf_pubsub ps \<Longrightarrow> wf_pubsub (snd (collect_due ps now ts))"
  by (induction ps now ts rule: collect_due.induct)
    (auto simp: case_prod_beta wf_subs_at [OF _ wf_advance] split: option.splits)

lemma collect_due_frame: "capabilities (snd (collect_due ps now ts)) = capabilities ps"
  by (induction ps now ts rule: collect_due.induct) (auto simp: case_prod_beta split: option.splits)

text \<open>The table of subscriptions stays well formed: after any subscription and any poll there is one
  entry per data type and one per subscriber, and no subscription has the period 0. A subscription is
  refused, without any effect, exactly when the type is not supported or the period is 0.\<close>

lemma pubsub_invariant:
  assumes "wf_pubsub ps"
  shows "wf_pubsub (fst (snd (subscribe ps w t x period))) \<and>
    wf_pubsub (fst (snd (get_due_subscribers ps w t allTypes))) \<and>
    wf_pubsub (add_capability ps t) \<and> wf_pubsub (remove_capability ps t) \<and>
    (fst (subscribe ps w t x period) \<longleftrightarrow> supports ps t \<and> period \<noteq> 0) \<and>
    (\<not> fst (subscribe ps w t x period) \<longrightarrow> subscribe ps w t x period = (False, ps, w))"
proof (intro conjI)
  have put: "period \<noteq> 0 \<Longrightarrow> wf_pubsub (ps\<lparr>subs := subs_at t (put_subscription x period due) (subs ps)\<rparr>)" for due
    using assms by (intro wf_subs_at) (auto intro: wf_put)
  then show "wf_pubsub (fst (snd (subscribe ps w t x period)))"
    using assms by (simp add: subscribe_def)
  show "wf_pubsub (fst (snd (get_due_subscribers ps w t allTypes)))"
    using collect_due_wf [OF assms] by (simp add: get_due_subscribers_def case_prod_beta Let_def)
  show "wf_pubsub (add_capability ps t)" "wf_pubsub (remove_capability ps t)"
    using assms by (simp_all add: wf_pubsub_def add_capability_def remove_capability_def distinct_removeAll)
qed (auto simp: subscribe_def)

section \<open>Polling\<close>

text \<open>The publisher asks for the due subscribers of a type again and again.\<close>

fun polls :: "nat \<Rightarrow> publish_subscriber \<Rightarrow> world \<Rightarrow> vehicle_data_type \<Rightarrow> string list \<times> publish_subscriber \<times> world" where
  "polls 0 ps w t = ([], ps, w)"
| "polls (Suc n) ps w t =
     (let (due, ps1, w1) = get_due_subscribers ps w t False;
          (due', ps', w') = polls n ps1 w1 t
      in (due @ due', ps', w'))"

lemma poll_one:
  assumes "supports ps t" and "map_of (subs ps) t = Some l"
  shows "get_due_subscribers ps w t False =
    (map who (filter (is_due (next_time w)) l),
     ps\<lparr>subs := subs_at t (map (advance (next_time w))) (subs ps)\<rparr>, tick w)"
  using assms by (simp add: get_due_subscribers_def)

lemma count_due:
  assumes "distinct (map who l)" and "s \<in> set l"
  shows "count_list (map who (filter P l)) (who s) = (if P s then 1 else 0)"
proof -
  have "count_list (map who (filter P l)) (who s) = 0" if "who s \<notin> set (map who l)" for l
    using that by (induction l) auto
  with assms show ?thesis by (induction l) auto
qed

lemma count_list_append' [simp]: "count_list (xs @ ys) x = count_list xs x + count_list ys x"
  by (induction xs) auto

lemma unat_next_due:
  assumes "is_due now s" and "unat now + unat (period_us s) < 2 ^ 64"
  shows "unat (next_due_us s + period_us s) = unat (next_due_us s) + unat (period_us s)"
proof -
  have "unat (next_due_us s) + unat (period_us s) < 2 ^ LENGTH(64)"
    using assms by (simp add: is_due_def word_le_nat_alt)
  then show ?thesis by (rule unat_add_lem [THEN iffD1])
qed

lemma polls_schedule:
  assumes "wf_list l" and "supports ps t" and "map_of (subs ps) t = Some l" and "s \<in> set l"
    and "\<And>i. i < n \<Longrightarrow> unat (microseconds (gettimeofday w (readings w + i))) + unat (period_us s) < 2 ^ 64"
    and "polls n ps w t = (out, ps', w')"
  shows "\<exists>l' s'. map_of (subs ps') t = Some l' \<and> s' \<in> set l' \<and> who s' = who s \<and> period_us s' = period_us s \<and>
    unat (next_due_us s') = unat (next_due_us s) + count_list out (who s) * unat (period_us s) \<and>
    (0 < count_list out (who s) \<longrightarrow> (\<exists>i<n. unat (next_due_us s) + (count_list out (who s) - 1) * unat (period_us s) \<le>
       unat (microseconds (gettimeofday w (readings w + i)))))"
  using assms
proof (induction n arbitrary: ps w l s out)
  case 0
  then show ?case by auto
next
  case (Suc n)
  let ?now = "next_time w" and ?s = "advance (next_time w) s"
  let ?l = "map (advance ?now) l" and ?ps = "ps\<lparr>subs := subs_at t (map (advance ?now)) (subs ps)\<rparr>"
  obtain due' where p: "polls n ?ps (tick w) t = (due', ps', w')"
    and out: "out = map who (filter (is_due ?now) l) @ due'"
    using Suc.prems(6) poll_one [OF Suc.prems(2,3), of w] by (auto split: prod.splits)
  have "wf_list ?l" "supports ?ps t" "map_of (subs ?ps) t = Some ?l" "?s \<in> set ?l"
    using Suc.prems by (simp_all add: wf_advance supports_def)
  moreover have "unat (microseconds (gettimeofday (tick w) (readings (tick w) + i))) + unat (period_us ?s) < 2 ^ 64" if "i < n" for i
    using Suc.prems(5) [of "Suc i"] that by simp
  ultimately obtain l' s' where ih: "map_of (subs ps') t = Some l'" "s' \<in> set l'" "who s' = who s" "period_us s' = period_us s"
    "unat (next_due_us s') = unat (next_due_us ?s) + count_list due' (who s) * unat (period_us s)"
    "0 < count_list due' (who s) \<longrightarrow> (\<exists>i<n. unat (next_due_us ?s) + (count_list due' (who s) - 1) * unat (period_us s) \<le>
       unat (microseconds (gettimeofday w (readings w + Suc i))))"
    using Suc.IH [OF _ _ _ _ _ p, of ?l ?s] by auto
  have count: "count_list out (who s) = (if is_due ?now s then 1 else 0) + count_list due' (who s)"
    using count_due [of l s "is_due ?now"] Suc.prems(1,4) by (simp add: out wf_list_def)
  show ?case
  proof (cases "is_due ?now s")
    case True
    then have next': "unat (next_due_us ?s) = unat (next_due_us s) + unat (period_us s)"
      using unat_next_due [OF True] Suc.prems(5) [of 0] by (simp add: advance_def)
    have "\<exists>i<Suc n. unat (next_due_us s) + (count_list out (who s) - 1) * unat (period_us s) \<le>
       unat (microseconds (gettimeofday w (readings w + i)))"
    proof (cases "count_list due' (who s)")
      case 0
      with True count show ?thesis by (intro exI [of _ 0]) (simp add: is_due_def word_le_nat_alt)
    next
      case (Suc k)
      with ih(6) obtain i where "i < n" "unat (next_due_us ?s) + k * unat (period_us s) \<le>
         unat (microseconds (gettimeofday w (readings w + Suc i)))" by auto
      with next' True count Suc show ?thesis by (intro exI [of _ "Suc i"]) simp
    qed
    with ih next' count True show ?thesis by (intro exI [of _ l'] exI [of _ s']) simp
  next
    case False
    then have "?s = s" by (simp add: advance_def)
    with ih count False show ?thesis
      by (intro exI [of _ l'] exI [of _ s']) (auto intro: exI [of _ "Suc _"])
  qed
qed

text \<open>C15: periodic publication neither drifts nor runs ahead. However often and at whatever times the due
  subscribers of a type are polled (before the 64-bit clock runs out), a subscriber that was reported
  \<open>k\<close> times has its next due time exactly \<open>k\<close> periods after the first one, and the
  \<open>k\<close>-th report came from a poll at or after the first due time plus \<open>k - 1\<close> periods.\<close>

theorem publication_schedule:
  assumes "wf_pubsub ps" and "supports ps t" and "map_of (subs ps) t = Some l" and "s \<in> set l"
    and "\<And>i. i < n \<Longrightarrow> unat (microseconds (gettimeofday w (readings w + i))) + unat (period_us s) < 2 ^ 64"
    and "polls n ps w t = (out, ps', w')"
  defines "k \<equiv> count_list out (who s)"
  shows "\<exists>l' s'. map_of (subs ps') t = Some l' \<and> s' \<in> set l' \<and> who s' = who s \<and>
    unat (next_due_us s') = unat (next_due_us s) + k * unat (period_us s) \<and>
    (0 < k \<longrightarrow> (\<exists>i<n. unat (next_due_us s) + (k - 1) * unat (period_us s) \<le>
       unat (microseconds (gettimeofday w (readings w + i)))))"
proof -
  have "wf_list l"
    using assms(1) map_of_SomeD [OF assms(3)] by (auto simp: wf_pubsub_def)
  note p = polls_schedule [OF this assms(2-4) _ assms(6)]
  have "\<exists>l' s'. map_of (subs ps') t = Some l' \<and> s' \<in> set l' \<and> who s' = who s \<and> period_us s' = period_us s \<and>
    unat (next_due_us s') = unat (next_due_us s) + k * unat (period_us s) \<and>
    (0 < k \<longrightarrow> (\<exists>i<n. unat (next_due_us s) + (k - 1) * unat (period_us s) \<le>
       unat (microseconds (gettimeofday w (readings w + i)))))"
    unfolding k_def by (rule p) (rule assms(5))
  then show ?thesis by (elim exE conjE) (intro exI conjI; assumption)
qed

theorem publication_schedule_witness:
  "let ps = \<lparr>capabilities = [ENGINE_RPM], cap_order = id,
         subs = [(ENGINE_RPM, [\<lparr>who = ''102'', period_us = 500, next_due_us = 1000\<rparr>])]\<rparr>;
       w = idle_world (\<lambda>_. \<lparr>tv_sec = 0, tv_usec = 1600\<rparr>);
       (out, ps', w') = polls (Suc (Suc 0)) ps w ENGINE_RPM
   in out = [''102'', ''102''] \<and> (\<exists>l' s'. map_of (subs ps') ENGINE_RPM = Some l' \<and> s' \<in> set l' \<and>
        unat (next_due_us s') = 2000)"
proof -
  let ?s = "\<lparr>who = ''102'', period_us = 500, next_due_us = 1000\<rparr>"
  let ?ps = "\<lparr>capabilities = [ENGINE_RPM], cap_order = id, subs = [(ENGINE_RPM, [?s])]\<rparr>"
  let ?w = "idle_world (\<lambda>_. \<lparr>tv_sec = 0, tv_usec = 1600\<rparr>)"
  obtain out ps' w' where r: "polls (Suc (Suc 0)) ?ps ?w ENGINE_RPM = (out, ps', w')" by (rule prod_cases3)
  have m: "microseconds \<lparr>tv_sec = 0, tv_usec = 1600\<rparr> = 1600" by (simp add: microseconds_def)
  from r have out: "out = [''102'', ''102'']"
    by (simp add: get_due_subscribers_def supports_def idle_world_def m is_due_def advance_def)
  have "unat (microseconds (gettimeofday ?w (readings ?w + i))) + unat (period_us ?s) < 2 ^ 64" if "i < Suc (Suc 0)" for i
    by (simp add: idle_world_def m)
  moreover have "wf_pubsub ?ps" by (simp add: wf_pubsub_def wf_list_def)
  ultimately show ?thesis
    using publication_schedule [OF _ _ _ _ _ r, of "[?s]" ?s] r out by (auto simp: supports_def)
qed

section \<open>Waiting\<close>

abbreviation earliest :: "u64 \<Rightarrow> subscription list \<Rightarrow> u64" where
  "earliest a l \<equiv> foldl (\<lambda>nd s. if next_due_us s < nd then next_due_us s else nd) a l"

lemma earliest_le: "earliest a l \<le> a"
proof (induction l arbitrary: a)
  case (Cons s l)
  from Cons [of "next_due_us s"] Cons [of a] show ?case by (auto intro: order_trans)
qed simp

lemma earliest_lower: "s \<in> set l \<Longrightarrow> earliest a l \<le> next_due_us s"
proof (induction l arbitrary: a)
  case (Cons x l)
  show ?case
  proof (cases "s = x")
    case True
    have "earliest (if next_due_us x < a then next_due_us x else a) l \<le> (if next_due_us x < a then next_due_us x else a)"
      by (rule earliest_le)
    also have "\<dots> \<le> next_due_us s" using True by (simp add: not_less)
    finally show ?thesis by simp
  next
    case False
    with Cons show ?thesis by simp
  qed
qed simp

lemma earliest_in: "earliest a l = a \<or> (\<exists>s \<in> set l. earliest a l = next_due_us s)"
proof (induction l arbitrary: a)
  case (Cons x l)
  from Cons [of "if next_due_us x < a then next_due_us x else a"] show ?case by (auto split: if_splits)
qed simp

text \<open>C16: the publisher sleeps exactly until the next subscriber is due. With at least one subscription
  (that is not due at the end of time), someone is due at a moment not before the call if and only if
  the time slept has passed; without any, it sleeps one second.\<close>

theorem wait_until_next_due_exact:
  assumes "wait_until_next_due ps w = (d, w')"
  shows "(if \<exists>s \<in> set (all_subs ps). next_due_us s \<noteq> -1
     then \<forall>T. next_time w \<le> T \<longrightarrow> T \<noteq> -1 \<longrightarrow>
       ((\<exists>s \<in> set (all_subs ps). is_due T s) \<longleftrightarrow> unat (next_time w) + unat d \<le> unat T)
     else d = 1000000) \<and> w' = tick w"
proof -
  let ?S = "set (all_subs ps)" and ?now = "next_time w"
  have le: "next_due ps \<le> next_due_us s" if "s \<in> ?S" for s
    using earliest_lower [OF that] by (simp add: next_due_def)
  have max: "x = -1" if "- 1 \<le> x" for x :: u64
    using that by (metis word_n1_ge order_antisym)
  show ?thesis
  proof (cases "\<exists>s \<in> ?S. next_due_us s \<noteq> -1")
    case True
    then obtain s where "s \<in> ?S" "next_due_us s \<noteq> -1" by blast
    with le max have nd: "next_due ps \<noteq> -1" by metis
    with earliest_in [of "-1" "all_subs ps"] obtain s0 where s0: "s0 \<in> ?S" "next_due_us s0 = next_due ps"
      by (auto simp: next_due_def)
    have due: "(\<exists>s \<in> ?S. is_due T s) \<longleftrightarrow> next_due ps \<le> T" for T
      using le s0 by (metis is_due_def order_trans)
    have sleep: "unat ?now + unat d \<le> unat T \<longleftrightarrow> next_due ps \<le> T" if "?now \<le> T" for T
    proof (cases "?now < next_due ps")
      case True
      then have "d = next_due ps - ?now"
        using assms nd by (simp add: wait_until_next_due_def)
      with True have "unat d = unat (next_due ps) - unat ?now"
        by (simp add: unat_sub)
      with True show ?thesis by (simp add: word_le_nat_alt word_less_nat_alt)
    next
      case False
      with assms nd have "d = 0" by (simp add: wait_until_next_due_def)
      with that False show ?thesis by (auto simp: word_le_nat_alt not_less)
    qed
    show ?thesis using True due sleep assms nd by (auto simp: wait_until_next_due_def)
  next
    case False
    with earliest_in [of "-1" "all_subs ps"] have "next_due ps = -1" by (auto simp: next_due_def)
    with False assms show ?thesis by (simp add: wait_until_next_due_def)
  qed
qed

theorem wait_until_next_due_exact_witness:
  "wait_until_next_due (new_publish_subscriber id) (idle_world (\<lambda>_. \<lparr>tv_sec = 5, tv_usec = 0\<rparr>)) =
    (1000000, tick (idle_world (\<lambda>_. \<lparr>tv_sec = 5, tv_usec = 0\<rparr>)))"
proof -
  obtain d w' where "wait_until_next_due (new_publish_subscriber id) (idle_world (\<lambda>_. \<lparr>tv_sec = 5, tv_usec = 0\<rparr>)) = (d, w')"
    by (rule prod.exhaust)
  with wait_until_next_due_exact [OF this] show ?thesis
    by (simp add: all_subs_def new_publish_subscriber_def)
qed

end
