(* ===== verification/Car_Component.thy ===== *)
theory Car_Component
  imports Communicator Pub_Sub
begin

text \<open>
  \<open>src/src/car_component.h\<close> and \<open>src/src/ports.h\<close>: the base class of the components of a car. A
  component is a process with its own card, protocol and communicator; it publishes data to
  subscribers, sends text to ports of its own car, and forwards messages between the bus and the
  network. The process is driven by packets of the network, messages of the bus and a periodic tick.
\<close>

section \<open>State\<close>

definition GATEWAY_PORT :: u16 where "GATEWAY_PORT = -1"
definition POWERTRAIN_PORT :: u16 where "POWERTRAIN_PORT = 101"
definition BRAKE_PORT :: u16 where "BRAKE_PORT = 102"
definition STEERING_PORT :: u16 where "STEERING_PORT = 103"
definition TRANSMISSION_PORT :: u16 where "TRANSMISSION_PORT = 104"
definition AIRBAG_PORT :: u16 where "AIRBAG_PORT = 105"

definition ETYPE :: u16 where "ETYPE = 0x123"

text \<open>A \<open>double\<close> is a sign, a significand and a power of two, or not finite.\<close>

datatype cdouble = Finite bool nat int | Infinite bool | Not_a_number bool

datatype vehicle_value = V_int int | V_double cdouble | V_string string | V_bool bool

record vehicle_data =
  vtype :: vehicle_data_type
  vvalue :: vehicle_value

record car_component =
  cc_name :: string
  cc_port :: u16
  my_mac :: address
  cc_local :: endpoint
  to_gate :: endpoint
  to_bcast :: endpoint
  peer_ports :: "u16 list"
  pub_sub :: publish_subscriber
  cc_data :: "(vehicle_data_type \<times> vehicle_data) list" \<comment> \<open>in the order in which the container walks\<close>
  cc_protocol :: protocol
  cc_comm :: communicator
  cc_vm_id :: int
  assigned_group :: int

definition new_car_component :: "u16 \<Rightarrow> string \<Rightarrow> protocol \<Rightarrow> communicator \<Rightarrow> publish_subscriber \<Rightarrow> car_component" where
  "new_car_component my_port nm p cm ps = \<lparr>cc_name = nm, cc_port = my_port, my_mac = zero_address,
     cc_local = default_endpoint, to_gate = default_endpoint, to_bcast = default_endpoint, peer_ports = [],
     pub_sub = ps, cc_data = [], cc_protocol = p, cc_comm = cm, cc_vm_id = -1, assigned_group = -1\<rparr>"

section \<open>Printing values\<close>

definition round_half_even :: "nat \<Rightarrow> nat \<Rightarrow> nat" where
  "round_half_even n d =
     (let q = n div d; r = n mod d in if 2 * r < d \<or> 2 * r = d \<and> even q then q else Suc q)"

definition pad6 :: "string \<Rightarrow> string" where
  "pad6 s = replicate (6 - length s) CHR ''0'' @ s"

text \<open>\<open>std::to_string(double)\<close>, which prints with \<open>%f\<close>.\<close>

definition show_double :: "cdouble \<Rightarrow> string" where
  "show_double d = (case d of
      Finite neg m e \<Rightarrow>
        (let v = (if 0 \<le> e then m * 2 ^ nat e * 10 ^ 6 else round_half_even (m * 10 ^ 6) (2 ^ nat (- e)))
         in (if neg then ''-'' else '''') @ show_nat (v div 10 ^ 6) @ ''.'' @ pad6 (show_nat (v mod 10 ^ 6)))
    | Infinite neg \<Rightarrow> (if neg then ''-inf'' else ''inf'')
    | Not_a_number neg \<Rightarrow> (if neg then ''-nan'' else ''nan''))"

definition vehicle_data_to_string :: "vehicle_data \<Rightarrow> string" where
  "vehicle_data_to_string d = (case vvalue d of
      V_int i \<Rightarrow> show_int i
    | V_double x \<Rightarrow> show_double x
    | V_string s \<Rightarrow> s
    | V_bool b \<Rightarrow> (if b then ''true'' else ''false''))"

section \<open>Initialisation\<close>

text \<open>
  The engine, the log file and the order of the unordered containers come from outside. The protocol
  object that is created replaces the one in the record.
\<close>

definition initialize_communicator :: "engine_ethernet \<Rightarrow> (string \<Rightarrow> bool) \<Rightarrow> (int list \<Rightarrow> int list) \<Rightarrow> bool \<Rightarrow>
    'a car_component_scheme \<Rightarrow> 'a car_component_scheme res" where
  "initialize_communicator e can_open ord is_master_node c =
     (let m = eng_mac e;
          n = new_nic (if is_master_node then Some e else None) m;
          p = new_protocol n ETYPE ord;
          me = Endpoint m (cc_port c)
      in res_bind (new_communicator can_open me) (\<lambda>cm.
         let (cm', p') = set_up_port_observer (comm_attach cm 0) p (if is_master_node then -1 else cc_port c)
         in Inr (c\<lparr>my_mac := m, cc_local := me, to_gate := Endpoint m GATEWAY_PORT,
                  to_bcast := Endpoint BROADCAST GATEWAY_PORT, cc_protocol := p', cc_comm := cm'\<rparr>)))"

text \<open>\<open>initialize\<close> up to the start of the threads.\<close>

definition initialize :: "engine_ethernet \<Rightarrow> (string \<Rightarrow> bool) \<Rightarrow> (int list \<Rightarrow> int list) \<Rightarrow> bool \<Rightarrow> int \<Rightarrow>
    'a car_component_scheme \<times> world \<Rightarrow> ('a car_component_scheme \<times> world) res" where
  "initialize e can_open ord is_master_node gid s = (case s of (c, w) \<Rightarrow>
     res_bind (initialize_communicator e can_open ord is_master_node c) (\<lambda>c1.
     let vm = to_signed 8 (uint (addr (mac (cc_local c1)) ! 5))
     in res_bind (set_current_group (cc_protocol c1) w gid) (\<lambda>(p, w1).
        Inr (c1\<lparr>cc_vm_id := vm, assigned_group := cdiv vm 10, cc_protocol := p\<rparr>, w1))))"

definition register_with_coordinator :: "bool \<Rightarrow> 'a car_component_scheme \<times> world \<Rightarrow>
    ('a car_component_scheme \<times> world) res" where
  "register_with_coordinator is_master_node s = (case s of (c, w) \<Rightarrow>
     if is_master_node then Inr (c, w)
     else
       res_bind (coordinator_for_group (get_current_group (cc_protocol c))) (\<lambda>coord_vm.
       res_bind (endpoint_from_vm coord_vm (port (cc_local c))) (\<lambda>coordinator_ep.
       res_bind (send_control (cc_protocol c) w (cc_local c) coordinator_ep GROUP_REGISTER 0
           (''VM_ID='' @ show_int (cc_vm_id c))) (\<lambda>(_, w1). Inr (c, w1)))))"

text \<open>\<open>None\<close> while the thread has to wait.\<close>

definition wait_for_ack_from_coordinator :: "bool \<Rightarrow> 'a car_component_scheme \<Rightarrow> 'a car_component_scheme option" where
  "wait_for_ack_from_coordinator is_master_node c =
     (if is_master_node then Some c
      else if get_current_group (cc_protocol c) = assigned_group c
        then Some (c\<lparr>assigned_group := get_current_group (cc_protocol c)\<rparr>) else None)"

definition set_peer_ports :: "u16 list \<Rightarrow> 'a car_component_scheme \<Rightarrow> 'a car_component_scheme" where
  "set_peer_ports ports c = c\<lparr>peer_ports := filter (\<lambda>p. p \<noteq> cc_port c) ports\<rparr>"

section \<open>Sending\<close>

definition comp_send :: "'a car_component_scheme \<Rightarrow> world \<Rightarrow> endpoint \<Rightarrow> string \<Rightarrow>
    (int \<times> 'a car_component_scheme \<times> world) res" where
  "comp_send c w to data =
     res_bind (comm_send (cc_comm c) (cc_protocol c) w to (uint (cc_port c)) data)
       (\<lambda>(r, cm, w'). Inr (r, c\<lparr>cc_comm := cm\<rparr>, w'))"

definition send_local :: "'a car_component_scheme \<Rightarrow> world \<Rightarrow> string \<Rightarrow> (int \<times> 'a car_component_scheme \<times> world) res" where
  "send_local c w s = (case (str_find s ''TO='' 0, str_find s ''DATA='' 0) of
      (Some pos_to, Some pos_data) \<Rightarrow>
        res_bind (substr s (pos_to + 3) (unat (of_nat pos_data - of_nat pos_to - 4 :: u64))) (\<lambda>port_str.
        res_bind (stoi port_str) (\<lambda>i.
        res_bind (substr s (pos_data + 5) (length s)) (\<lambda>payload.
        comp_send c w (Endpoint (my_mac c) (word_of_int i)) payload)))
    | _ \<Rightarrow> comp_send c w (to_gate c) s)"

definition forwarded :: "'a car_component_scheme \<Rightarrow> rx \<Rightarrow> int \<Rightarrow> message" where
  "forwarded c r my_id = (rx_msg r)\<lparr>group_id := word_of_int (get_current_group (cc_protocol c)),
     orig_vm := word_of_int my_id, orig_port := cc_port c\<rparr>"

definition forward_message :: "'a car_component_scheme \<Rightarrow> world \<Rightarrow> rx \<Rightarrow> int \<Rightarrow> world res" where
  "forward_message c w r my_id =
     (let (send_time, w1) = get_microseconds_now w
      in res_bind (send_message (cc_comm c) (cc_protocol c) w1 (to_bcast c)
           ((forwarded c r my_id)\<lparr>timestamp := send_time\<rparr>)) (\<lambda>(_, w2). Inr w2))"

fun fanout_ports :: "'a car_component_scheme \<Rightarrow> world \<Rightarrow> message \<Rightarrow> u16 list \<Rightarrow> world res" where
  "fanout_ports c w m [] = Inr w"
| "fanout_ports c w m (p # ps) =
     (let (send_time, w1) = get_microseconds_now w
      in res_bind (send_message (cc_comm c) (cc_protocol c) w1 (Endpoint (my_mac c) p) (m\<lparr>timestamp := send_time\<rparr>))
           (\<lambda>(_, w2). fanout_ports c w2 m ps))"

definition fanout_message :: "'a car_component_scheme \<Rightarrow> world \<Rightarrow> rx \<Rightarrow> int \<Rightarrow> world res" where
  "fanout_message c w r my_id = fanout_ports c w (forwarded c r my_id) (peer_ports c)"

section \<open>Subscriptions\<close>

text \<open>The value that follows a key up to the next blank.\<close>

definition subs_value :: "string \<Rightarrow> nat \<Rightarrow> nat \<Rightarrow> string res" where
  "subs_value s p n =
     (let e = (case str_find s '' '' p of None \<Rightarrow> length s | Some e \<Rightarrow> e) in substr s (p + n) (e - (p + n)))"

definition digest_subs :: "'a car_component_scheme \<Rightarrow> world \<Rightarrow> rx \<Rightarrow> (bool \<times> 'a car_component_scheme \<times> world) res" where
  "digest_subs c w r =
     (let s = body (rx_msg r)
      in case (str_find s ''SUBS='' 0, str_find s ''SUBS_TYPE='' 0, str_find s ''SUBS_PERIOD='' 0) of
          (Some p1, Some p2, Some p3) \<Rightarrow>
            res_bind (subs_value s p1 5) (\<lambda>subscriber.
            res_bind (subs_value s p2 10) (\<lambda>t.
            res_bind (stoi t) (\<lambda>i.
            res_bind (subs_value s p3 12) (\<lambda>d.
            res_bind (stoull d) (\<lambda>period.
            let dtype = data_type_of (word_of_int i)
            in if supports (pub_sub c) dtype
               then (let (_, ps, w1) = subscribe (pub_sub c) w dtype subscriber period in Inr (True, c\<lparr>pub_sub := ps\<rparr>, w1))
               else Inr (True, c, w))))))
        | _ \<Rightarrow> Inr (False, c, w))"

fun send_due :: "'a car_component_scheme \<Rightarrow> world \<Rightarrow> string list \<Rightarrow> string \<Rightarrow> ('a car_component_scheme \<times> world) res" where
  "send_due c w [] text = Inr (c, w)"
| "send_due c w (x # xs) text =
     res_bind (send_local c w (''TO='' @ x @ '' DATA='' @ text)) (\<lambda>(_, c1, w1). send_due c1 w1 xs text)"

fun publish_all :: "'a car_component_scheme \<Rightarrow> world \<Rightarrow> (vehicle_data_type \<times> vehicle_data) list \<Rightarrow>
    ('a car_component_scheme \<times> world) res" where
  "publish_all c w [] = Inr (c, w)"
| "publish_all c w ((t, d) # ds) =
     (let (due, ps, w1) = get_due_subscribers (pub_sub c) w t False
      in res_bind (send_due (c\<lparr>pub_sub := ps\<rparr>) w1 due (vehicle_data_to_string d)) (\<lambda>(c2, w2). publish_all c2 w2 ds))"

text \<open>One round of \<open>publisher_loop\<close>, with the time it sleeps first.\<close>

definition publisher_round :: "'a car_component_scheme \<Rightarrow> world \<Rightarrow> (u64 \<times> 'a car_component_scheme \<times> world) res" where
  "publisher_round c w =
     (let (d, w1) = wait_until_next_due (pub_sub c) w
      in res_bind (publish_all c w1 (cc_data c)) (\<lambda>(c', w'). Inr (d, c', w')))"

section \<open>The process\<close>

definition on_receive :: "rx \<Rightarrow> channel_origin \<Rightarrow> 'a car_component_scheme \<times> world \<Rightarrow> ('a car_component_scheme \<times> world) res" where
  "on_receive r origin s = (case s of (c, w) \<Rightarrow> res_bind (digest_subs c w r) (\<lambda>(_, s'). Inr s'))"

text \<open>
  The calls the protocol makes into the upper layers, carried out: \<open>on_rx\<close> is the class's
  \<open>on_receive\<close> (called through \<open>update\<close>), \<open>on_go\<close> its reaction to the end of the start barrier.
\<close>

definition comm_observer :: "communicator \<Rightarrow> nat \<Rightarrow> port_observer option" where
  "comm_observer cm i = List.find (\<lambda>ob. po_id ob = i) (List.map_filter id [eth_obs cm, shm_obs cm])"

definition run_upcall :: "(rx \<Rightarrow> channel_origin \<Rightarrow> 'a car_component_scheme \<times> world \<Rightarrow> ('a car_component_scheme \<times> world) res) \<Rightarrow>
    ('a car_component_scheme \<Rightarrow> 'a car_component_scheme) \<Rightarrow> upcall \<Rightarrow>
    'a car_component_scheme \<times> world \<Rightarrow> ('a car_component_scheme \<times> world) res" where
  "run_upcall on_rx on_go u s = (case s of (c, w) \<Rightarrow> (case u of
      Sync_done \<Rightarrow> Inr (on_go c, w)
    | On_control i ct frm to \<Rightarrow> Inr (if on_control (cc_comm c) ct then on_go c else c, w)
    | On_packet i frm to data origin \<Rightarrow> (case comm_observer (cc_comm c) i of
          None \<Rightarrow> Inr (c, w)
        | Some ob \<Rightarrow>
            res_bind (on_packet ob (cc_comm c) w frm to data origin) (\<lambda>(cm, w1, rs).
              notify (\<lambda>(o', r). on_rx r origin) rs (c\<lparr>cc_comm := cm\<rparr>, w1)))))"

definition comp_deliver :: "(rx \<Rightarrow> channel_origin \<Rightarrow> 'a car_component_scheme \<times> world \<Rightarrow> ('a car_component_scheme \<times> world) res) \<Rightarrow>
    ('a car_component_scheme \<Rightarrow> 'a car_component_scheme) \<Rightarrow> node_state res \<Rightarrow>
    'a car_component_scheme \<Rightarrow> ('a car_component_scheme \<times> world) res" where
  "comp_deliver on_rx on_go st c =
     res_bind st (\<lambda>(p, w, ups). notify (run_upcall on_rx on_go) ups (c\<lparr>cc_protocol := p\<rparr>, w))"

text \<open>What can happen to a process: a packet from the network, a message from the bus, a tick.\<close>

datatype event = Packet bytes | Bus_message int "bytes option" | Tick

definition comp_event :: "(rx \<Rightarrow> channel_origin \<Rightarrow> 'a car_component_scheme \<times> world \<Rightarrow> ('a car_component_scheme \<times> world) res) \<Rightarrow>
    ('a car_component_scheme \<Rightarrow> 'a car_component_scheme) \<Rightarrow>
    ('a car_component_scheme \<times> world \<Rightarrow> ('a car_component_scheme \<times> world) res) \<Rightarrow> event \<Rightarrow>
    'a car_component_scheme \<times> world \<Rightarrow> ('a car_component_scheme \<times> world) res" where
  "comp_event on_rx on_go on_tick ev s = (case s of (c, w) \<Rightarrow> (case ev of
      Packet pkt \<Rightarrow> comp_deliver on_rx on_go (receive_packets [pkt] (cc_protocol c, w, [])) c
    | Bus_message n msg \<Rightarrow> comp_deliver on_rx on_go (receive_blob n msg (cc_protocol c, w, [])) c
    | Tick \<Rightarrow> on_tick (c, w)))"

fun comp_events :: "(rx \<Rightarrow> channel_origin \<Rightarrow> 'a car_component_scheme \<times> world \<Rightarrow> ('a car_component_scheme \<times> world) res) \<Rightarrow>
    ('a car_component_scheme \<Rightarrow> 'a car_component_scheme) \<Rightarrow>
    ('a car_component_scheme \<times> world \<Rightarrow> ('a car_component_scheme \<times> world) res) \<Rightarrow> event list \<Rightarrow>
    'a car_component_scheme \<times> world \<Rightarrow> ('a car_component_scheme \<times> world) res" where
  "comp_events on_rx on_go on_tick [] s = Inr s"
| "comp_events on_rx on_go on_tick (ev # evs) s =
     res_bind (comp_event on_rx on_go on_tick ev s) (comp_events on_rx on_go on_tick evs)"

section \<open>Sending text\<close>

lemma find_sub_skip:
  assumes "x \<notin> set a"
  shows "find_sub (x # xs) (a @ b) = map_option ((+) (length a)) (find_sub (x # xs) b)"
  using assms
proof (induction a)
  case Nil
  then show ?case by (simp add: option.map_ident)
next
  case (Cons c a)
  then have "\<not> prefix (x # xs) (c # a @ b)" by simp
  with Cons show ?case by (simp add: option.map_comp comp_def)
qed

lemma digits_not_letter: "c \<in> set (show_word w) \<Longrightarrow> is_digit c"
  by (simp add: show_word_def)

lemma stoi_show_word: "stoi (show_word (w :: u16)) = Inr (uint w)"
proof -
  have "unat w < 2 ^ 16" using unsigned_less [of w] by simp
  moreover have "scan_number (show_word w) = Some (False, unat w, [])"
    using dropWhile_space_show_nat [of "unat w" "[]"] scan_sign_show_nat [of "unat w" "[]"]
      takeWhile_show_nat [of "unat w" "[]"] dropWhile_show_nat [of "unat w" "[]"]
    by (simp add: scan_number_def show_word_def)
  ultimately show ?thesis by (simp add: stoi_def signed_val_def is_i32_def)
qed

lemma send_local_to:
  "send_local c w (''TO='' @ show_word (prt :: u16) @ '' DATA='' @ payload) = comp_send c w (Endpoint (my_mac c) prt) payload"
proof -
  let ?n = "length (show_word prt)" and ?s = "''TO='' @ show_word prt @ '' DATA='' @ payload"
  have s: "?s = (''TO='' @ show_word prt @ '' '') @ ''DATA='' @ payload" by simp
  have no_D: "CHR ''D'' \<notin> set (''TO='' @ show_word prt @ '' '')"
    using digits_not_letter [of "CHR ''D''" prt] by (auto simp: is_digit_def)
  have to: "str_find ?s ''TO='' 0 = Some 0"
    by (simp add: str_find_def)
  have "find_sub ''DATA='' ?s = Some (?n + 4)"
    unfolding s by (subst find_sub_skip [OF no_D]) simp
  then have data: "str_find ?s ''DATA='' 0 = Some (?n + 4)" by (simp add: str_find_def)
  have n: "?n \<le> 5" by (rule length_show_word(2))
  have "unat (of_nat (?n + 4) - of_nat 0 - 4 :: u64) = ?n"
    using n by (simp add: unat_of_nat)
  moreover have "substr ?s (0 + 3) ?n = Inr (show_word prt)"
    by (simp add: substr_def)
  moreover have "drop (?n + 4 + 5) ?s = payload"
    by (simp add: numeral_eq_Suc)
  then have "substr ?s (?n + 4 + 5) (length ?s) = Inr payload"
    by (simp add: substr_def del: drop_append)
  ultimately show ?thesis
    unfolding send_local_def to data by (simp add: stoi_show_word del: of_nat_add)
qed

lemma send_local_gateway:
  assumes "str_find s ''TO='' 0 = None \<or> str_find s ''DATA='' 0 = None"
  shows "send_local c w s = comp_send c w (to_gate c) s"
  using assms by (auto simp: send_local_def split: option.splits)

section \<open>What no event changes\<close>

definition comm_kept :: "communicator \<Rightarrow> communicator \<Rightarrow> bool" where
  "comm_kept cm cm' \<longleftrightarrow> c_local cm' = c_local cm \<and> log_is_open cm' = log_is_open cm \<and>
     on_sync_done cm' = on_sync_done cm \<and> rx_observers cm' = rx_observers cm \<and>
     eth_obs cm' = eth_obs cm \<and> shm_obs cm' = shm_obs cm \<and> prefix (rx_queue cm) (rx_queue cm')"

definition role_kept :: "protocol \<Rightarrow> protocol \<Rightarrow> bool" where
  "role_kept p p' \<longleftrightarrow> p_nic p' = p_nic p \<and> etherType p' = etherType p \<and> sync_total_vms p' = sync_total_vms p \<and>
     control_local p' = control_local p \<and> sync_done_callback p' = sync_done_callback p \<and> is_master p' = is_master p \<and>
     portObservers p' = portObservers p \<and> (sync_go_sent p \<longrightarrow> sync_go_sent p') \<and>
     (sync_go_received p \<longrightarrow> sync_go_received p') \<and> (wf_protocol p \<longrightarrow> wf_protocol p')"

definition comp_kept :: "'a car_component_scheme \<Rightarrow> 'a car_component_scheme \<Rightarrow> bool" where
  "comp_kept c c' \<longleftrightarrow> cc_name c' = cc_name c \<and> cc_port c' = cc_port c \<and> my_mac c' = my_mac c \<and>
     cc_local c' = cc_local c \<and> to_gate c' = to_gate c \<and> to_bcast c' = to_bcast c \<and>
     peer_ports c' = peer_ports c \<and> role_kept (cc_protocol c) (cc_protocol c') \<and> comm_kept (cc_comm c) (cc_comm c')"

lemma role_kept_refl [simp]: "role_kept p p"
  by (simp add: role_kept_def)

lemma role_kept_trans: "role_kept a b \<Longrightarrow> role_kept b c \<Longrightarrow> role_kept a c"
  by (auto simp: role_kept_def)

lemma good_step_role: "good_step p p' \<Longrightarrow> role_kept p p'"
  by (simp add: good_step_def same_config_def role_kept_def)

lemma comm_kept_refl [simp]: "comm_kept cm cm"
  by (simp add: comm_kept_def)

lemma comm_kept_trans: "comm_kept a b \<Longrightarrow> comm_kept b c \<Longrightarrow> comm_kept a c"
  by (auto simp: comm_kept_def)

lemma comp_kept_refl [simp]: "comp_kept c c"
  by (simp add: comp_kept_def)

lemma comp_kept_trans: "comp_kept a b \<Longrightarrow> comp_kept b c \<Longrightarrow> comp_kept a c"
  by (auto simp: comp_kept_def intro: role_kept_trans comm_kept_trans)

lemma comp_kept_comm: "comm_kept (cc_comm c) cm \<Longrightarrow> comp_kept c (c\<lparr>cc_comm := cm\<rparr>)"
  by (simp add: comp_kept_def)

lemma comp_kept_protocol: "role_kept (cc_protocol c) p \<Longrightarrow> comp_kept c (c\<lparr>cc_protocol := p\<rparr>)"
  by (simp add: comp_kept_def)

lemma on_packet_kept: "on_packet ob cm w frm to data origin = Inr (cm', w', rs) \<Longrightarrow> comm_kept cm cm'"
  by (auto simp: on_packet_def res_bind_Inr_iff Let_def enqueue_def comm_kept_def split: if_splits)

lemma comp_send_cases:
  assumes "comp_send c w to data = Inr (r, c', w')"
  shows "c' = c\<lparr>cc_comm := (cc_comm c)\<lparr>next_msg_id := next_msg_id (cc_comm c) + 1\<rparr>\<rparr>"
  using assms comm_send_total [of "cc_comm c" "cc_protocol c" w to "uint (cc_port c)" data]
  by (auto simp: comp_send_def)

text \<open>Sending uses up one message number and changes nothing else of the component.\<close>

lemma send_local_cases:
  assumes "send_local c w s = Inr (r, c', w')"
  shows "c' = c\<lparr>cc_comm := (cc_comm c)\<lparr>next_msg_id := next_msg_id (cc_comm c) + 1\<rparr>\<rparr>"
  using assms by (auto simp: send_local_def res_bind_Inr_iff dest: comp_send_cases split: option.splits)

lemma comp_kept_number: "comp_kept c (c\<lparr>cc_comm := (cc_comm c)\<lparr>next_msg_id := n\<rparr>\<rparr>)"
  by (simp add: comp_kept_def comm_kept_def)

lemma send_local_kept: "send_local c w s = Inr (r, c', w') \<Longrightarrow> comp_kept c c'"
  using comp_kept_number by (auto dest!: send_local_cases)

lemma digest_subs_kept: "digest_subs c w r = Inr (b, c', w') \<Longrightarrow> comp_kept c c'"
  by (auto simp: digest_subs_def res_bind_Inr_iff Let_def comp_kept_def split: option.splits if_splits prod.splits)

lemma receive_blob_good_step:
  assumes "receive_blob n msg (p, w, ups) = Inr (p', w', ups')"
  shows "good_step p p'"
proof -
  from assms obtain d where d: "(case d of To_nic f \<Rightarrow> nic_deliver (on_shm_frame (p_nic (fst (p, w, ups))) f) (p, w, ups) | _ \<Rightarrow> Inr (p, w, ups)) =
      Inr (p', w', ups')"
    unfolding receive_blob_def res_bind_Inr_iff by blast
  show ?thesis
    using d nic_deliver_ok [of p "(p, w, ups)"] by (cases d) (auto simp: node_ok_def)
qed

lemma receive_packets_good_step: "receive_packets pkts (p, w, ups) = Inr (p', w', ups') \<Longrightarrow> good_step p p'"
  using deliver_eth_ok [of p "(p, w, ups)"]
  by (auto simp: receive_packets_def node_ok_def split: option.splits)

text \<open>
  The classes derived from the base class: what they add must keep the base and their own invariant,
  and that invariant must not depend on the protocol and the communicator.
\<close>

locale component_class =
  fixes on_rx :: "rx \<Rightarrow> channel_origin \<Rightarrow> 'a car_component_scheme \<times> world \<Rightarrow> ('a car_component_scheme \<times> world) res"
    and on_go :: "'a car_component_scheme \<Rightarrow> 'a car_component_scheme"
    and on_tick :: "'a car_component_scheme \<times> world \<Rightarrow> ('a car_component_scheme \<times> world) res"
    and inv :: "'a car_component_scheme \<Rightarrow> bool"
  assumes rx_kept: "on_rx r origin (c, w) = Inr (c', w') \<Longrightarrow> comp_kept c c'"
    and rx_inv: "on_rx r origin (c, w) = Inr (c', w') \<Longrightarrow> inv c \<Longrightarrow> inv c'"
    and go_kept: "comp_kept c (on_go c)"
    and go_inv: "inv c \<Longrightarrow> inv (on_go c)"
    and tick_kept: "on_tick (c, w) = Inr (c', w') \<Longrightarrow> comp_kept c c'"
    and tick_inv: "on_tick (c, w) = Inr (c', w') \<Longrightarrow> inv c \<Longrightarrow> inv c'"
    and inv_base: "inv c \<Longrightarrow> inv (c\<lparr>cc_protocol := p, cc_comm := cm\<rparr>)"
begin

definition kept :: "'a car_component_scheme \<Rightarrow> 'a car_component_scheme \<times> world \<Rightarrow> bool" where
  "kept c0 s \<longleftrightarrow> comp_kept c0 (fst s) \<and> (inv c0 \<longrightarrow> inv (fst s))"

lemma kept_comm: "kept c0 (c, w) \<Longrightarrow> comm_kept (cc_comm c) cm \<Longrightarrow> kept c0 (c\<lparr>cc_comm := cm\<rparr>, w')"
  using inv_base [where c = c and p = "cc_protocol c" and cm = cm] by (auto simp: kept_def intro: comp_kept_trans comp_kept_comm)

lemma kept_protocol: "kept c0 (c, w) \<Longrightarrow> role_kept (cc_protocol c) p \<Longrightarrow> kept c0 (c\<lparr>cc_protocol := p\<rparr>, w')"
  using inv_base [where c = c and p = p and cm = "cc_comm c"] by (auto simp: kept_def intro: comp_kept_trans comp_kept_protocol)

lemma kept_rx: "kept c0 s \<Longrightarrow> on_rx r origin s = Inr s' \<Longrightarrow> kept c0 s'"
  by (cases s; cases s') (auto simp: kept_def intro: comp_kept_trans rx_kept rx_inv)

lemma kept_go: "kept c0 (c, w) \<Longrightarrow> kept c0 (on_go c, w)"
  by (auto simp: kept_def intro: comp_kept_trans go_kept go_inv)

lemma kept_notify_rx: "kept c0 s \<Longrightarrow> notify (\<lambda>(o', r). on_rx r origin) rs s = Inr s' \<Longrightarrow> kept c0 s'"
  by (induction rs arbitrary: s) (auto simp: res_bind_Inr_iff dest: kept_rx)

lemma kept_upcall:
  assumes "kept c0 s" and "run_upcall on_rx on_go u s = Inr s'"
  shows "kept c0 s'"
proof (cases u)
  case (On_packet i frm to data origin)
  show ?thesis
  proof (cases "comm_observer (cc_comm (fst s)) i")
    case None
    with assms On_packet show ?thesis by (cases s) (simp add: run_upcall_def)
  next
    case (Some ob)
    with assms(2) On_packet obtain cm w1 rs where
      p: "on_packet ob (cc_comm (fst s)) (snd s) frm to data origin = Inr (cm, w1, rs)"
      and n: "notify (\<lambda>(o', r). on_rx r origin) rs ((fst s)\<lparr>cc_comm := cm\<rparr>, w1) = Inr s'"
      by (cases s) (auto simp: run_upcall_def res_bind_Inr_iff)
    have "kept c0 ((fst s)\<lparr>cc_comm := cm\<rparr>, w1)"
      using kept_comm [of c0 "fst s" "snd s"] assms(1) on_packet_kept [OF p] by simp
    from kept_notify_rx [OF this n] show ?thesis .
  qed
qed (use assms in \<open>cases s; auto simp: run_upcall_def kept_go\<close>)+

lemma kept_upcalls: "kept c0 s \<Longrightarrow> notify (run_upcall on_rx on_go) us s = Inr s' \<Longrightarrow> kept c0 s'"
  by (induction us arbitrary: s) (auto simp: res_bind_Inr_iff dest: kept_upcall)

lemma kept_deliver:
  assumes "kept c0 (c, w)" and "\<And>p' w' us. st = Inr (p', w', us) \<Longrightarrow> good_step (cc_protocol c) p'"
    and "comp_deliver on_rx on_go st c = Inr s'"
  shows "kept c0 s'"
proof -
  from assms(3) obtain p' w' us where "st = Inr (p', w', us)"
    and n: "notify (run_upcall on_rx on_go) us (c\<lparr>cc_protocol := p'\<rparr>, w') = Inr s'"
    by (auto simp: comp_deliver_def res_bind_Inr_iff)
  with assms(2) good_step_role kept_protocol [OF assms(1)] have "kept c0 (c\<lparr>cc_protocol := p'\<rparr>, w')" by blast
  from kept_upcalls [OF this n] show ?thesis .
qed

lemma kept_event:
  assumes "kept c0 s" and "comp_event on_rx on_go on_tick ev s = Inr s'"
  shows "kept c0 s'"
proof (cases s)
  case (Pair c w)
  show ?thesis
  proof (cases ev)
    case (Packet pkt)
    with assms Pair show ?thesis
      by (auto simp: comp_event_def dest: receive_packets_good_step intro: kept_deliver)
  next
    case (Bus_message n msg)
    with assms Pair show ?thesis
      by (auto simp: comp_event_def dest: receive_blob_good_step intro: kept_deliver)
  next
    case Tick
    with assms Pair show ?thesis
      by (cases s') (auto simp: comp_event_def kept_def intro: comp_kept_trans tick_kept tick_inv)
  qed
qed

lemma events_kept:
  "comp_events on_rx on_go on_tick evs (c, w) = Inr (c', w') \<Longrightarrow> comp_kept c c' \<and> (inv c \<longrightarrow> inv c')"
proof -
  have "kept c s \<Longrightarrow> comp_events on_rx on_go on_tick evs s = Inr s' \<Longrightarrow> kept c s'" for s s'
    by (induction evs arbitrary: s) (auto simp: res_bind_Inr_iff dest: kept_event)
  from this [of "(c, w)" "(c', w')"]
  show "comp_events on_rx on_go on_tick evs (c, w) = Inr (c', w') \<Longrightarrow> comp_kept c c' \<and> (inv c \<longrightarrow> inv c')"
    by (simp add: kept_def)
qed

end

end
