(* ===== verification/Components.thy ===== *)
theory Components
  imports Car_Component
begin

text \<open>
  \<open>src/src/components.h\<close>: the components of a car. Each is the base component with some state of its own,
  a reaction to received messages and a periodic action; each keeps the contract of a component class.
\<close>

section \<open>Definitions\<close>

text \<open>A call of \<open>send_local\<close> whose result is not used.\<close>

definition say :: "string \<Rightarrow> 'a car_component_scheme \<times> world \<Rightarrow> ('a car_component_scheme \<times> world) res" where
  "say text s = (case s of (c, w) \<Rightarrow> res_bind (send_local c w text) (\<lambda>(_, s'). Inr s'))"

definition text_of :: "rx \<Rightarrow> string" where
  "text_of r = body (rx_msg r)"

record powertrain = car_component +
  rpm :: u32

definition powertrain_on_tick :: "powertrain \<times> world \<Rightarrow> (powertrain \<times> world) res" where
  "powertrain_on_tick s = Inr s"

definition powertrain_on_receive :: "rx \<Rightarrow> channel_origin \<Rightarrow> powertrain \<times> world \<Rightarrow> (powertrain \<times> world) res" where
  "powertrain_on_receive r origin s = Inr s"

definition brake_on_receive :: "rx \<Rightarrow> channel_origin \<Rightarrow> car_component \<times> world \<Rightarrow> (car_component \<times> world) res" where
  "brake_on_receive r origin s =
     (if text_of r = ''brake!'' \<or> text_of r = ''hazard!'' then say ''ack-brake'' s else Inr s)"

definition brake_on_tick :: "car_component \<times> world \<Rightarrow> (car_component \<times> world) res" where
  "brake_on_tick s = say ''brake!'' s"

record steering = car_component +
  angle :: int

definition steering_on_tick :: "steering \<times> world \<Rightarrow> (steering \<times> world) res" where
  "steering_on_tick s = (case s of (c, w) \<Rightarrow>
     let c1 = c\<lparr>angle := cmod (angle c + 5) 360\<rparr> in say (''Steering angle '' @ show_int (angle c1)) (c1, w))"

definition steering_on_receive :: "rx \<Rightarrow> channel_origin \<Rightarrow> steering \<times> world \<Rightarrow> (steering \<times> world) res" where
  "steering_on_receive r origin s = (case s of (c, w) \<Rightarrow>
     say ''ack-steering''
       (if text_of r = ''steer-left'' then c\<lparr>angle := cmod (angle c + 350) 360\<rparr>
        else if text_of r = ''steer-right'' then c\<lparr>angle := cmod (angle c + 10) 360\<rparr>
        else c, w))"

record transmission = car_component +
  gear :: int

definition transmission_on_tick :: "transmission \<times> world \<Rightarrow> (transmission \<times> world) res" where
  "transmission_on_tick s = say ''transmission_ok'' s"

definition transmission_on_receive :: "rx \<Rightarrow> channel_origin \<Rightarrow> transmission \<times> world \<Rightarrow> (transmission \<times> world) res" where
  "transmission_on_receive r origin s = say ''ack-gear'' s"

definition airbag_on_tick :: "car_component \<times> world \<Rightarrow> (car_component \<times> world) res" where
  "airbag_on_tick s = say ''airbag_diag_ok'' s"

definition airbag_on_receive :: "rx \<Rightarrow> channel_origin \<Rightarrow> car_component \<times> world \<Rightarrow> (car_component \<times> world) res" where
  "airbag_on_receive r origin s =
     (if text_of r = ''collision!'' then say ''airbag_deployed'' s
      else if text_of r = ''diagnostic?'' then say ''airbag_diag_ok'' s
      else Inr s)"

datatype component_kind = Powertrain | Brake | Steering | Transmission | Airbag

fun tick_period_ms :: "component_kind \<Rightarrow> nat" where
  "tick_period_ms Powertrain = 2000"
| "tick_period_ms Brake = 2000"
| "tick_period_ms Steering = 1000"
| "tick_period_ms Transmission = 3000"
| "tick_period_ms Airbag = 5000"

section \<open>Text to the gateway\<close>

definition plain_text :: "string \<Rightarrow> bool" where
  "plain_text s \<longleftrightarrow> str_find s ''TO='' 0 = None"

lemma say_plain:
  assumes "plain_text text"
  shows "say text (c, w) = res_bind (comp_send c w (to_gate c) text) (\<lambda>(_, s'). Inr s')"
  using assms by (simp add: say_def plain_text_def send_local_gateway)

lemma find_sub_absent: "x \<notin> set s \<Longrightarrow> find_sub (x # xs) s = None"
  by (induction s) auto

lemma plain_no_T: "CHR ''T'' \<notin> set s \<Longrightarrow> plain_text s"
  by (simp add: plain_text_def str_find_def find_sub_absent)

lemma plain_words [simp]:
  "plain_text ''brake!''" "plain_text ''ack-brake''" "plain_text ''ack-steering''" "plain_text ''transmission_ok''"
  "plain_text ''ack-gear''" "plain_text ''airbag_deployed''" "plain_text ''airbag_diag_ok''"
  by (simp_all add: plain_no_T)

lemma plain_angle [simp]: "plain_text (''Steering angle '' @ show_int i)"
proof (rule plain_no_T)
  have "CHR ''T'' \<notin> set (show_nat n)" for n
    using show_nat_digits [of "CHR ''T''" n] by (auto simp: is_digit_def)
  then show "CHR ''T'' \<notin> set (''Steering angle '' @ show_int i)" by (simp add: show_int_def)
qed

lemma say_cases:
  "say text (c, w) = Inr (c', w') \<Longrightarrow> c' = c\<lparr>cc_comm := (cc_comm c)\<lparr>next_msg_id := next_msg_id (cc_comm c) + 1\<rparr>\<rparr>"
  by (auto simp: say_def res_bind_Inr_iff dest: send_local_cases)

lemma say_kept: "say text (c, w) = Inr (c', w') \<Longrightarrow> comp_kept c c'"
  using comp_kept_number by (auto dest!: say_cases)

lemma say_total: "plain_text text \<Longrightarrow> \<exists>c' w'. say text (c, w) = Inr (c', w')"
  using comm_send_total [of "cc_comm c" "cc_protocol c" w "to_gate c" "uint (cc_port c)" "text"]
  by (auto simp: say_plain comp_send_def)

section \<open>The classes\<close>

interpretation base_class: component_class on_receive "\<lambda>c. c" Inr "\<lambda>_. True"
  by unfold_locales (auto simp: on_receive_def res_bind_Inr_iff dest: digest_subs_kept)

interpretation powertrain_class: component_class powertrain_on_receive "\<lambda>c. c" powertrain_on_tick "\<lambda>c. rpm c = 900"
  by unfold_locales (simp_all add: powertrain_on_receive_def powertrain_on_tick_def)

interpretation brake_class: component_class brake_on_receive "\<lambda>c. c" brake_on_tick "\<lambda>_. True"
  by unfold_locales (auto simp: brake_on_receive_def brake_on_tick_def dest: say_kept split: if_splits)

definition angle_ok :: "steering \<Rightarrow> bool" where
  "angle_ok c \<longleftrightarrow> 0 \<le> angle c \<and> angle c < 360"

lemma angle_ok_turn: "angle_ok c \<Longrightarrow> 0 \<le> d \<Longrightarrow> angle_ok (c\<lparr>angle := cmod (angle c + d) 360\<rparr>)"
  by (simp add: angle_ok_def cmod_nonneg)

lemma angle_ok_say: "say text (c, w) = Inr (c', w') \<Longrightarrow> angle_ok c \<Longrightarrow> angle_ok c'"
  by (auto simp: angle_ok_def dest!: say_cases)

lemma comp_kept_angle: "comp_kept c (c\<lparr>angle := a\<rparr>)"
  by (simp add: comp_kept_def)

interpretation steering_class: component_class steering_on_receive "\<lambda>c. c" steering_on_tick angle_ok
proof unfold_locales
  fix r origin c w c' w'
  assume "steering_on_receive r origin (c, w) = Inr (c', w')"
  then obtain c1 where c1: "say ''ack-steering'' (c1, w) = Inr (c', w')" "comp_kept c c1" "angle_ok c \<Longrightarrow> angle_ok c1"
    by (auto simp: steering_on_receive_def comp_kept_angle angle_ok_turn split: if_splits)
  then show "comp_kept c c'" using say_kept comp_kept_trans by blast
  show "angle_ok c \<Longrightarrow> angle_ok c'" using c1 angle_ok_say by blast
next
  fix c w c' w'
  assume "steering_on_tick (c, w) = Inr (c', w')"
  then obtain a where a: "say a (c\<lparr>angle := cmod (angle c + 5) 360\<rparr>, w) = Inr (c', w')"
    by (auto simp: steering_on_tick_def Let_def)
  then show "comp_kept c c'" using say_kept comp_kept_trans comp_kept_angle by blast
  show "angle_ok c \<Longrightarrow> angle_ok c'" using a angle_ok_say angle_ok_turn [of c 5] by simp
qed (simp_all add: angle_ok_def)

interpretation transmission_class: component_class transmission_on_receive "\<lambda>c. c" transmission_on_tick "\<lambda>_. True"
  by unfold_locales (auto simp: transmission_on_receive_def transmission_on_tick_def dest: say_kept)

interpretation airbag_class: component_class airbag_on_receive "\<lambda>c. c" airbag_on_tick "\<lambda>_. True"
  by unfold_locales (auto simp: airbag_on_receive_def airbag_on_tick_def dest: say_kept split: if_splits)

text \<open>The steering angle stays between 0 and 359 degrees, whatever packets, bus messages and ticks the
  component sees and in whatever order, and its identity, addresses, peers and role never change.\<close>

lemma steering_invariant:
  assumes "0 \<le> angle c" and "angle c < 360"
    and "comp_events steering_on_receive (\<lambda>c. c) steering_on_tick evs (c, w) = Inr (c', w')"
  shows "0 \<le> angle c' \<and> angle c' < 360 \<and> comp_kept c c'"
  using steering_class.events_kept [OF assms(3)] assms(1,2) by (simp add: angle_ok_def)

end
