(* ===== verification/Gateway.thy ===== *)
theory Gateway
  imports Components
begin

text \<open>
  \<open>src/src/gateway.h\<close>: the gateway of a car or of road-side equipment. It takes part in the start barrier,
  asks for clock synchronisation every three seconds, broadcasts what its own components put on the
  bus and hands to them what other cars broadcast.
\<close>

section \<open>Definitions\<close>

record gateway = car_component +
  gw_vm_id :: int
  total_sync_vms :: int
  sync_master :: bool
  sync_done :: bool
  last_sync_request_us :: u64
  did_request :: bool \<comment> \<open>the \<open>static\<close> variable of \<open>on_tick\<close>\<close>

definition new_gateway :: "car_component \<Rightarrow> int \<Rightarrow> int \<Rightarrow> bool \<Rightarrow> gateway" where
  "new_gateway b vm total_vms is_sync_master =
     car_component.extend b (gateway.fields vm total_vms is_sync_master False 0 False)"

definition notify_sync_done :: "gateway \<Rightarrow> gateway" where
  "notify_sync_done g = g\<lparr>sync_done := True\<rparr>"

text \<open>
  \<open>Gateway::initialize\<close> up to the point where the READY thread is started and the gateway waits for GO;
  \<open>None\<close> when it waits for the acknowledgement of its registration instead.
\<close>

definition gateway_initialize :: "engine_ethernet \<Rightarrow> (string \<Rightarrow> bool) \<Rightarrow> (int list \<Rightarrow> int list) \<Rightarrow> bool \<Rightarrow> int \<Rightarrow>
    gateway \<times> world \<Rightarrow> (gateway \<times> world) option res" where
  "gateway_initialize e can_open ord is_master_node gid s = (case s of (g, w) \<Rightarrow>
     res_bind (initialize_communicator e can_open ord True g) (\<lambda>g1.
     res_bind (set_current_group (cc_protocol g1) w gid) (\<lambda>(p1, w1).
     res_bind (register_with_coordinator is_master_node (g1\<lparr>cc_protocol := p1\<rparr>, w1)) (\<lambda>(g2, w2).
     case wait_for_ack_from_coordinator is_master_node g2 of
       None \<Rightarrow> Inr None
     | Some g3 \<Rightarrow>
        (let p3 = (if sync_master g3 then set_master (cc_protocol g3) True else cc_protocol g3);
             p4 = enable_start_sync p3 (total_sync_vms g3) (cc_local g3) True
         in Inr (Some (g3\<lparr>cc_comm := set_on_sync_done (cc_comm g3), cc_protocol := p4\<rparr>, w2)))))))"

text \<open>One round of the READY thread of a gateway that is not the coordinator.\<close>

definition ready_round :: "gateway \<times> world \<Rightarrow> (gateway \<times> world) res" where
  "ready_round s = (case s of (g, w) \<Rightarrow>
     if sync_done g then Inr (g, w)
     else res_bind (send_control (cc_protocol g) w (cc_local g) (Endpoint BROADCAST (port (cc_local g))) READY 0 [])
       (\<lambda>(_, w'). Inr (g, w')))"

definition gateway_on_receive :: "rx \<Rightarrow> channel_origin \<Rightarrow> gateway \<times> world \<Rightarrow> (gateway \<times> world) res" where
  "gateway_on_receive r origin s = (case s of (g, w) \<Rightarrow>
     (case rx_origin r of
        SharedMemory \<Rightarrow> res_bind (forward_message g w r (gw_vm_id g)) (\<lambda>w'. Inr (g, w'))
      | channel_origin.Ethernet \<Rightarrow> res_bind (fanout_message g w r (gw_vm_id g)) (\<lambda>w'. Inr (g, w'))))"

definition SYNC_PERIOD_US :: u64 where
  "SYNC_PERIOD_US = 3000000"

definition request_move :: "gateway \<times> world \<Rightarrow> (gateway \<times> world) res" where
  "request_move s = (case s of (g, w) \<Rightarrow>
     if gw_vm_id g = 1 \<and> \<not> did_request g
     then res_bind (move_group (cc_protocol g) w 3) (\<lambda>(_, w'). Inr (g\<lparr>did_request := True\<rparr>, w'))
     else Inr (g, w))"

definition request_sync :: "u64 \<Rightarrow> gateway \<times> world \<Rightarrow> (gateway \<times> world) res" where
  "request_sync now_us s = (case s of (g, w) \<Rightarrow>
     if \<not> sync_master g \<and> SYNC_PERIOD_US \<le> now_us - last_sync_request_us g then
       if running_ptp (cc_protocol g)
       then Inr (g\<lparr>cc_protocol := set_probabilistic_ptp_timeout (cc_protocol g) True\<rparr>, w)
       else
         (let p = set_probabilistic_ptp_timeout (set_running_ptp (cc_protocol g) True) False
          in res_bind (send_control p w (cc_local g) (Endpoint BROADCAST (port (cc_local g))) SYNC_REQ 0 [])
               (\<lambda>(_, w'). Inr (g\<lparr>cc_protocol := p, last_sync_request_us := now_us\<rparr>, w')))
     else Inr (g, w))"

definition gateway_on_tick :: "gateway \<times> world \<Rightarrow> (gateway \<times> world) res" where
  "gateway_on_tick s = (case s of (g, w) \<Rightarrow>
     let (now_us, w1) = get_microseconds_now w
     in res_bind (request_move (g, w1)) (request_sync now_us))"

definition gateway_tick_period_ms :: nat where
  "gateway_tick_period_ms = 10"

section \<open>The class\<close>

lemma forward_total: "\<exists>w'. forward_message g w r i = Inr w'"
  using send_message_total [of "cc_comm g" "cc_protocol g" "tick w" "to_bcast g"]
  by (auto simp: forward_message_def) (metis res_bind_simps(2) case_prod_conv)

lemma comp_kept_gateway [simp]:
  "comp_kept g (g\<lparr>did_request := b\<rparr>)" "comp_kept g (g\<lparr>sync_done := b\<rparr>)"
  by (simp_all add: comp_kept_def)

lemma role_kept_ptp [simp]:
  "role_kept p (set_probabilistic_ptp_timeout p b)" "role_kept p (set_running_ptp p b)"
  by (simp_all add: role_kept_def set_probabilistic_ptp_timeout_def set_running_ptp_def wf_protocol_def)

lemma request_move_kept: "request_move (g, w) = Inr (g', w') \<Longrightarrow> comp_kept g g' \<and> gw_vm_id g' = gw_vm_id g \<and>
    sync_master g' = sync_master g \<and> sync_done g' = sync_done g \<and> cc_protocol g' = cc_protocol g"
  by (auto simp: request_move_def res_bind_Inr_iff split: if_splits)

lemma request_sync_kept: "request_sync now (g, w) = Inr (g', w') \<Longrightarrow> comp_kept g g' \<and> gw_vm_id g' = gw_vm_id g \<and>
    sync_master g' = sync_master g \<and> sync_done g' = sync_done g"
  using role_kept_trans [OF role_kept_ptp(2) role_kept_ptp(1), of "cc_protocol g" True False]
  by (auto simp: request_sync_def res_bind_Inr_iff Let_def comp_kept_def split: if_splits)

text \<open>The identity of a gateway and its role in synchronisation.\<close>

definition gateway_id :: "int \<Rightarrow> bool \<Rightarrow> gateway \<Rightarrow> bool" where
  "gateway_id vm m g \<longleftrightarrow> gw_vm_id g = vm \<and> sync_master g = m"

interpretation gateway_class: component_class gateway_on_receive notify_sync_done gateway_on_tick "gateway_id vm m" for vm m
proof unfold_locales
  fix r origin g w g' w'
  assume "gateway_on_receive r origin (g, w) = Inr (g', w')"
  then have "g' = g" by (auto simp: gateway_on_receive_def res_bind_Inr_iff split: channel_origin.splits)
  then show "comp_kept g g'" "gateway_id vm m g \<Longrightarrow> gateway_id vm m g'" by simp_all
next
  fix g w g' w'
  assume "gateway_on_tick (g, w) = Inr (g', w')"
  then obtain g1 w1 now where r: "request_move (g, tick w) = Inr (g1, w1)" "request_sync now (g1, w1) = Inr (g', w')"
    by (auto simp: gateway_on_tick_def res_bind_Inr_iff)
  from request_move_kept [OF r(1)] request_sync_kept [OF r(2)]
  show "comp_kept g g'" "gateway_id vm m g \<Longrightarrow> gateway_id vm m g'"
    by (auto simp: gateway_id_def intro: comp_kept_trans)
qed (simp_all add: notify_sync_done_def gateway_id_def)

text \<open>Processes on which the theorems are tried out.\<close>

definition sample_component :: "u8 \<Rightarrow> u16 \<Rightarrow> u16 list \<Rightarrow> car_component" where
  "sample_component b prt ports =
     (let me = Endpoint (sample_mac b) prt;
          cm = \<lparr>c_local = me, next_msg_id = 0, log_is_open = True, on_sync_done = False, rx_queue = [], rx_observers = [0],
            eth_obs = None, shm_obs = None\<rparr>;
          (cm', p) = set_up_port_observer cm (sample_node b) prt
      in (new_car_component prt ''sample'' p cm' (new_publish_subscriber id))\<lparr>my_mac := sample_mac b, cc_local := me,
           to_gate := Endpoint (sample_mac b) GATEWAY_PORT, to_bcast := Endpoint BROADCAST GATEWAY_PORT, peer_ports := ports\<rparr>)"

definition sample_gateway :: "u8 \<Rightarrow> gateway" where
  "sample_gateway b = new_gateway (sample_component b GATEWAY_PORT [POWERTRAIN_PORT, BRAKE_PORT]) (uint b) 3 False"

lemma sample_gateway_simps [simp]:
  "gw_vm_id (sample_gateway b) = uint b" "sync_master (sample_gateway b) = False" "did_request (sample_gateway b) = False"
  "running_ptp (cc_protocol (sample_gateway b)) = False" "last_sync_request_us (sample_gateway b) = 0"
  "peer_ports (sample_gateway b) = [POWERTRAIN_PORT, BRAKE_PORT]" "cc_local (sample_gateway b) = Endpoint (sample_mac b) GATEWAY_PORT"
  by (simp_all add: sample_gateway_def new_gateway_def sample_component_def set_up_port_observer_def Let_def
      car_component.defs gateway.defs new_car_component_def attach_port_def sample_node_def new_protocol_def)



section \<open>Clock synchronisation requests\<close>

lemma request_move_idle: "gw_vm_id g \<noteq> 1 \<or> did_request g \<Longrightarrow> request_move (g, w) = Inr (g, w)"
  by (auto simp: request_move_def)



text \<open>Ticks while an exchange is marked as running.\<close>

lemma tick_running:
  assumes "running_ptp (cc_protocol g)" and "gw_vm_id g \<noteq> 1 \<or> did_request g"
  shows "\<exists>g'. gateway_on_tick (g, w) = Inr (g', tick w) \<and> running_ptp (cc_protocol g') \<and>
    gw_vm_id g' = gw_vm_id g \<and> did_request g' = did_request g"
  using assms
  by (simp add: gateway_on_tick_def request_move_idle request_sync_def set_probabilistic_ptp_timeout_def)

abbreviation gateway_events :: "event list \<Rightarrow> gateway \<times> world \<Rightarrow> (gateway \<times> world) res" where
  "gateway_events \<equiv> comp_events gateway_on_receive notify_sync_done gateway_on_tick"

text \<open>C12: a lost packet ends clock synchronisation for good. As long as an exchange is marked as running, no
  number of ticks, at whatever times, makes the gateway send anything: the request is never repeated,
  and only a DELAY_RESP, which without a request does not come, would clear the mark.\<close>

theorem sync_never_retried:
  assumes "running_ptp (cc_protocol g)" and "gw_vm_id g \<noteq> 1 \<or> did_request g"
  shows "\<exists>g' w'. gateway_events (replicate n Tick) (g, w) = Inr (g', w') \<and>
    eth_out w' = eth_out w \<and> shm_out w' = shm_out w \<and> running_ptp (cc_protocol g')"
  using assms
proof (induction n arbitrary: g w)
  case (Suc n)
  from tick_running [OF Suc.prems, of w] obtain g1 where
    g1: "gateway_on_tick (g, w) = Inr (g1, tick w)" "running_ptp (cc_protocol g1)" "gw_vm_id g1 \<noteq> 1 \<or> did_request g1"
    using Suc.prems(2) by auto
  from Suc.IH [OF g1(2,3), of "tick w"] g1(1) show ?case by (simp add: comp_event_def)
qed simp

theorem sync_never_retried_witness:
  "let g = (sample_gateway 2)\<lparr>cc_protocol := set_running_ptp (sample_node 2) True\<rparr> in
   \<exists>g' w'. gateway_events (replicate 1000 Tick) (g, sample_world) = Inr (g', w') \<and> eth_out w' = [] \<and> running_ptp (cc_protocol g')"
  using sync_never_retried [of "(sample_gateway 2)\<lparr>cc_protocol := set_running_ptp (sample_node 2) True\<rparr>" 1000 sample_world]
  by (simp add: set_running_ptp_def sample_world_def idle_world_def) blast

section \<open>Setting up\<close>

text \<open>A process whose two observers listen on a port.\<close>

definition listens :: "u16 \<Rightarrow> 'a car_component_scheme \<Rightarrow> bool" where
  "listens prt c \<longleftrightarrow>
     portObservers (cc_protocol c) = [Some (eth_port_observer prt), Some (shm_port_observer prt)] \<and>
     eth_obs (cc_comm c) = Some (eth_port_observer prt) \<and> shm_obs (cc_comm c) = Some (shm_port_observer prt) \<and>
     rx_observers (cc_comm c) = [0]"

text \<open>A process of a car with the given address: its endpoints, its card and its communicator agree.\<close>

definition placed :: "address \<Rightarrow> 'a car_component_scheme \<Rightarrow> bool" where
  "placed a c \<longleftrightarrow> my_mac c = a \<and> cc_local c = Endpoint a (cc_port c) \<and> to_gate c = Endpoint a GATEWAY_PORT \<and>
     to_bcast c = Endpoint BROADCAST GATEWAY_PORT \<and> c_local (cc_comm c) = cc_local c \<and>
     nic_mac (p_nic (cc_protocol c)) = a \<and> shm_engine (p_nic (cc_protocol c)) \<and> etherType (cc_protocol c) = ETYPE"

definition online :: "'a car_component_scheme \<Rightarrow> bool" where
  "online c \<longleftrightarrow> (\<exists>e. ethernet_engine (p_nic (cc_protocol c)) = Some e \<and>
     mac_bytes e = addr (nic_mac (p_nic (cc_protocol c))) \<and> 0 \<le> sock e)"

lemma initialize_communicator_ready:
  assumes "initialize_communicator e can_open ord m c = Inr c'"
  shows "placed (eng_mac e) c' \<and> listens (if m then GATEWAY_PORT else cc_port c) c' \<and> cc_port c' = cc_port c \<and>
    ethernet_engine (p_nic (cc_protocol c')) = (if m then Some e else None) \<and>
    c' = c\<lparr>my_mac := my_mac c', cc_local := cc_local c', to_gate := to_gate c', to_bcast := to_bcast c',
       cc_protocol := cc_protocol c', cc_comm := cc_comm c'\<rparr>"
  using assms
  by (auto simp: initialize_communicator_def new_communicator_def set_up_port_observer_def res_bind_Inr_iff Let_def
      placed_def listens_def comm_attach_def attach_def attach_port_def new_nic_def new_protocol_def GATEWAY_PORT_def
      split: if_splits)

lemma set_current_group_effect:
  assumes "set_current_group p w gid = Inr (p', w')"
  shows "current_group_id p' = gid \<and> good_step p p'"
proof -
  have "current_group_id p' = gid"
    using assms by (auto simp: set_current_group_def broadcast_group_info_def Let_def res_bind_Inr_iff split: if_splits)
  with good_step_set_current_group [OF assms] show ?thesis by simp
qed

lemma placed_protocol: "placed a c \<Longrightarrow> good_step (cc_protocol c) p \<Longrightarrow> placed a (c\<lparr>cc_protocol := p\<rparr>)"
  by (simp add: placed_def good_step_def same_config_def)

lemma listens_protocol: "listens prt c \<Longrightarrow> good_step (cc_protocol c) p \<Longrightarrow> listens prt (c\<lparr>cc_protocol := p\<rparr>)"
  by (simp add: listens_def good_step_def same_config_def)



lemma gateway_registration_waits:
  assumes "initialize_communicator e can_open ord True g = Inr g1" and "0 \<le> gid" and "gid < 4" and "assigned_group g = -1"
  shows "gateway_initialize e can_open ord False gid (g, w) = Inr None"
proof -
  obtain p1 w1 where p1: "set_current_group (cc_protocol g1) w gid = Inr (p1, w1)"
    using set_current_group_no_error by (cases "set_current_group (cc_protocol g1) w gid") auto
  note e = set_current_group_effect [OF p1]
  have a: "assigned_group g1 = -1"
    by (subst conjunct2 [OF conjunct2 [OF conjunct2 [OF conjunct2 [OF initialize_communicator_ready [OF assms(1)]]]]])
      (simp add: assms(4))
  have "\<exists>v. coordinator_for_group gid = Inr v \<and> 0 \<le> v \<and> v \<le> 255"
  proof -
    have len: "length GROUP_COORDINATORS = 4" by (simp add: GROUP_COORDINATORS_def)
    then have "GROUP_COORDINATORS ! nat gid \<in> set GROUP_COORDINATORS" using assms(2,3) by (intro nth_mem) simp
    from coordinator_range(3) [OF this] len show ?thesis using assms(2,3) by (simp add: coordinator_for_group_def)
  qed
  then obtain v ep where "coordinator_for_group gid = Inr v" "endpoint_from_vm v (port (cc_local g1)) = Inr ep"
    by (auto simp: endpoint_from_vm_def)
  moreover obtain r w2 where "send_control p1 w1 (cc_local g1) ep GROUP_REGISTER 0 (''VM_ID='' @ show_int (cc_vm_id g1)) = Inr (r, w2)"
    using send_control_total by blast
  ultimately show ?thesis
    using e a assms(2)
    by (simp add: gateway_initialize_def assms(1) p1 register_with_coordinator_def get_current_group_def
        wait_for_ack_from_coordinator_def)
qed

end
