(* ===== verification/Vehicle.thy ===== *)
theory Vehicle
  imports Gateway
begin

text \<open>
  \<open>src/src/car.cpp\<close> and \<open>src/src/main.cpp\<close>: the processes of a car and the start of the program; and the
  path of a message from a component of one car over its bus, its gateway, the network, the other
  gateway and the other bus to the components of another car.
\<close>

section \<open>The program\<close>

definition car_components :: "(component_kind \<times> u16) list" where
  "car_components = [(Powertrain, POWERTRAIN_PORT), (Brake, BRAKE_PORT)]"

text \<open>A process that \<open>Car::start\<close> runs: what it is given when it is initialised.\<close>

record child =
  ch_kind :: component_kind
  ch_port :: u16
  ch_peers :: "u16 list"
  ch_nodes :: int
  ch_group :: int

record car_plan =
  pl_vm :: int
  pl_group :: int
  pl_total :: int
  pl_master :: bool
  pl_nodes :: int
  pl_children :: "child list"
  pl_peers :: "u16 list"

definition car_start :: "int \<Rightarrow> int \<Rightarrow> int \<Rightarrow> car_plan" where
  "car_start vm gid total_vms =
     (let is_sync_master = (cmod vm 10 = 0);
          components_len = (if is_sync_master then 0 else int (length car_components));
          all_ports = map snd car_components
      in \<lparr>pl_vm = vm, pl_group = gid, pl_total = total_vms, pl_master = is_sync_master, pl_nodes = components_len,
          pl_children = (if is_sync_master then [] else
            map (\<lambda>(k, p). \<lparr>ch_kind = k, ch_port = p, ch_peers = filter (\<lambda>q. q \<noteq> p) all_ports, ch_nodes = components_len,
               ch_group = uint (word_of_int (cdiv vm 10) :: u8)\<rparr>) car_components),
          pl_peers = filter (\<lambda>q. q \<noteq> GATEWAY_PORT) all_ports\<rparr>)"

fun parse_args :: "string list \<Rightarrow> int \<times> int \<Rightarrow> (int \<times> int) res" where
  "parse_args [] st = Inr st"
| "parse_args (arg # args) (vm, total_vms) =
     (if str_find arg ''vm_id='' 0 = Some 0 then
        res_bind (substr arg 6 (length arg)) (\<lambda>s. res_bind (stoi s) (\<lambda>i. parse_args args (i, total_vms)))
      else if str_find arg ''total_sync_vms='' 0 = Some 0 then
        res_bind (substr arg 15 (length arg)) (\<lambda>s. res_bind (stoi s) (\<lambda>i. parse_args args (vm, i)))
      else parse_args args (vm, total_vms))"

text \<open>\<open>None\<close> is the exit with status 1.\<close>

definition main :: "string list \<Rightarrow> car_plan option res" where
  "main args = res_bind (parse_args args (-1, 0)) (\<lambda>(vm, total_vms).
     if vm < 0 \<or> total_vms = 0 then Inr None else Inr (Some (car_start vm (cdiv vm 10) total_vms)))"

section \<open>Command line and roles\<close>

lemma parse_vm_id: "is_i32 i \<Longrightarrow> 0 \<le> i \<Longrightarrow> parse_args ((''vm_id='' @ show_int i) # args) (vm, t) = parse_args args (i, t)"
  by (simp add: str_find_def substr_def)

lemma parse_total:
  assumes "is_i32 i" and "0 \<le> i"
  shows "parse_args ((''total_sync_vms='' @ show_int i) # args) (vm, t) = parse_args args (vm, i)"
proof -
  let ?arg = "''total_sync_vms='' @ show_int i"
  have "str_find ?arg ''vm_id='' 0 \<noteq> Some 0"
    by (auto simp: str_find_def split: if_splits)
  moreover have "str_find ?arg ''total_sync_vms='' 0 = Some 0" by (simp add: str_find_def)
  moreover have "substr ?arg 15 (length ?arg) = Inr (show_int i)" by (simp add: substr_def)
  ultimately show ?thesis using assms by simp
qed

text \<open>C18: the program started with a machine number below 40 and a number of machines. It starts a car whose
  group is the tens digit of its number; the gateway is the coordinator exactly if the protocol's table
  names this machine as the coordinator of that group; a coordinator has no component processes and a bus
  for itself alone, any other machine runs every component in the group of its gateway, with a bus for all
  of them and the gateway, each component knowing the ports of the others and the gateway those of all.\<close>

theorem program_start:
  assumes "0 \<le> vm" and "vm < 40" and "0 < n" and "is_i32 n"
  shows "\<exists>plan. main [''vm_id='' @ show_int vm, ''total_sync_vms='' @ show_int n] = Inr (Some plan) \<and>
    main [''total_sync_vms='' @ show_int n, ''vm_id='' @ show_int vm] = Inr (Some plan) \<and>
    pl_vm plan = vm \<and> pl_total plan = n \<and> pl_group plan = vm div 10 \<and>
    (pl_master plan \<longleftrightarrow> coordinator_for_group (pl_group plan) = Inr vm) \<and>
    pl_nodes plan = int (length (pl_children plan)) \<and>
    (if pl_master plan then pl_children plan = []
     else map ch_port (pl_children plan) = map snd car_components \<and> pl_peers plan = map snd car_components \<and>
       (\<forall>c \<in> set (pl_children plan). ch_group c = pl_group plan \<and> ch_nodes c = pl_nodes plan \<and>
          set (ch_peers c) = snd ` set car_components - {ch_port c}))"
proof -
  let ?plan = "car_start vm (cdiv vm 10) n"
  have i: "is_i32 vm" using assms by (simp add: is_i32_def)
  have m1: "main [''vm_id='' @ show_int vm, ''total_sync_vms='' @ show_int n] = Inr (Some ?plan)"
    using assms i unfolding main_def parse_vm_id [OF i assms(1)] by (subst parse_total) simp_all
  have "parse_args [''total_sync_vms='' @ show_int n, ''vm_id='' @ show_int vm] (-1, 0) = Inr (vm, n)"
    using assms parse_total [of n "[''vm_id='' @ show_int vm]"] parse_vm_id [OF i assms(1), of "[]"]
    by (simp only: less_imp_le parse_args.simps(1))
  then have m2: "main [''total_sync_vms='' @ show_int n, ''vm_id='' @ show_int vm] = Inr (Some ?plan)"
    using assms by (simp add: main_def)
  have d: "cdiv vm 10 = vm div 10" "cmod vm 10 = vm mod 10" using assms by (simp_all add: cdiv_nonneg cmod_nonneg)
  have g: "vm div 10 = 0 \<or> vm div 10 = 1 \<or> vm div 10 = 2 \<or> vm div 10 = 3" using assms(1,2) by presburger
  then have "coordinator_for_group (vm div 10) = Inr (10 * (vm div 10))"
    by (auto simp: coordinator_for_group_def GROUP_COORDINATORS_def)
  moreover have "10 * (vm div 10) = vm \<longleftrightarrow> vm mod 10 = 0" by presburger
  ultimately have c: "coordinator_for_group (vm div 10) = Inr vm \<longleftrightarrow> vm mod 10 = 0" by simp
  have u: "uint (word_of_int (vm div 10) :: u8) = vm div 10" using g by auto
  have ports: "POWERTRAIN_PORT \<noteq> BRAKE_PORT" "POWERTRAIN_PORT \<noteq> GATEWAY_PORT" "BRAKE_PORT \<noteq> GATEWAY_PORT"
    by (simp_all add: POWERTRAIN_PORT_def BRAKE_PORT_def GATEWAY_PORT_def)
  show ?thesis
    using ports by (intro exI [of _ ?plan] conjI m1 m2)
      (simp_all add: car_start_def d c u car_components_def Let_def ports [symmetric], auto)
qed

theorem program_start_witness:
  "\<exists>plan. main [''vm_id='' @ show_int 12, ''total_sync_vms='' @ show_int 3] = Inr (Some plan) \<and> pl_group plan = 1 \<and> pl_total plan = 3"
  using program_start [of 12 3] by (auto simp: is_i32_def)

section \<open>One process receives a data message\<close>

text \<open>Whether the message is for this process, and its state when the handler is called.\<close>

definition accepts :: "u16 \<Rightarrow> 'a car_component_scheme \<Rightarrow> endpoint \<Rightarrow> message \<Rightarrow> bool" where
  "accepts prt c to m \<longleftrightarrow> uint (group_id m) = current_group_id (cc_protocol c) \<and> (prt = port to \<or> prt = ANY_PORT)"

definition received :: "'a car_component_scheme \<Rightarrow> world \<Rightarrow> rx \<Rightarrow> 'a car_component_scheme \<times> world" where
  "received c w r = (c\<lparr>cc_comm := enqueue (cc_comm c) r\<rparr>,
     logged (cc_comm c) (tick w) (message_line ''RECV'' (next_time w) (rx_msg r)))"

lemma observers_listens:
  assumes "listens prt c"
  shows "observers_of (cc_protocol c) dp =
    (if prt = dp \<or> prt = ANY_PORT then [eth_port_observer prt, shm_port_observer prt] else [])"
  using assms by (simp add: observers_of_def listens_def List.map_filter_def eth_port_observer_def shm_port_observer_def)

lemma listens_observer:
  assumes "listens prt c"
  shows "comm_observer (cc_comm c) 0 = Some (eth_port_observer prt)" "comm_observer (cc_comm c) (Suc 0) = Some (shm_port_observer prt)"
  using assms
  by (simp_all add: comm_observer_def listens_def List.map_filter_def eth_port_observer_def shm_port_observer_def)

lemma res_bind_right [simp]: "res_bind m Inr = m"
  by (cases m) simp_all

lemma notify_single: "notify upd [x] s = upd x s"
  by (simp add: notify_Nil)

lemma upcall_mine:
  fixes frm to :: endpoint
  assumes "listens prt c" and "wf_message m" and "po_id ob = i" and "comm_observer (cc_comm c) i = Some ob" and "po_origin ob = origin"
  defines "r \<equiv> rx_of origin (frm, to, m)"
  shows "run_upcall on_rx on_go (On_packet i frm to (bytes_of_string (build_message m)) origin) (c, w) =
    on_rx r origin (received c w r)"
  using assms(1,4) on_packet_message [OF assms(2,5), of "cc_comm c" w frm to]
  by (simp add: run_upcall_def received_def r_def rx_of_def listens_def notify_Nil)

lemma upcall_other:
  assumes "comm_observer (cc_comm c) i = Some ob" and "po_origin ob \<noteq> origin"
  shows "run_upcall on_rx on_go (On_packet i frm to data origin) (c, w) = Inr (c, w)"
  using assms by (simp add: run_upcall_def on_packet_other_origin)

text \<open>The handler of the class must leave the observers alone for the second up-call to be recognised.\<close>

definition keeps_observers :: "(rx \<Rightarrow> channel_origin \<Rightarrow> 'a car_component_scheme \<times> world \<Rightarrow> ('a car_component_scheme \<times> world) res) \<Rightarrow> bool" where
  "keeps_observers on_rx \<longleftrightarrow> (\<forall>r origin s s'. on_rx r origin s = Inr s' \<longrightarrow>
     eth_obs (cc_comm (fst s')) = eth_obs (cc_comm (fst s)) \<and> shm_obs (cc_comm (fst s')) = shm_obs (cc_comm (fst s)))"

lemma keeps_observersD:
  "keeps_observers on_rx \<Longrightarrow> on_rx r origin s = Inr s' \<Longrightarrow>
     eth_obs (cc_comm (fst s')) = eth_obs (cc_comm (fst s)) \<and> shm_obs (cc_comm (fst s')) = shm_obs (cc_comm (fst s))"
  unfolding keeps_observers_def by blast

lemma deliver_data:
  fixes frm to :: endpoint and origin :: channel_origin
  assumes "listens prt c" and "wf_message m" and "keeps_observers on_rx"
  defines "r \<equiv> rx_of origin (frm, to, m)"
  shows "comp_deliver on_rx on_go (Inr (cc_protocol c, w,
      if uint (group_id m) = current_group_id (cc_protocol c)
      then map (\<lambda>ob. On_packet (po_id ob) frm to (bytes_of_string (build_message m)) origin)
        (observers_of (cc_protocol c) (port to)) else [])) c =
    (if accepts prt c to m then on_rx r origin (received c w r) else Inr (c, w))"
proof (cases "accepts prt c to m")
  case False
  then show ?thesis
    by (auto simp: comp_deliver_def accepts_def observers_listens [OF assms(1)])
next
  case True
  note obs = listens_observer [OF assms(1)]
  let ?up = "\<lambda>i. On_packet i frm to (bytes_of_string (build_message m)) origin"
  let ?run = "run_upcall on_rx on_go"
  have ups: "comp_deliver on_rx on_go (Inr (cc_protocol c, w,
      if uint (group_id m) = current_group_id (cc_protocol c)
      then map (\<lambda>ob. On_packet (po_id ob) frm to (bytes_of_string (build_message m)) origin)
        (observers_of (cc_protocol c) (port to)) else [])) c = notify ?run [?up 0, ?up 1] (c, w)"
    using True
    by (simp add: comp_deliver_def accepts_def observers_listens [OF assms(1)] eth_port_observer_def shm_port_observer_def)
  have "notify ?run [?up 0, ?up 1] (c, w) = on_rx r origin (received c w r)"
  proof (cases origin)
    case Ethernet
    have mine: "?run (?up 0) (c, w) = on_rx r origin (received c w r)"
      unfolding r_def using assms(1,2) obs(1) Ethernet
      by (intro upcall_mine [where ob = "eth_port_observer prt"]) (simp_all add: eth_port_observer_def)
    have "?run (?up 1) s' = Inr s'" if "on_rx r origin (received c w r) = Inr s'" for s'
    proof -
      have "shm_obs (cc_comm (fst s')) = Some (shm_port_observer prt)" "eth_obs (cc_comm (fst s')) = Some (eth_port_observer prt)"
        using assms(1) keeps_observersD [OF assms(3) that] by (simp_all add: received_def listens_def enqueue_def)
      then have "comm_observer (cc_comm (fst s')) 1 = Some (shm_port_observer prt)"
        by (simp add: comm_observer_def List.map_filter_def eth_port_observer_def shm_port_observer_def)
      from upcall_other [OF this] show ?thesis
        using Ethernet by (cases s') (simp add: shm_port_observer_def)
    qed
    then show ?thesis
      using mine by (cases "on_rx r origin (received c w r)") (simp_all add: notify_Nil)
  next
    case SharedMemory
    have "?run (?up 0) (c, w) = Inr (c, w)"
      using upcall_other [OF obs(1), of origin] SharedMemory by (simp add: eth_port_observer_def)
    moreover have "?run (?up 1) (c, w) = on_rx r origin (received c w r)"
      unfolding r_def using assms(1,2) obs(2) SharedMemory
      by (intro upcall_mine [where ob = "shm_port_observer prt"]) (simp_all add: shm_port_observer_def)
    ultimately show ?thesis using notify_single [of ?run "?up 1" "(c, w)"] by simp
  qed
  with True ups show ?thesis by simp
qed

text \<open>The same for a message taken from the bus.\<close>

lemma bus_hop:
  fixes frm to :: endpoint
  assumes "listens prt c" and "etherType (cc_protocol c) = et" and "keeps_observers on_rx"
    and "wf_message m" and "control m = NONE" and "length (build_message m) \<le> 1476"
  defines "r \<equiv> rx_of SharedMemory (frm, to, m)" and "blob \<equiv> message_blob et frm to m"
  shows "comp_event on_rx on_go on_tick (Bus_message (int (length blob)) (Some blob)) (c, w) =
    (if accepts prt c to m then on_rx r SharedMemory (received c w r) else Inr (c, w))"
proof -
  let ?ups = "if uint (group_id m) = current_group_id (cc_protocol c)
      then map (\<lambda>ob. On_packet (po_id ob) frm to (bytes_of_string (build_message m)) SharedMemory)
        (observers_of (cc_protocol c) (port to)) else []"
  have "update (cc_protocol c) w et (Some (sent_frame et frm to m)) SharedMemory = Inr (cc_protocol c, w, ?ups)"
    using update_data [OF assms(4,5), of "cc_protocol c" w et] assms(2,6) by simp
  from receive_message_blob [OF assms(6) this, of "[]"]
  have "receive_blob (int (length blob)) (Some blob) (cc_protocol c, w, []) = Inr (cc_protocol c, w, ?ups)"
    by (simp add: blob_def)
  then show ?thesis
    using deliver_data [OF assms(1,4,3), where origin = SharedMemory and frm = frm and to = to and w = w and on_go = on_go] by (simp add: comp_event_def r_def)
qed

section \<open>From the network to every component of the car\<close>

lemma fanout_blobs:
  assumes "placed a c" and "is_i32 (mtype m)" and "\<And>t. length (build_message (m\<lparr>timestamp := t\<rparr>)) \<le> 1476"
  shows "\<exists>w' blobs. fanout_ports c w m ps = Inr w' \<and> shm_out w' = shm_out w @ blobs \<and>
    list_all2 (\<lambda>p blob. \<exists>t. blob = message_blob ETYPE (cc_local c) (Endpoint a p) (m\<lparr>timestamp := t\<rparr>)) ps blobs"
proof (induction ps arbitrary: w)
  case (Cons p ps)
  let ?m = "m\<lparr>timestamp := next_time w\<rparr>"
  let ?w1 = "logged (cc_comm c) (tick w) (message_line ''SEND'' (next_time w) ?m)"
  let ?blob = "message_blob ETYPE (cc_local c) (Endpoint a p) ?m"
  let ?w2 = "?w1\<lparr>shm_out := shm_out ?w1 @ [?blob]\<rparr>"
  have "send_message (cc_comm c) (cc_protocol c) (tick w) (Endpoint a p) ?m = Inr (0, ?w2)"
    using assms(1,2) assms(3) [of "next_time w"]
    by (subst send_message_eq) (simp_all add: placed_def Endpoint_def send_on_bus)
  then have "fanout_ports c w m (p # ps) = fanout_ports c ?w2 m ps"
    using assms(1) by (simp add: placed_def)
  moreover have "shm_out ?w1 = shm_out w" by (simp add: logged_def)
  ultimately show ?case using Cons [of ?w2] by auto
qed simp

lemma keeps_gateway: "keeps_observers gateway_on_receive"
  by (auto simp: keeps_observers_def gateway_on_receive_def res_bind_Inr_iff split: channel_origin.splits)

lemma keeps_class:
  assumes "\<And>r origin c w c' w'. on_rx r origin (c, w) = Inr (c', w') \<Longrightarrow> comp_kept c c'"
  shows "keeps_observers on_rx"
  unfolding keeps_observers_def using assms by (auto simp: comp_kept_def comm_kept_def)

section \<open>From car to car\<close>

text \<open>A data message of a group with a given text, which trimming does not change.\<close>

definition text_message :: "int \<Rightarrow> string \<Rightarrow> message \<Rightarrow> bool" where
  "text_message gid s m \<longleftrightarrow> wf_message m \<and> control m = NONE \<and> uint (group_id m) = gid \<and> body m = s"

definition sendable :: "string \<Rightarrow> bool" where
  "sendable s \<longleftrightarrow> rtrim (ltrim s) = s \<and> length s \<le> 1300"

lemma text_message_short: "text_message gid s m \<Longrightarrow> sendable s \<Longrightarrow> length (build_message m) \<le> 1476"
  using length_build_message_le [of m] by (simp add: text_message_def sendable_def)

lemma text_message_trim: "text_message gid s m \<Longrightarrow> sendable s \<Longrightarrow> trim_body m = m"
  by (simp add: text_message_def sendable_def trim_body_id)

lemma text_message_time: "text_message gid s m \<Longrightarrow> text_message gid s (m\<lparr>timestamp := t\<rparr>)"
  by (simp add: text_message_def wf_message_def is_i32_def control_of_int_def)

lemma text_message_forwarded:
  assumes "text_message gid s (rx_msg r)" and "current_group_id (cc_protocol c) = gid" and "0 \<le> gid" and "gid < 256"
  shows "text_message gid s (forwarded c r vm)"
  using assms by (simp add: text_message_def forwarded_def wf_message_def get_current_group_def uint_word_of_int
      is_i32_def control_of_int_def)

lemma is_i32_uint16: "is_i32 (uint (x :: u16))"
  using uint_lt2p [of x] by (simp add: is_i32_def order_trans [of _ 0])

lemma text_data_message:
  assumes "current_group_id p = gid" and "0 \<le> gid" and "gid < 256"
  shows "text_message gid s (data_message cm p now (uint (prt :: u16)) s)"
  using assms wf_data_message [OF is_i32_uint16] by (simp add: text_message_def uint_word_of_int)

text \<open>A component speaks: its text is on the bus.\<close>

lemma say_on_bus:
  assumes "placed a c" and "plain_text s" and "sendable s" and "current_group_id (cc_protocol c) = gid" and "0 \<le> gid" and "gid < 256"
  shows "\<exists>c' w' m. say s (c, w) = Inr (c', w') \<and> text_message gid s m \<and>
    shm_out w' = shm_out w @ [message_blob ETYPE (cc_local c) (Endpoint a GATEWAY_PORT) m]"
proof -
  let ?m = "data_message (cc_comm c) (cc_protocol c) (next_time w) (uint (cc_port c)) s"
  have t: "text_message gid s ?m" using text_data_message [OF assms(4-6)] by blast
  have g: "to_gate c = Endpoint a GATEWAY_PORT" "c_local (cc_comm c) = cc_local c" "mac (cc_local c) = nic_mac (p_nic (cc_protocol c))"
    "mac (to_gate c) = nic_mac (p_nic (cc_protocol c))" "shm_engine (p_nic (cc_protocol c))" "etherType (cc_protocol c) = ETYPE"
    using assms(1) by (simp_all add: placed_def Endpoint_def)
  let ?w1 = "logged (cc_comm c) (tick w) (message_line ''SEND'' (next_time w) ?m)"
  let ?w2 = "?w1\<lparr>shm_out := shm_out ?w1 @ [message_blob ETYPE (cc_local c) (to_gate c) ?m]\<rparr>"
  have "send (cc_protocol c) ?w1 (cc_local c) (to_gate c) (bytes_of_string (build_message ?m)) = Inr (0, ?w2)"
    using send_on_bus [OF g(5,3,4) text_message_short [OF t assms(3)]] g(6) by simp
  then have "comm_send (cc_comm c) (cc_protocol c) w (to_gate c) (uint (cc_port c)) s =
      Inr (0, (cc_comm c)\<lparr>next_msg_id := next_msg_id (cc_comm c) + 1\<rparr>, ?w2)"
    unfolding comm_send_eq [OF is_i32_uint16] Let_def g(2) by simp
  then have "say s (c, w) = Inr (c\<lparr>cc_comm := (cc_comm c)\<lparr>next_msg_id := next_msg_id (cc_comm c) + 1\<rparr>\<rparr>, ?w2)"
    by (simp add: say_plain [OF assms(2)] comp_send_def)
  moreover have "shm_out ?w2 = shm_out w @ [message_blob ETYPE (cc_local c) (Endpoint a GATEWAY_PORT) ?m]"
    by (simp add: logged_def g(1))
  ultimately show ?thesis using t by blast
qed

text \<open>A gateway broadcasts what it takes from its bus.\<close>

lemma gateway_forwards:
  assumes "placed a ga" and "online ga" and "listens GATEWAY_PORT ga" and "current_group_id (cc_protocol ga) = gid"
    and "0 \<le> gid" and "gid < 256" and "text_message gid s m" and "sendable s" and "mac frm = a" and "a \<noteq> BROADCAST"
  defines "blob \<equiv> message_blob ETYPE frm (Endpoint a GATEWAY_PORT) m"
  shows "\<exists>ga' wa' m2 w1 r. comp_event gateway_on_receive on_go on_tick (Bus_message (int (length blob)) (Some blob)) (ga, wa) = Inr (ga', wa') \<and>
    text_message gid s m2 \<and> eth_out w1 = eth_out wa \<and>
    send (cc_protocol ga) w1 (cc_local ga) (Endpoint BROADCAST GATEWAY_PORT) (bytes_of_string (build_message m2)) = Inr (r, wa')"
proof -
  let ?to = "Endpoint a GATEWAY_PORT"
  let ?r = "rx_of SharedMemory (frm, ?to, m)"
  let ?ga = "fst (received ga wa ?r)" and ?wa = "snd (received ga wa ?r)"
  have m: "wf_message m" "control m = NONE" using assms(7) by (simp_all add: text_message_def)
  have p: "cc_protocol ?ga = cc_protocol ga" "c_local (cc_comm ?ga) = cc_local ga" "to_bcast ?ga = Endpoint BROADCAST GATEWAY_PORT"
    using assms(1) by (simp_all add: received_def enqueue_def placed_def)
  have "accepts GATEWAY_PORT ga ?to m"
    using assms(4,7) by (simp add: accepts_def text_message_def Endpoint_def)
  then have ev: "comp_event gateway_on_receive on_go on_tick (Bus_message (int (length blob)) (Some blob)) (ga, wa) =
      gateway_on_receive ?r SharedMemory (?ga, ?wa)"
    using bus_hop [OF assms(3) _ keeps_gateway m text_message_short [OF assms(7,8)], where et = ETYPE and frm = frm and to = ?to and w = wa] assms(1)
    by (simp add: blob_def placed_def)
  let ?m2 = "(forwarded ?ga ?r (gw_vm_id ?ga))\<lparr>timestamp := next_time ?wa\<rparr>"
  have t: "text_message gid s ?m2"
    using text_message_trim [OF assms(7,8)] assms(4-7) p
    by (intro text_message_time text_message_forwarded) (simp_all add: rx_of_def)
  then have i: "is_i32 (mtype ?m2)" by (simp add: text_message_def wf_message_def)
  let ?w1 = "logged (cc_comm ?ga) (tick ?wa) (message_line ''SEND'' (timestamp ?m2) ?m2)"
  obtain r wa' where s: "send (cc_protocol ga) ?w1 (cc_local ga) (Endpoint BROADCAST GATEWAY_PORT) (bytes_of_string (build_message ?m2)) = Inr (r, wa')"
    using send_total by blast
  then have "forward_message ?ga ?wa ?r (gw_vm_id ?ga) = Inr wa'"
    using send_message_eq [OF i, of "cc_comm ?ga" "cc_protocol ga" "tick ?wa" "Endpoint BROADCAST GATEWAY_PORT"] p
    by (simp add: forward_message_def)
  then have "gateway_on_receive ?r SharedMemory (?ga, ?wa) = Inr (?ga, wa')"
    by (simp add: gateway_on_receive_def rx_of_def case_prod_beta)
  moreover have "eth_out ?w1 = eth_out wa" by (simp add: logged_def received_def)
  ultimately show ?thesis using ev t s by (metis (no_types, lifting))
qed

text \<open>The packet a gateway broadcasts reaches the handler of another gateway of the group.\<close>

lemma network_hop:
  assumes "placed a ga" and "online ga" and "placed b gb" and "online gb" and "listens GATEWAY_PORT gb"
    and "a \<noteq> b" and "a \<noteq> BROADCAST" and "current_group_id (cc_protocol gb) = gid" and "text_message gid s m" and "sendable s"
    and "send (cc_protocol ga) w (cc_local ga) (Endpoint BROADCAST GATEWAY_PORT) (bytes_of_string (build_message m)) = Inr (r, w')"
  defines "rb \<equiv> rx_of channel_origin.Ethernet (cc_local ga, Endpoint BROADCAST GATEWAY_PORT, m)"
  shows "\<exists>pkt. eth_out w' = eth_out w @ [(htons ETYPE, BROADCAST, pkt)] \<and>
    (\<forall>wb. comp_event gateway_on_receive on_go on_tick (Packet pkt) (gb, wb) =
       gateway_on_receive rb channel_origin.Ethernet (received gb wb rb))"
proof -
  let ?to = "Endpoint BROADCAST GATEWAY_PORT"
  let ?p = "cc_protocol ga" and ?q = "cc_protocol gb"
  have m: "wf_message m" "control m = NONE" "length (build_message m) \<le> MTU"
    using assms(9) text_message_short [OF assms(9,10)] by (simp_all add: text_message_def)
  obtain e e' where e: "ethernet_engine (p_nic ?p) = Some e" "mac_bytes e = addr (nic_mac (p_nic ?p))" "0 \<le> sock e"
    and e': "ethernet_engine (p_nic ?q) = Some e'" "0 \<le> sock e'"
    using assms(2,4) by (auto simp: online_def)
  have neq: "nic_mac (p_nic ?p) \<noteq> nic_mac (p_nic ?q)" and et: "etherType ?q = etherType ?p" and et': "etherType ?p = ETYPE" "etherType ?q = ETYPE"
    and frm: "mac (cc_local ga) = nic_mac (p_nic ?p)" and to: "mac ?to \<noteq> nic_mac (p_nic ?p)"
    using assms(1,3,6,7) by (auto simp: placed_def Endpoint_def)
  from message_transfer [OF e e' neq et frm to m(3) assms(11)] obtain pkt len where
    out: "w' = w\<lparr>eth_out := eth_out w @ [(htons (etherType ?p), mac ?to, pkt)]\<rparr>" and
    recv: "\<And>v q' v' us ups. update ?q v (etherType ?q) (Some (message_frame (etherType ?q) len (cc_local ga) ?to m)) channel_origin.Ethernet = Inr (q', v', us) \<Longrightarrow>
       receive_packets [pkt] (?q, v, ups) = Inr (q', v', ups @ us)"
    by blast
  have "comp_event gateway_on_receive on_go on_tick (Packet pkt) (gb, wb) =
      gateway_on_receive rb channel_origin.Ethernet (received gb wb rb)" for wb
  proof -
    let ?ups = "if uint (group_id m) = current_group_id ?q
      then map (\<lambda>ob. On_packet (po_id ob) (cc_local ga) ?to (bytes_of_string (build_message m)) channel_origin.Ethernet)
        (observers_of ?q (port ?to)) else []"
    have "receive_packets [pkt] (?q, wb, []) = Inr (?q, wb, ?ups)"
      using recv [of wb ?q wb ?ups "[]"] update_data [OF m, of ?q wb] by simp
    moreover have "accepts GATEWAY_PORT gb ?to m"
      using assms(8,9) by (simp add: accepts_def text_message_def Endpoint_def)
    ultimately show ?thesis
      using deliver_data [OF assms(5) m(1) keeps_gateway, where origin = channel_origin.Ethernet and frm = "cc_local ga" and to = ?to and w = wb and on_go = on_go]
      by (simp add: comp_event_def rb_def)
  qed
  with out et' show ?thesis by (auto simp: Endpoint_def)
qed

text \<open>A gateway hands what it takes from the network to each of its peers.\<close>

lemma gateway_fans_out:
  fixes frm to :: endpoint
  assumes "placed b gb" and "current_group_id (cc_protocol gb) = gid" and "0 \<le> gid" and "gid < 256"
    and "text_message gid s m" and "sendable s"
  defines "rb \<equiv> rx_of channel_origin.Ethernet (frm, to, m)"
  shows "\<exists>gb' wb' blobs. gateway_on_receive rb channel_origin.Ethernet (received gb wb rb) = Inr (gb', wb') \<and>
    shm_out wb' = shm_out wb @ blobs \<and>
    list_all2 (\<lambda>p blob. \<exists>m3. text_message gid s m3 \<and> blob = message_blob ETYPE (cc_local gb) (Endpoint b p) m3) (peer_ports gb) blobs"
proof -
  let ?gb = "fst (received gb wb rb)" and ?wb = "snd (received gb wb rb)"
  let ?m = "forwarded ?gb rb (gw_vm_id ?gb)"
  have g: "placed b ?gb" "cc_protocol ?gb = cc_protocol gb" "peer_ports ?gb = peer_ports gb" "cc_local ?gb = cc_local gb"
    using assms(1) by (simp_all add: received_def enqueue_def placed_def)
  have t: "text_message gid s ?m"
    using text_message_trim [OF assms(5,6)] assms(2-5) g(2)
    by (intro text_message_forwarded) (simp_all add: rx_of_def rb_def)
  then have "is_i32 (mtype ?m)" by (simp add: text_message_def wf_message_def)
  from fanout_blobs [OF g(1) this text_message_short [OF text_message_time [OF t] assms(6)], of ?wb "peer_ports ?gb"]
  obtain wb' blobs where f: "fanout_message ?gb ?wb rb (gw_vm_id ?gb) = Inr wb'" "shm_out wb' = shm_out ?wb @ blobs"
    "list_all2 (\<lambda>p blob. \<exists>t. blob = message_blob ETYPE (cc_local gb) (Endpoint b p) (?m\<lparr>timestamp := t\<rparr>)) (peer_ports gb) blobs"
    unfolding fanout_message_def g by blast
  have "gateway_on_receive rb channel_origin.Ethernet (received gb wb rb) = Inr (?gb, wb')"
    using f(1) by (simp add: gateway_on_receive_def case_prod_beta) (simp add: rb_def rx_of_def)
  moreover have "shm_out ?wb = shm_out wb" by (simp add: received_def logged_def)
  moreover have "list_all2 (\<lambda>p blob. \<exists>m3. text_message gid s m3 \<and> blob = message_blob ETYPE (cc_local gb) (Endpoint b p) m3) (peer_ports gb) blobs"
    using f(3) by (rule list_all2_mono) (use text_message_time [OF t] in blast)
  ultimately show ?thesis using f(2) by auto
qed

text \<open>Two sample cars.\<close>

lemmas sample_defs = sample_gateway_def new_gateway_def sample_component_def set_up_port_observer_def Let_def
  car_component.defs gateway.defs new_car_component_def attach_port_def attach_def sample_node_def new_protocol_def
  sample_nic_def new_nic_def

lemma sample_ready:
  "placed (sample_mac 1) (sample_component 1 BRAKE_PORT ps)" "placed (sample_mac 2) (sample_component 2 BRAKE_PORT ps)"
  "placed (sample_mac 1) (sample_gateway 1)" "placed (sample_mac 2) (sample_gateway 2)"
  "online (sample_gateway 1)" "online (sample_gateway 2)"
  "listens GATEWAY_PORT (sample_gateway 1)" "listens GATEWAY_PORT (sample_gateway 2)"
  "sample_mac 1 \<noteq> BROADCAST" "sample_mac 1 \<noteq> sample_mac 2"
  "current_group_id (cc_protocol (sample_component 1 BRAKE_PORT ps)) = 0"
  "current_group_id (cc_protocol (sample_gateway 1)) = 0" "current_group_id (cc_protocol (sample_gateway 2)) = 0"
  "listens BRAKE_PORT (sample_component 2 BRAKE_PORT ps)" "etherType (cc_protocol (sample_component 2 BRAKE_PORT ps)) = ETYPE"
  "current_group_id (cc_protocol (sample_component 2 BRAKE_PORT ps)) = 0"
  by (simp_all add: placed_def online_def listens_def sample_defs ETYPE_def sample_mac_def BROADCAST_def)

text \<open>C1: a message from a component of one car reaches every component of another car of the same group.
  When a component puts a text on the bus of its car, its gateway broadcasts one packet for it; the
  gateway of another car that receives the packet puts one message per peer port on its own bus; and
  the handler of a component of that car is called with exactly this text when it reads the message for
  its own port, whereas any other message of these leaves it as it was.\<close>

theorem car_to_car:
  assumes car_a: "placed a c" "placed a ga" "online ga" "listens GATEWAY_PORT ga" "a \<noteq> BROADCAST"
    and car_b: "placed b gb" "online gb" "listens GATEWAY_PORT gb" "a \<noteq> b"
    and groups: "current_group_id (cc_protocol c) = gid" "current_group_id (cc_protocol ga) = gid"
      "current_group_id (cc_protocol gb) = gid" "0 \<le> gid" "gid < 256"
    and s: "plain_text s" "sendable s"
    and on_rx: "keeps_observers on_rx"
  shows "\<exists>c' wc' blob ga' wa' pkt gb' wb' blobs.
    say s (c, wc) = Inr (c', wc') \<and> shm_out wc' = shm_out wc @ [blob] \<and>
    comp_event gateway_on_receive notify_sync_done gateway_on_tick (Bus_message (int (length blob)) (Some blob)) (ga, wa) = Inr (ga', wa') \<and>
    eth_out wa' = eth_out wa @ [(htons ETYPE, BROADCAST, pkt)] \<and>
    comp_event gateway_on_receive notify_sync_done gateway_on_tick (Packet pkt) (gb, wb) = Inr (gb', wb') \<and>
    shm_out wb' = shm_out wb @ blobs \<and> length blobs = length (peer_ports gb) \<and>
    (\<forall>i < length blobs. \<forall>d wd prt. listens prt d \<longrightarrow> etherType (cc_protocol d) = ETYPE \<longrightarrow>
       current_group_id (cc_protocol d) = gid \<longrightarrow> prt \<noteq> ANY_PORT \<longrightarrow>
       (if prt = peer_ports gb ! i
        then \<exists>r. text_of r = s \<and> comp_event on_rx on_go on_tick (Bus_message (int (length (blobs ! i))) (Some (blobs ! i))) (d, wd) =
          on_rx r SharedMemory (received d wd r)
        else comp_event on_rx on_go on_tick (Bus_message (int (length (blobs ! i))) (Some (blobs ! i))) (d, wd) = Inr (d, wd)))"
proof -
  from say_on_bus [OF car_a(1) s groups(1,4,5), of wc] obtain c' wc' m where
    1: "say s (c, wc) = Inr (c', wc')" and m: "text_message gid s m"
    and out: "shm_out wc' = shm_out wc @ [message_blob ETYPE (cc_local c) (Endpoint a GATEWAY_PORT) m]"
    by blast
  let ?blob = "message_blob ETYPE (cc_local c) (Endpoint a GATEWAY_PORT) m"
  have frm: "mac (cc_local c) = a" using car_a(1) by (simp add: placed_def Endpoint_def)
  from gateway_forwards [OF car_a(2,3,4) groups(2,4,5) m s(2) frm car_a(5), of notify_sync_done gateway_on_tick wa]
  obtain ga' wa' m2 w1 r where 2: "comp_event gateway_on_receive notify_sync_done gateway_on_tick (Bus_message (int (length ?blob)) (Some ?blob)) (ga, wa) = Inr (ga', wa')"
    and m2: "text_message gid s m2" and w1: "eth_out w1 = eth_out wa"
    and send: "send (cc_protocol ga) w1 (cc_local ga) (Endpoint BROADCAST GATEWAY_PORT) (bytes_of_string (build_message m2)) = Inr (r, wa')"
    by blast
  from network_hop [OF car_a(2,3) car_b(1,2,3,4) car_a(5) groups(3) m2 s(2) send, of notify_sync_done gateway_on_tick] w1
  obtain pkt where 3: "eth_out wa' = eth_out wa @ [(htons ETYPE, BROADCAST, pkt)]"
    and hop: "comp_event gateway_on_receive notify_sync_done gateway_on_tick (Packet pkt) (gb, wb) =
       gateway_on_receive (rx_of channel_origin.Ethernet (cc_local ga, Endpoint BROADCAST GATEWAY_PORT, m2)) channel_origin.Ethernet
         (received gb wb (rx_of channel_origin.Ethernet (cc_local ga, Endpoint BROADCAST GATEWAY_PORT, m2)))"
    by auto
  from gateway_fans_out [OF car_b(1) groups(3,4,5) m2 s(2), of "cc_local ga" "Endpoint BROADCAST GATEWAY_PORT" wb]
  obtain gb' wb' blobs where 4: "comp_event gateway_on_receive notify_sync_done gateway_on_tick (Packet pkt) (gb, wb) = Inr (gb', wb')"
    and 5: "shm_out wb' = shm_out wb @ blobs"
    and all: "list_all2 (\<lambda>p blob. \<exists>m3. text_message gid s m3 \<and> blob = message_blob ETYPE (cc_local gb) (Endpoint b p) m3) (peer_ports gb) blobs"
    unfolding hop by blast
  have last: "if prt = peer_ports gb ! i
        then \<exists>r. text_of r = s \<and> comp_event on_rx on_go on_tick (Bus_message (int (length (blobs ! i))) (Some (blobs ! i))) (d, wd) =
          on_rx r SharedMemory (received d wd r)
        else comp_event on_rx on_go on_tick (Bus_message (int (length (blobs ! i))) (Some (blobs ! i))) (d, wd) = Inr (d, wd)"
    if i: "i < length blobs" and d: "listens prt d" "etherType (cc_protocol d) = ETYPE" "current_group_id (cc_protocol d) = gid" "prt \<noteq> ANY_PORT"
    for i d wd prt
  proof -
    from all i obtain m3 where m3: "text_message gid s m3" "blobs ! i = message_blob ETYPE (cc_local gb) (Endpoint b (peer_ports gb ! i)) m3"
      by (auto simp: list_all2_conv_all_nth)
    let ?r = "rx_of SharedMemory (cc_local gb, Endpoint b (peer_ports gb ! i), m3)"
    have "wf_message m3" "control m3 = NONE" using m3(1) by (simp_all add: text_message_def)
    note h = bus_hop [OF d(1,2) on_rx this text_message_short [OF m3(1) s(2)],
        where frm = "cc_local gb" and to = "Endpoint b (peer_ports gb ! i)" and w = wd and on_go = on_go and on_tick = on_tick, folded m3(2)]
    have "accepts prt d (Endpoint b (peer_ports gb ! i)) m3 \<longleftrightarrow> prt = peer_ports gb ! i"
      using m3(1) d(3,4) by (auto simp: accepts_def text_message_def Endpoint_def)
    moreover have "text_of ?r = s"
      using text_message_trim [OF m3(1) s(2)] m3(1) by (simp add: text_of_def rx_of_def text_message_def)
    ultimately show ?thesis using h by auto
  qed
  from all have "length blobs = length (peer_ports gb)" by (simp add: list_all2_lengthD)
  with 1 out 2 3 4 5 last show ?thesis by blast
qed

theorem car_to_car_witness:
  "\<exists>blobs r. length blobs = 2 \<and> text_of r = ''brake!'' \<and>
     comp_event brake_on_receive (\<lambda>c. c) brake_on_tick (Bus_message (int (length (blobs ! 1))) (Some (blobs ! 1)))
       (sample_component 2 BRAKE_PORT [POWERTRAIN_PORT], sample_world) =
     brake_on_receive r SharedMemory (received (sample_component 2 BRAKE_PORT [POWERTRAIN_PORT]) sample_world r)"
proof -
  let ?c = "sample_component 1 BRAKE_PORT [POWERTRAIN_PORT]" and ?d = "sample_component 2 BRAKE_PORT [POWERTRAIN_PORT]"
  have ports: "BRAKE_PORT \<noteq> ANY_PORT" by (simp add: BRAKE_PORT_def ANY_PORT_def)
  have word: "plain_text ''brake!''" "sendable ''brake!''" by (simp, simp add: sendable_def, code_simp)
  have brake: "keeps_observers brake_on_receive" by (rule keeps_class) (rule brake_class.rx_kept)
  have small: "(0 :: int) < 256" by simp
  from car_to_car [OF sample_ready(1,3,5,7,9) sample_ready(4,6,8,10) sample_ready(11-13) order_refl small word brake,
      where wc = sample_world and wa = sample_world and wb = sample_world and on_go = "\<lambda>c. c" and on_tick = brake_on_tick]
  obtain blobs where len: "length blobs = length (peer_ports (sample_gateway 2))" and
    all: "\<forall>i < length blobs. \<forall>d wd prt. listens prt d \<longrightarrow> etherType (cc_protocol d) = ETYPE \<longrightarrow>
       current_group_id (cc_protocol d) = 0 \<longrightarrow> prt \<noteq> ANY_PORT \<longrightarrow>
       (if prt = peer_ports (sample_gateway 2) ! i
        then \<exists>r. text_of r = ''brake!'' \<and> comp_event brake_on_receive (\<lambda>c. c) brake_on_tick (Bus_message (int (length (blobs ! i))) (Some (blobs ! i))) (d, wd) =
          brake_on_receive r SharedMemory (received d wd r)
        else comp_event brake_on_receive (\<lambda>c. c) brake_on_tick (Bus_message (int (length (blobs ! i))) (Some (blobs ! i))) (d, wd) = Inr (d, wd))"
    by blast
  from len have two: "length blobs = 2" by simp
  then have one: "1 < length blobs" by simp
  have "BRAKE_PORT = peer_ports (sample_gateway 2) ! 1" by simp
  with all [rule_format, OF one sample_ready(14-16) ports, of "[POWERTRAIN_PORT]" sample_world] two show ?thesis by auto
qed

end
