(* ===== verification/Bb_Base64.thy ===== *)
theory Bb_Base64
  imports Cxx_Strings
begin

text \<open>
  \<open>src/busybox/libbb/uuencode.c\<close>, from the user land of the virtual machines: the base64 and uuencode
  encoder and the base64 decoder. Buffers are lists of bytes; the decoder reads up to the terminating
  NUL, which is the end of the list.
\<close>

section \<open>Definitions\<close>

definition bb_uuenc_tbl_base64 :: bytes where
  "bb_uuenc_tbl_base64 =
     bytes_of_string ''ABCDEFGHIJKLMNOPQRSTUVWXYZabcdefghijklmnopqrstuvwxyz0123456789+/=''"

text \<open>The loop of \<open>bb_uuencode\<close>: three bytes become four characters, missing bytes count as 0.\<close>

definition uu_quad :: "bytes \<Rightarrow> u8 \<Rightarrow> u8 \<Rightarrow> u8 \<Rightarrow> bytes" where
  "uu_quad tbl s0 s1 s2 =
     [tbl ! unat (drop_bit 2 s0),
      tbl ! unat (push_bit 4 (s0 AND 3) + drop_bit 4 s1),
      tbl ! unat (push_bit 2 (s1 AND 0xf) + drop_bit 6 s2),
      tbl ! unat (s2 AND 0x3f)]"

fun uu_loop :: "bytes \<Rightarrow> bytes \<Rightarrow> bytes" where
  "uu_loop tbl [] = []"
| "uu_loop tbl [s0] = uu_quad tbl s0 0 0"
| "uu_loop tbl [s0, s1] = uu_quad tbl s0 s1 0"
| "uu_loop tbl (s0 # s1 # s2 # s) = uu_quad tbl s0 s1 s2 @ uu_loop tbl s"

text \<open>The last one or two characters are replaced by the padding character.\<close>

definition bb_uuencode :: "bytes \<Rightarrow> bytes \<Rightarrow> bytes" where
  "bb_uuencode tbl src =
     (let p = uu_loop tbl src; n = (3 - length src mod 3) mod 3
      in take (length p - n) p @ replicate n (tbl ! 64))"

text \<open>The value of one character at position \<open>i\<close> of its block of four; \<open>None\<close> is the \<open>continue\<close>.\<close>

definition base64_code :: "nat \<Rightarrow> u8 \<Rightarrow> bytes \<Rightarrow> u32 option" where
  "base64_code i t src =
     (if 48 \<le> t \<and> t \<le> 57 then Some (ucast t - 48 + 52)
      else if 65 \<le> t \<and> t \<le> 90 then Some (ucast t - 65)
      else if 97 \<le> t \<and> t \<le> 122 then Some (ucast t - 97 + 26)
      else if t = 43 then Some 62
      else if t = 47 then Some 63
      else if t = 61 \<and> (i = 3 \<or> i = 2 \<and> (case src of [] \<Rightarrow> False | c # _ \<Rightarrow> c = 61)) then Some 0x1000000
      else None)"

text \<open>The loop: the bytes written, the final value of \<open>i\<close> and the input that is left.\<close>

fun decode_loop :: "u32 \<Rightarrow> nat \<Rightarrow> bytes \<Rightarrow> bytes \<times> nat \<times> bytes" where
  "decode_loop ch i [] = ([], i, [])"
| "decode_loop ch i (t # src) = (case base64_code i t src of
      None \<Rightarrow> decode_loop ch i src
    | Some v \<Rightarrow>
        (let ch' = push_bit 6 ch OR v; i' = (i + 1) mod 4;
             three = [ucast (drop_bit 16 ch'), ucast (drop_bit 8 ch'), ucast ch']
         in if i' \<noteq> 0 then decode_loop ch' i' src
            else if ch' AND 0x1000000 \<noteq> 0
              then (take (if ch' AND 0x40000000 \<noteq> 0 then 1 else 2) three, 0, src)
            else (let (out, i'', rest) = decode_loop 0 0 src in (three @ out, i'', rest))))"

text \<open>The result and the position behind the last block of four that was decoded.\<close>

definition decode_base64 :: "bytes \<Rightarrow> bytes \<times> bytes" where
  "decode_base64 src =
     (let (out, i, rest) = decode_loop 0 0 src in (out, drop (length src - length rest - i) src))"

section \<open>One block\<close>

lemma tbl_code:
  assumes "n < 64"
  shows "base64_code i (bb_uuenc_tbl_base64 ! n) src = Some (of_nat n)"
proof -
  have "\<forall>n \<in> {0..<64}. base64_code i (bb_uuenc_tbl_base64 ! n) src = Some (of_nat n)"
    by (simp add: bb_uuenc_tbl_base64_def bytes_of_string_def byte_of_char_def base64_code_def atLeastLessThan_nat_numeral)
  with assms show ?thesis by simp
qed

lemma u8_mask: "(3::u8) = mask 2" "(0xf::u8) = mask 4" "(0x3f::u8) = mask 6"
  by (simp_all add: mask_eq_exp_minus_1)

lemma sextet_sums:
  "push_bit 4 (s0 AND 3) + drop_bit 4 s1 = push_bit 4 (s0 AND 3) OR drop_bit 4 (s1::u8)"
  "push_bit 2 (s1 AND 0xf) + drop_bit 6 s2 = push_bit 2 (s1 AND 0xf) OR drop_bit 6 (s2::u8)"
  unfolding u8_mask
  by (rule disjunctive_add, auto simp: bit_simps dest: bit_imp_le_length)+

lemma sextet_bounds:
  "unat (drop_bit 2 (s0::u8)) < 64"
  "unat (push_bit 4 (s0 AND 3) OR drop_bit 4 (s1::u8)) < 64"
  "unat (push_bit 2 (s1 AND 0xf) OR drop_bit 6 (s2::u8)) < 64"
  "unat (s2 AND 0x3f :: u8) < 64"
proof -
  have small: "unat x < 64" if "take_bit 6 x = x" for x :: u8
  proof -
    have "unat x = take_bit 6 (unat x)"
      using that by (metis unsigned_take_bit_eq)
    also have "\<dots> < 2 ^ 6" by (rule take_bit_nat_less_exp)
    finally show ?thesis by simp
  qed
  show "unat (drop_bit 2 s0) < 64"
    by (rule small, rule bit_eqI) (auto simp: bit_simps dest: bit_imp_le_length)
  show "unat (push_bit 4 (s0 AND 3) OR drop_bit 4 s1) < 64"
    unfolding u8_mask by (rule small, rule bit_eqI) (auto simp: bit_simps dest: bit_imp_le_length)
  show "unat (push_bit 2 (s1 AND 0xf) OR drop_bit 6 s2) < 64"
    unfolding u8_mask by (rule small, rule bit_eqI) (auto simp: bit_simps dest: bit_imp_le_length)
  show "unat (s2 AND 0x3f) < 64"
    unfolding u8_mask by (rule small, rule bit_eqI) (auto simp: bit_simps dest: bit_imp_le_length)
qed

definition joined :: "u32 \<Rightarrow> u32 \<Rightarrow> u32 \<Rightarrow> u32 \<Rightarrow> u32" where
  "joined a b c d = push_bit 6 (push_bit 6 (push_bit 6 (push_bit 6 0 OR a) OR b) OR c) OR d"

lemma joined_bits:
  fixes s0 s1 s2 :: u8
  defines "w \<equiv> joined (ucast (drop_bit 2 s0)) (ucast (push_bit 4 (s0 AND 3) OR drop_bit 4 s1))
                 (ucast (push_bit 2 (s1 AND 0xf) OR drop_bit 6 s2)) (ucast (s2 AND 0x3f))"
  shows "w = push_bit 16 (ucast s0) OR push_bit 8 (ucast s1) OR ucast s2"
proof (rule bit_word_eqI)
  fix n assume n: "n < LENGTH(32)"
  have high: "bit s k = False" if "8 \<le> k" for s :: u8 and k
    using that by (auto dest: bit_imp_le_length)
  have "n < 6 \<or> (\<exists>k<2. n = k + 6) \<or> (\<exists>k<4. n = k + 8) \<or> (\<exists>k<4. n = k + 12) \<or> (\<exists>k<2. n = k + 16)
      \<or> (\<exists>k<6. n = k + 18) \<or> 24 \<le> n"
    by presburger
  thus "bit w n \<longleftrightarrow> bit (push_bit 16 (ucast s0) OR push_bit 8 (ucast s1) OR ucast s2 :: u32) n"
    unfolding w_def joined_def u8_mask
    by (elim disjE exE conjE) (use n in \<open>simp_all add: bit_simps high ac_simps\<close>)
qed


lemma joined_bytes:
  fixes s0 s1 s2 :: u8
  defines "w \<equiv> push_bit 16 (ucast s0) OR push_bit 8 (ucast s1) OR ucast s2 :: u32"
  shows "ucast (drop_bit 16 w) = s0" "ucast (drop_bit 8 w) = s1" "ucast w = s2" "\<not> bit w 24"
proof -
  have high: "bit s k = False" if "8 \<le> k" for s :: u8 and k
    using that by (auto dest: bit_imp_le_length)
  show "ucast (drop_bit 16 w) = s0" "ucast (drop_bit 8 w) = s1" "ucast w = s2"
    unfolding w_def by (rule bit_word_eqI, simp add: bit_simps high ac_simps)+
  show "\<not> bit w 24"
    unfolding w_def by (simp add: bit_simps high)
qed

lemma sextet_code:
  assumes "unat (x::u8) < 64"
  shows "base64_code i (bb_uuenc_tbl_base64 ! unat x) src = Some (ucast x)"
  using tbl_code[OF assms] by simp

lemma bit_tests: "(w AND 0x1000000 = (0::u32)) = (\<not> bit w 24)" "(w AND 0x40000000 = (0::u32)) = (\<not> bit w 30)"
  using and_exp_eq_0_iff_not_bit[of w 24] and_exp_eq_0_iff_not_bit[of w 30] by simp_all

lemma decode_step:
  assumes "base64_code i t src = Some v" "i < 3" "j = i + 1"
  shows "decode_loop ch i (t # src) = decode_loop (push_bit 6 ch OR v) j src"
  using assms by simp

lemma decode_last:
  assumes "base64_code 3 t src = Some v" and w: "w = push_bit 6 ch OR v"
  shows "decode_loop ch 3 (t # src) =
    (let three = [ucast (drop_bit 16 w), ucast (drop_bit 8 w), ucast w]
     in if bit w 24 then (take (if bit w 30 then 1 else 2) three, 0, src)
        else (let (out, i, rest) = decode_loop 0 0 src in (three @ out, i, rest)))"
  using assms(1) by (simp add: Let_def bit_tests flip: w)

text \<open>Four characters with the values \<open>a\<close>, \<open>b\<close>, \<open>c\<close>, \<open>d\<close>.\<close>

lemma decode_four:
  assumes "base64_code 0 t0 (t1 # t2 # t3 # src) = Some a" "base64_code 1 t1 (t2 # t3 # src) = Some b"
    and "base64_code 2 t2 (t3 # src) = Some c" "base64_code 3 t3 src = Some d" and w: "w = joined a b c d"
  shows "decode_loop 0 0 (t0 # t1 # t2 # t3 # src) =
    (let three = [ucast (drop_bit 16 w), ucast (drop_bit 8 w), ucast w]
     in if bit w 24 then (take (if bit w 30 then 1 else 2) three, 0, src)
        else (let (out, i, rest) = decode_loop 0 0 src in (three @ out, i, rest)))"
proof -
  have "decode_loop 0 0 (t0 # t1 # t2 # t3 # src) = decode_loop (push_bit 6 0 OR a) 1 (t1 # t2 # t3 # src)"
    by (rule decode_step[OF assms(1)]) simp_all
  also have "\<dots> = decode_loop (push_bit 6 (push_bit 6 0 OR a) OR b) 2 (t2 # t3 # src)"
    by (rule decode_step[OF assms(2)]) simp_all
  also have "\<dots> = decode_loop (push_bit 6 (push_bit 6 (push_bit 6 0 OR a) OR b) OR c) 3 (t3 # src)"
    by (rule decode_step[OF assms(3)]) simp_all
  also note decode_last[OF assms(4) w[unfolded joined_def]]
  finally show ?thesis .
qed

lemma decode_quad:
  "decode_loop 0 0 (uu_quad bb_uuenc_tbl_base64 s0 s1 s2 @ src) =
     (let (out, i, rest) = decode_loop 0 0 src in ([s0, s1, s2] @ out, i, rest))"
  unfolding uu_quad_def sextet_sums append_Cons append_Nil
  by (subst decode_four[OF sextet_code sextet_code sextet_code sextet_code joined_bits[symmetric]])
    (simp_all only: sextet_bounds joined_bytes Let_def if_False append_Cons append_Nil)

text \<open>The padding characters set bits 24 and 30, above the three bytes.\<close>

lemma joined_or: "joined a b c d = joined a b 0 0 OR push_bit 6 c OR d"
  unfolding joined_def by (simp add: push_bit_or ac_simps)

lemma joined_pad:
  "joined a b c (push_bit 24 1) = joined a b c 0 OR push_bit 24 1"
  "joined a b (push_bit 24 1) (push_bit 24 1) = joined a b 0 0 OR push_bit 24 1 OR push_bit 30 1"
  using joined_or[of a b c "push_bit 24 1"] joined_or[of a b c 0] joined_or[of a b "push_bit 24 1" "push_bit 24 1"]
  by (simp_all add: ac_simps)

lemma padded_bytes:
  fixes s0 s1 :: u8
  defines "w \<equiv> push_bit 16 (ucast s0) OR push_bit 8 (ucast s1) OR push_bit 24 1 :: u32"
  shows "ucast (drop_bit 16 w) = s0" "ucast (drop_bit 8 w) = s1"
    "bit w 24" "\<not> bit w 30" "ucast (drop_bit 16 (w OR push_bit 30 1)) = s0" "bit (w OR push_bit 30 1) 24"
    "bit (w OR push_bit 30 1) 30"
proof -
  have high: "bit s k = False" if "8 \<le> k" for s :: u8 and k
    using that by (auto dest: bit_imp_le_length)
  obtain p q :: u32 where p: "p = push_bit 24 1" and q: "q = push_bit 30 1" by simp
  have pq: "bit p n \<longleftrightarrow> n = 24" "bit q n \<longleftrightarrow> n = 30" for n
    using bit_exp_iff[of 24 n, where 'a = u32] bit_exp_iff[of 30 n, where 'a = u32] by (auto simp: p q)
  show "ucast (drop_bit 16 w) = s0" "ucast (drop_bit 8 w) = s1"
    "ucast (drop_bit 16 (w OR push_bit 30 1)) = s0"
    unfolding w_def p[symmetric] q[symmetric]
    by (rule bit_word_eqI, simp add: bit_simps high pq add.commute)+
  show "bit w 24" "\<not> bit w 30" "bit (w OR push_bit 30 1) 24" "bit (w OR push_bit 30 1) 30"
    unfolding w_def p[symmetric] q[symmetric]
    by (simp_all add: bit_simps high pq)
qed

lemma pad_char: "base64_code 3 61 src = Some (push_bit 24 1)" "base64_code 2 61 (61 # src) = Some (push_bit 24 1)"
  by (simp_all add: base64_code_def)

lemma decode_padded:
  "decode_loop 0 0 (take 3 (uu_quad bb_uuenc_tbl_base64 s0 s1 0) @ [61]) = ([s0, s1], 0, [])"
  "decode_loop 0 0 (take 2 (uu_quad bb_uuenc_tbl_base64 s0 0 0) @ [61, 61]) = ([s0], 0, [])"
proof -
  let ?a = "ucast (drop_bit 2 s0) :: u32"
  let ?b = "\<lambda>s. ucast (push_bit 4 (s0 AND 3) OR drop_bit 4 (s::u8)) :: u32"
  let ?c = "ucast (push_bit 2 (s1 AND 0xf) OR drop_bit 6 (0::u8)) :: u32"
  have take: "take 3 [x, y, z, u] = [x, y, z]" "take 2 [x, y, z, u] = [x, y]" "take 2 [x, y, z] = [x, y]"
    "take 1 [x, y, z] = [x]" for x y z u :: u8
    by simp_all
  have 1: "push_bit 16 (ucast s0) OR push_bit 8 (ucast s1) OR push_bit 24 1 = joined ?a (?b s1) ?c (push_bit 24 1)"
    unfolding joined_pad using joined_bits[of s0 s1 0] by (simp add: ac_simps)
  show "decode_loop 0 0 (take 3 (uu_quad bb_uuenc_tbl_base64 s0 s1 0) @ [61]) = ([s0, s1], 0, [])"
    unfolding uu_quad_def sextet_sums append_Cons append_Nil take
    by (subst decode_four[OF sextet_code sextet_code sextet_code pad_char(1) 1])
      (simp_all only: sextet_bounds padded_bytes Let_def if_True if_False take)
  have 2: "(push_bit 16 (ucast s0) OR push_bit 8 (ucast (0::u8)) OR push_bit 24 1) OR push_bit 30 1 =
      joined ?a (?b 0) (push_bit 24 1) (push_bit 24 1)"
    unfolding joined_pad(2) using joined_bits[of s0 0 0] by (simp add: ac_simps)
  show "decode_loop 0 0 (take 2 (uu_quad bb_uuenc_tbl_base64 s0 0 0) @ [61, 61]) = ([s0], 0, [])"
    unfolding uu_quad_def sextet_sums append_Cons append_Nil take
    by (subst decode_four[OF sextet_code sextet_code pad_char(2,1) 2])
      (simp_all only: sextet_bounds padded_bytes Let_def if_True if_False take)
qed

section \<open>The round trip\<close>

lemma uu_loop_length: "length (uu_loop tbl src) = (length src + 2) div 3 * 4"
proof (induction tbl src rule: uu_loop.induct)
  case (4 tbl s0 s1 s2 s)
  have "(length (s0 # s1 # s2 # s) + 2) div 3 = (length s + 2) div 3 + 1" by simp
  with 4 show ?case by (simp add: uu_quad_def)
qed (simp_all add: uu_quad_def)

lemma pad_le: "(3 - n mod 3) mod 3 \<le> (n + 2) div 3 * (4::nat)"
proof (cases "n mod 3 = 0")
  case False
  hence "1 \<le> n" by (cases n) auto
  hence "1 \<le> (n + 2) div 3" by simp
  moreover have "(3 - n mod 3) mod 3 < (3::nat)" by simp
  ultimately show ?thesis by linarith
qed simp

lemma bb_uuencode_step:
  "bb_uuencode tbl (s0 # s1 # s2 # src) = uu_quad tbl s0 s1 s2 @ bb_uuencode tbl src"
proof -
  define n where "n = (3 - length src mod 3) mod 3"
  have m: "(3 - length (s0 # s1 # s2 # src) mod 3) mod 3 = n"
    by (simp add: n_def mod_Suc)
  have "n \<le> length (uu_loop tbl src)"
    unfolding n_def uu_loop_length by (rule pad_le)
  moreover have "length (uu_quad tbl s0 s1 s2) = 4" by (simp add: uu_quad_def)
  ultimately show ?thesis
    unfolding bb_uuencode_def Let_def m n_def[symmetric] by simp
qed

lemma tbl_pad: "bb_uuenc_tbl_base64 ! 64 = 61"
  by (simp add: bb_uuenc_tbl_base64_def bytes_of_string_def byte_of_char_def)

lemma bb_uuencode_short:
  "bb_uuencode bb_uuenc_tbl_base64 [] = []"
  "bb_uuencode bb_uuenc_tbl_base64 [s0] = take 2 (uu_quad bb_uuenc_tbl_base64 s0 0 0) @ [61, 61]"
  "bb_uuencode bb_uuenc_tbl_base64 [s0, s1] = take 3 (uu_quad bb_uuenc_tbl_base64 s0 s1 0) @ [61]"
proof -
  have n: "length (uu_quad tbl a b c) = 4" for tbl a b c by (simp add: uu_quad_def)
  have r: "replicate 2 (61::u8) = [61, 61]" by (simp add: numeral_2_eq_2)
  show "bb_uuencode bb_uuenc_tbl_base64 [] = []" by (simp add: bb_uuencode_def)
  show "bb_uuencode bb_uuenc_tbl_base64 [s0] = take 2 (uu_quad bb_uuenc_tbl_base64 s0 0 0) @ [61, 61]"
    by (simp add: bb_uuencode_def Let_def tbl_pad n r)
  show "bb_uuencode bb_uuenc_tbl_base64 [s0, s1] = take 3 (uu_quad bb_uuenc_tbl_base64 s0 s1 0) @ [61]"
    by (simp add: bb_uuencode_def Let_def tbl_pad n)
qed

lemma decode_encode:
  "decode_loop 0 0 (bb_uuencode bb_uuenc_tbl_base64 src) = (src, 0, [])"
proof (induction bb_uuenc_tbl_base64 src rule: uu_loop.induct)
  case 1
  show ?case unfolding bb_uuencode_short by simp
next
  case (2 s0)
  show ?case unfolding bb_uuencode_short by (rule decode_padded)
next
  case (3 s0 s1)
  show ?case unfolding bb_uuencode_short by (rule decode_padded)
next
  case (4 s0 s1 s2 src)
  thus ?case unfolding bb_uuencode_step decode_quad by simp
qed

text \<open>C33: Base64 round trip. Whatever bytes \<open>bb_uuencode\<close> encodes with the base64 table, \<open>decode_base64\<close>
  gives back exactly these bytes and consumes the whole text; and the text has four characters for every
  started block of three bytes.
\<close>
theorem base64_roundtrip:
  "decode_base64 (bb_uuencode bb_uuenc_tbl_base64 src) = (src, []) \<and>
   length (bb_uuencode bb_uuenc_tbl_base64 src) = (length src + 2) div 3 * 4"
proof
  show "decode_base64 (bb_uuencode bb_uuenc_tbl_base64 src) = (src, [])"
    by (simp add: decode_base64_def decode_encode)
  have pad: "min a (a - n) + n = a" if "n \<le> a" for a n :: nat using that by simp
  show "length (bb_uuencode bb_uuenc_tbl_base64 src) = (length src + 2) div 3 * 4"
    unfolding bb_uuencode_def Let_def length_append length_take length_replicate uu_loop_length
    by (rule pad) (rule pad_le)
qed

end
