(* ===== verification/Bb_Base32.thy ===== *)
theory Bb_Base32
  imports Bb_Base64
begin

text \<open>
  Base32 of the user land: \<open>bb_b32encode\<close> of \<open>src/busybox/coreutils/uudecode.c\<close> and \<open>decode_base32\<close> of
  \<open>src/busybox/libbb/uuencode.c\<close>. The accumulator of the decoder is 64 bits wide and is never reset: the
  bits of earlier blocks stay above the 40 bits that are read.
\<close>

section \<open>Definitions\<close>

definition bb_uuenc_tbl_base32 :: bytes where
  "bb_uuenc_tbl_base32 = bytes_of_string ''ABCDEFGHIJKLMNOPQRSTUVWXYZ234567''"

text \<open>The eight table indices of one turn of the loop of \<open>bb_b32encode\<close>.\<close>

definition b32_values :: "u8 \<Rightarrow> u8 \<Rightarrow> u8 \<Rightarrow> u8 \<Rightarrow> u8 \<Rightarrow> u8 list" where
  "b32_values s0 s1 s2 s3 s4 =
     [drop_bit 3 s0,
      push_bit 2 (s0 AND 7) + drop_bit 6 s1,
      drop_bit 1 (s1 AND 0x3f),
      push_bit 4 (s1 AND 0x3f AND 1) + drop_bit 4 s2,
      push_bit 1 (s2 AND 0xf) + drop_bit 7 s3,
      drop_bit 2 (s3 AND 0x7f),
      push_bit 3 (s3 AND 0x7f AND 3) + drop_bit 5 s4,
      s4 AND 0x1f]"

definition b32_block :: "u8 \<Rightarrow> u8 \<Rightarrow> u8 \<Rightarrow> u8 \<Rightarrow> u8 \<Rightarrow> bytes" where
  "b32_block s0 s1 s2 s3 s4 = map (\<lambda>v. bb_uuenc_tbl_base32 ! unat v) (b32_values s0 s1 s2 s3 s4)"

fun b32_loop :: "bytes \<Rightarrow> bytes" where
  "b32_loop [] = []"
| "b32_loop [s0] = b32_block s0 0 0 0 0"
| "b32_loop [s0, s1] = b32_block s0 s1 0 0 0"
| "b32_loop [s0, s1, s2] = b32_block s0 s1 s2 0 0"
| "b32_loop [s0, s1, s2, s3] = b32_block s0 s1 s2 s3 0"
| "b32_loop (s0 # s1 # s2 # s3 # s4 # s) = b32_block s0 s1 s2 s3 s4 @ b32_loop s"

definition bb_b32encode :: "bytes \<Rightarrow> bytes" where
  "bb_b32encode src =
     (let p = b32_loop src; n = (5 - length src mod 5) mod 5 * 3 div 2
      in take (length p - n) p @ replicate n 61)"

definition base32_code :: "nat \<Rightarrow> u8 \<Rightarrow> u32 option" where
  "base32_code i t =
     (if 50 \<le> t \<and> t \<le> 55 then Some (ucast t - 50 + 26)
      else if t = 61 \<and> i > 1 then Some 0
      else let t' = (ucast t OR 0x20) - 97 in if t' > 25 then None else Some t')"

text \<open>The five bytes of a full block.\<close>

definition b32_bytes :: "u64 \<Rightarrow> bytes" where
  "b32_bytes ch = [ucast (drop_bit 32 ch), ucast (drop_bit 24 ch), ucast (drop_bit 16 ch), ucast (drop_bit 8 ch), ucast ch]"

text \<open>
  The loop; \<open>seen\<close> are the characters read so far, the last one first. At the end of a block that ends with
  \<open>=\<close> the characters \<open>=\<close> are counted backwards and one to four bytes are discarded.
\<close>

fun decode32_loop :: "u64 \<Rightarrow> nat \<Rightarrow> bytes \<Rightarrow> bytes \<Rightarrow> bytes \<times> nat \<times> bytes" where
  "decode32_loop ch i seen [] = ([], i, [])"
| "decode32_loop ch i seen (t # src) = (case base32_code i t of
      None \<Rightarrow> decode32_loop ch i (t # seen) src
    | Some v \<Rightarrow>
        (let ch' = push_bit 5 ch OR ucast v; i' = (i + 1) mod 8
         in if i' \<noteq> 0 then decode32_loop ch' i' (t # seen) src
            else if t = 61
              then (take (5 - (length (takeWhile (\<lambda>c. c = 61) (t # seen)) + 1) * 2 div 3) (b32_bytes ch'), 0, src)
            else (let (out, i'', rest) = decode32_loop ch' 0 (t # seen) src in (b32_bytes ch' @ out, i'', rest))))"

definition decode_base32 :: "bytes \<Rightarrow> bytes \<times> bytes" where
  "decode_base32 src =
     (let (out, i, rest) = decode32_loop 0 0 [] src in (out, drop (length src - length rest - i) src))"

section \<open>One block\<close>

lemma tbl32_code:
  assumes "n < 32"
  shows "base32_code i (bb_uuenc_tbl_base32 ! n) = Some (of_nat n)" "bb_uuenc_tbl_base32 ! n \<noteq> 61"
proof -
  have "\<forall>n \<in> {0..<32}. base32_code i (bb_uuenc_tbl_base32 ! n) = Some (of_nat n) \<and> bb_uuenc_tbl_base32 ! n \<noteq> 61"
    by (simp add: bb_uuenc_tbl_base32_def bytes_of_string_def byte_of_char_def base32_code_def atLeastLessThan_nat_numeral)
  with assms show "base32_code i (bb_uuenc_tbl_base32 ! n) = Some (of_nat n)" "bb_uuenc_tbl_base32 ! n \<noteq> 61" by simp_all
qed

lemma value_code:
  assumes "unat (x::u8) < 32"
  shows "base32_code i (bb_uuenc_tbl_base32 ! unat x) = Some (ucast x)"
  using tbl32_code[OF assms] by simp

lemma pad32_code: "1 < i \<Longrightarrow> base32_code i 61 = Some 0"
  by (simp add: base32_code_def)

lemma u8_masks32:
  "(1::u8) = mask 1" "(3::u8) = mask 2" "(7::u8) = mask 3" "(0xf::u8) = mask 4" "(0x1f::u8) = mask 5"
  "(0x3f::u8) = mask 6" "(0x7f::u8) = mask 7"
  by (simp_all add: mask_eq_exp_minus_1)

lemma value_sums:
  "push_bit 2 (s0 AND 7) + drop_bit 6 s1 = push_bit 2 (s0 AND mask 3) OR drop_bit 6 (s1::u8)"
  "push_bit 4 (s1 AND 0x3f AND 1) + drop_bit 4 s2 = push_bit 4 (s1 AND mask 1) OR drop_bit 4 (s2::u8)"
  "push_bit 1 (s2 AND 0xf) + drop_bit 7 s3 = push_bit 1 (s2 AND mask 4) OR drop_bit 7 (s3::u8)"
  "push_bit 3 (s3 AND 0x7f AND 3) + drop_bit 5 s4 = push_bit 3 (s3 AND mask 2) OR drop_bit 5 (s4::u8)"
proof -
  have [simp]: "s1 AND 0x3f AND 1 = s1 AND mask 1" "s3 AND 0x7f AND 3 = s3 AND mask 2"
    unfolding u8_masks32 by (rule bit_eqI, auto simp: bit_simps)+
  show "push_bit 2 (s0 AND 7) + drop_bit 6 s1 = push_bit 2 (s0 AND mask 3) OR drop_bit 6 (s1::u8)"
    unfolding u8_masks32 by (rule disjunctive_add, auto simp: bit_simps dest: bit_imp_le_length)
  show "push_bit 4 (s1 AND 0x3f AND 1) + drop_bit 4 s2 = push_bit 4 (s1 AND mask 1) OR drop_bit 4 (s2::u8)"
    unfolding \<open>s1 AND 0x3f AND 1 = s1 AND mask 1\<close> by (rule disjunctive_add, auto simp: bit_simps dest: bit_imp_le_length)
  show "push_bit 1 (s2 AND 0xf) + drop_bit 7 s3 = push_bit 1 (s2 AND mask 4) OR drop_bit 7 (s3::u8)"
    unfolding u8_masks32
    by (rule disjunctive_add, auto simp: bit_simps simp del: One_nat_def dest: bit_imp_le_length)
  show "push_bit 3 (s3 AND 0x7f AND 3) + drop_bit 5 s4 = push_bit 3 (s3 AND mask 2) OR drop_bit 5 (s4::u8)"
    unfolding \<open>s3 AND 0x7f AND 3 = s3 AND mask 2\<close> by (rule disjunctive_add, auto simp: bit_simps dest: bit_imp_le_length)
qed

lemma b32_values_eq:
  "b32_values s0 s1 s2 s3 s4 =
     [drop_bit 3 s0, push_bit 2 (s0 AND mask 3) OR drop_bit 6 s1, drop_bit 1 (s1 AND mask 6),
      push_bit 4 (s1 AND mask 1) OR drop_bit 4 s2, push_bit 1 (s2 AND mask 4) OR drop_bit 7 s3,
      drop_bit 2 (s3 AND mask 7), push_bit 3 (s3 AND mask 2) OR drop_bit 5 s4, s4 AND mask 5]"
  unfolding b32_values_def value_sums unfolding u8_masks32 ..


lemma b32_values_bound: "v \<in> set (b32_values s0 s1 s2 s3 s4) \<Longrightarrow> unat v < 32"
proof -
  have small: "unat x < 32" if "\<not> bit x 5" "\<not> bit x 6" "\<not> bit x 7" for x :: u8
  proof -
    have "bit x n \<Longrightarrow> n < 5" for n
      using that bit_imp_le_length[of x n] by (cases "n \<in> {5, 6, 7}") auto
    hence "take_bit 5 x = x" by (intro bit_word_eqI) (auto simp: bit_simps)
    hence "unat x = take_bit 5 (unat x)" by (metis unsigned_take_bit_eq)
    also have "\<dots> < 2 ^ 5" by (rule take_bit_nat_less_exp)
    finally show ?thesis by simp
  qed
  have high: "bit s k = False" if "8 \<le> k" for s :: u8 and k
    using that by (auto dest: bit_imp_le_length)
  have "list_all (\<lambda>v. \<not> bit v 5 \<and> \<not> bit v 6 \<and> \<not> bit v 7) (b32_values s0 s1 s2 s3 s4)"
    unfolding b32_values_eq by (simp add: bit_simps high del: One_nat_def)
  moreover assume "v \<in> set (b32_values s0 s1 s2 s3 s4)"
  ultimately show "unat v < 32" by (auto simp: list_all_iff intro: small)
qed

text \<open>The accumulator after some values.\<close>

definition acc32 :: "u64 \<Rightarrow> u8 list \<Rightarrow> u64" where
  "acc32 = foldl (\<lambda>c v. push_bit 5 c OR ucast v)"

lemma acc32_simps: "acc32 ch [] = ch" "acc32 ch (v # vs) = acc32 (push_bit 5 ch OR ucast v) vs"
  by (simp_all add: acc32_def)


lemma acc32_bits:
  assumes n: "n < 40"
  shows "bit (acc32 ch (b32_values s0 s1 s2 s3 s4)) n \<longleftrightarrow> bit (push_bit 32 (ucast s0) OR push_bit 24 (ucast s1) OR push_bit 16 (ucast s2)
    OR push_bit 8 (ucast s3) OR ucast s4 :: u64) n"
proof -
  have high: "bit s k = False" if "8 \<le> k" for s :: u8 and k
    using that by (auto dest: bit_imp_le_length)
  have "n < 5 \<or> (\<exists>k<3. n = k + 5) \<or> (\<exists>k<2. n = k + 8) \<or> (\<exists>k<5. n = k + 10) \<or> n = 15
      \<or> (\<exists>k<4. n = k + 16) \<or> (\<exists>k<4. n = k + 20) \<or> n = 24 \<or> (\<exists>k<5. n = k + 25) \<or> (\<exists>k<2. n = k + 30)
      \<or> (\<exists>k<3. n = k + 32) \<or> (\<exists>k<5. n = k + 35)"
    using n by presburger
  thus ?thesis
    unfolding b32_values_eq acc32_simps
    by (elim disjE exE conjE) (simp_all add: bit_simps high ac_simps del: One_nat_def, simp only: Suc_eq_plus1)
qed

lemma b32_bytes_acc: "b32_bytes (acc32 ch (b32_values s0 s1 s2 s3 s4)) = [s0, s1, s2, s3, s4]"
proof -
  have high: "bit s k = False" if "8 \<le> k" for s :: u8 and k
    using that by (auto dest: bit_imp_le_length)
  show ?thesis
    unfolding b32_bytes_def
    by (intro arg_cong2[where f = "(#)"] refl; rule bit_word_eqI)
      (simp_all add: bit_simps acc32_bits high ac_simps)
qed


section \<open>The round trip\<close>

lemma ucast_up: "ucast (ucast (v::u8) :: u32) = (ucast v :: u64)"
  by (rule bit_word_eqI) (auto simp: bit_simps dest: bit_imp_le_length)

lemma decode32_step:
  assumes "base32_code i t = Some v" "i < 7"
  shows "decode32_loop ch i seen (t # src) = decode32_loop (push_bit 5 ch OR ucast v) (i + 1) (t # seen) src"
  using assms by simp

lemma decode32_last:
  assumes "base32_code 7 t = Some v"
  shows "decode32_loop ch 7 seen (t # src) =
    (let ch' = push_bit 5 ch OR ucast v
     in if t = 61 then (take (5 - (length (takeWhile (\<lambda>c. c = 61) (t # seen)) + 1) * 2 div 3) (b32_bytes ch'), 0, src)
        else (let (out, i, rest) = decode32_loop ch' 0 (t # seen) src in (b32_bytes ch' @ out, i, rest)))"
  using assms by (simp add: Let_def)

declare decode32_loop.simps(2) [simp del]

lemma decode32_values:
  assumes "i + length vs < 8" "\<forall>v \<in> set vs. unat v < 32"
  shows "decode32_loop ch i seen (map (\<lambda>v. bb_uuenc_tbl_base32 ! unat v) vs @ src) =
    decode32_loop (acc32 ch vs) (i + length vs) (rev (map (\<lambda>v. bb_uuenc_tbl_base32 ! unat v) vs) @ seen) src"
  using assms
proof (induction vs arbitrary: ch i seen)
  case (Cons v vs)
  thus ?case using decode32_step[OF value_code[of v i]] Cons.IH[of "i + 1"]
    by (simp add: acc32_simps ucast_up)
qed (simp add: acc32_simps)

lemma decode32_pads:
  assumes "1 < i" "i + n < 8"
  shows "decode32_loop ch i seen (replicate n 61 @ src) =
    decode32_loop (acc32 ch (replicate n 0)) (i + n) (replicate n 61 @ seen) src"
  using assms
proof (induction n arbitrary: ch i seen)
  case (Suc n)
  thus ?case using decode32_step[OF pad32_code[of i]] Suc.IH[of "i + 1"]
    by (simp add: acc32_simps replicate_app_Cons_same)
qed (simp add: acc32_simps)

lemma acc32_append: "acc32 ch (xs @ ys) = acc32 (acc32 ch xs) ys"
  by (simp add: acc32_def)

lemma length_b32_values: "length (b32_values s0 s1 s2 s3 s4) = 8"
  by (simp add: b32_values_def)

lemma decode32_block:
  "decode32_loop ch 0 seen (b32_block s0 s1 s2 s3 s4 @ src) =
     (let (out, i, rest) = decode32_loop (acc32 ch (b32_values s0 s1 s2 s3 s4)) 0
            (rev (b32_block s0 s1 s2 s3 s4) @ seen) src
      in ([s0, s1, s2, s3, s4] @ out, i, rest))"
proof -
  let ?vs = "b32_values s0 s1 s2 s3 s4" and ?tbl = "\<lambda>v. bb_uuenc_tbl_base32 ! unat (v::u8)"
  define us v where "us = butlast ?vs" and "v = last ?vs"
  have "?vs \<noteq> []" using length_b32_values[of s0 s1 s2 s3 s4] by auto
  hence vs: "?vs = us @ [v]" by (simp add: us_def v_def)
  have len: "length us = 7" by (simp add: us_def length_b32_values)
  have small: "\<forall>v \<in> set us. unat v < 32" "unat v < 32"
    using b32_values_bound[of _ s0 s1 s2 s3 s4] by (simp_all add: vs)
  have block: "b32_block s0 s1 s2 s3 s4 = map ?tbl us @ [?tbl v]" by (simp add: b32_block_def vs)
  have "decode32_loop ch 0 seen (map ?tbl us @ ?tbl v # src) =
      decode32_loop (acc32 ch us) 7 (rev (map ?tbl us) @ seen) (?tbl v # src)"
    using decode32_values[of 0 us] len small by simp
  also have "\<dots> = (let (out, i, rest) = decode32_loop (acc32 ch ?vs) 0 (?tbl v # rev (map ?tbl us) @ seen) src
      in (b32_bytes (acc32 ch ?vs) @ out, i, rest))"
    using decode32_last[OF value_code[OF small(2)]] tbl32_code(2)[OF small(2)]
    by (simp add: vs acc32_append acc32_simps ucast_up Let_def)
  finally show ?thesis by (simp add: block b32_bytes_acc)
qed

lemma decode32_padded:
  assumes vs: "b32_values s0 s1 s2 s3 s4 = us @ replicate (Suc n) 0" and n: "n < 6"
  shows "decode32_loop ch 0 seen (map (\<lambda>v. bb_uuenc_tbl_base32 ! unat v) us @ replicate (Suc n) 61) =
    (take (5 - (n + 2) * 2 div 3) [s0, s1, s2, s3, s4], 0, [])"
proof -
  let ?tbl = "\<lambda>v. bb_uuenc_tbl_base32 ! unat (v::u8)"
  have len: "length us + Suc n = 8" using arg_cong[OF vs, of length] by (simp add: length_b32_values)
  hence "us \<noteq> []" using n by auto
  then obtain ws v where us: "us = ws @ [v]" by (metis rev_exhaust)
  have small: "\<forall>v \<in> set us. unat v < 32"
    using b32_values_bound[of _ s0 s1 s2 s3 s4] by (simp add: vs)
  have "replicate (Suc n) 61 = replicate n 61 @ [61::u8]" by (simp add: replicate_append_same)
  hence "decode32_loop ch 0 seen (map ?tbl us @ replicate (Suc n) 61) =
      decode32_loop (acc32 (acc32 ch us) (replicate n 0)) 7 (replicate n 61 @ rev (map ?tbl us) @ seen) [61]"
    using decode32_values[of 0 us ch seen "replicate n 61 @ [61]"] small len n
      decode32_pads[of "length us" n "acc32 ch us" "rev (map ?tbl us) @ seen" "[61]"] by simp
  also have "\<dots> = (take (5 - (n + 2) * 2 div 3) (b32_bytes (acc32 ch (us @ replicate (Suc n) 0))), 0, [])"
    using tbl32_code(2)[of "unat v"] small
    by (simp add: decode32_last[OF pad32_code] us acc32_append acc32_simps takeWhile_append
        Let_def flip: replicate_append_same)
  finally show ?thesis by (simp only: b32_bytes_acc flip: vs)
qed


text \<open>The zero values behind one to four bytes.\<close>

lemma b32_values_pads:
  "\<exists>us. b32_values s0 0 0 0 0 = us @ replicate (Suc 5) 0"
  "\<exists>us. b32_values s0 s1 0 0 0 = us @ replicate (Suc 3) 0"
  "\<exists>us. b32_values s0 s1 s2 0 0 = us @ replicate (Suc 2) 0"
  "\<exists>us. b32_values s0 s1 s2 s3 0 = us @ replicate (Suc 0) 0"
proof -
  have r: "replicate 6 (0::u8) = [0, 0, 0, 0, 0, 0]" "replicate 4 (0::u8) = [0, 0, 0, 0]" "replicate 3 (0::u8) = [0, 0, 0]"
    by (simp_all add: eval_nat_numeral)
  show "\<exists>us. b32_values s0 0 0 0 0 = us @ replicate (Suc 5) 0"
    by (rule exI[of _ "[drop_bit 3 s0, push_bit 2 (s0 AND 7)]"]) (simp add: b32_values_def r)
  show "\<exists>us. b32_values s0 s1 0 0 0 = us @ replicate (Suc 3) 0"
    by (rule exI[of _ "[drop_bit 3 s0, push_bit 2 (s0 AND 7) + drop_bit 6 s1, drop_bit 1 (s1 AND 0x3f),
      push_bit 4 (s1 AND 0x3f AND 1)]"]) (simp add: b32_values_def r)
  show "\<exists>us. b32_values s0 s1 s2 0 0 = us @ replicate (Suc 2) 0"
    by (rule exI[of _ "[drop_bit 3 s0, push_bit 2 (s0 AND 7) + drop_bit 6 s1, drop_bit 1 (s1 AND 0x3f),
      push_bit 4 (s1 AND 0x3f AND 1) + drop_bit 4 s2, push_bit 1 (s2 AND 0xf)]"]) (simp add: b32_values_def r)
  show "\<exists>us. b32_values s0 s1 s2 s3 0 = us @ replicate (Suc 0) 0"
    by (rule exI[of _ "[drop_bit 3 s0, push_bit 2 (s0 AND 7) + drop_bit 6 s1, drop_bit 1 (s1 AND 0x3f),
      push_bit 4 (s1 AND 0x3f AND 1) + drop_bit 4 s2, push_bit 1 (s2 AND 0xf) + drop_bit 7 s3,
      drop_bit 2 (s3 AND 0x7f), push_bit 3 (s3 AND 0x7f AND 3)]"]) (simp add: b32_values_def r)
qed

text \<open>What the encoder writes for the last one to four bytes, and how it is read.\<close>

lemma decode32_tail:
  assumes "\<exists>us. b32_values s0 s1 s2 s3 s4 = us @ replicate (Suc n) 0" and n: "n < 6"
  shows "decode32_loop ch 0 seen (take (8 - Suc n) (b32_block s0 s1 s2 s3 s4) @ replicate (Suc n) 61) =
    (take (5 - (n + 2) * 2 div 3) [s0, s1, s2, s3, s4], 0, [])"
proof -
  obtain us where us: "b32_values s0 s1 s2 s3 s4 = us @ replicate (Suc n) 0" using assms(1) by blast
  have "length us = 8 - Suc n" using arg_cong[OF us, of length] by (simp add: length_b32_values)
  hence "take (8 - Suc n) (b32_block s0 s1 s2 s3 s4) = map (\<lambda>v. bb_uuenc_tbl_base32 ! unat v) us"
    by (simp add: b32_block_def us del: replicate_Suc)
  thus ?thesis by (simp only: decode32_padded[OF us n])
qed

lemma length_b32_block: "length (b32_block s0 s1 s2 s3 s4) = 8"
  by (simp add: b32_block_def length_b32_values)

lemma bb_b32encode_short:
  "bb_b32encode [] = []"
  "bb_b32encode [s0] = take (8 - Suc 5) (b32_block s0 0 0 0 0) @ replicate (Suc 5) 61"
  "bb_b32encode [s0, s1] = take (8 - Suc 3) (b32_block s0 s1 0 0 0) @ replicate (Suc 3) 61"
  "bb_b32encode [s0, s1, s2] = take (8 - Suc 2) (b32_block s0 s1 s2 0 0) @ replicate (Suc 2) 61"
  "bb_b32encode [s0, s1, s2, s3] = take (8 - Suc 0) (b32_block s0 s1 s2 s3 0) @ replicate (Suc 0) 61"
  by (simp_all add: bb_b32encode_def length_b32_block Let_def del: replicate_Suc take_Suc)

lemma b32_loop_length: "length (b32_loop src) = (length src + 4) div 5 * 8"
proof (induction src rule: b32_loop.induct)
  case (6 s0 s1 s2 s3 s4 s)
  have "(length (s0 # s1 # s2 # s3 # s4 # s) + 4) div 5 = (length s + 4) div 5 + 1" by simp
  with 6 show ?case by (simp add: length_b32_block)
qed (simp_all add: length_b32_block)

lemma pad32_le: "(5 - n mod 5) mod 5 * 3 div 2 \<le> (n + 4) div 5 * (8::nat)"
proof (cases "n mod 5 = 0")
  case False
  hence "1 \<le> n" by (cases n) auto
  hence "1 \<le> (n + 4) div 5" by simp
  moreover have "(5 - n mod 5) mod 5 * 3 div 2 \<le> (4 * 3 div 2 :: nat)"
    by (intro div_le_mono mult_le_mono1) (simp add: less_Suc_eq_le[symmetric])
  ultimately show ?thesis by linarith
qed simp

lemma bb_b32encode_step:
  "bb_b32encode (s0 # s1 # s2 # s3 # s4 # src) = b32_block s0 s1 s2 s3 s4 @ bb_b32encode src"
proof -
  define n where "n = (5 - length src mod 5) mod 5 * 3 div 2"
  have m: "(5 - length (s0 # s1 # s2 # s3 # s4 # src) mod 5) mod 5 * 3 div 2 = n"
    by (simp add: n_def mod_Suc)
  have "n \<le> length (b32_loop src)"
    unfolding n_def b32_loop_length by (rule pad32_le)
  thus ?thesis
    unfolding bb_b32encode_def Let_def m n_def[symmetric] by (simp add: length_b32_block)
qed

lemma decode32_encode: "decode32_loop ch 0 seen (bb_b32encode src) = (src, 0, [])"
proof (induction src arbitrary: ch seen rule: b32_loop.induct)
  case 1
  show ?case unfolding bb_b32encode_short by simp
next
  case (2 s0)
  show ?case unfolding bb_b32encode_short by (subst decode32_tail[OF b32_values_pads(1)]) simp_all
next
  case (3 s0 s1)
  show ?case unfolding bb_b32encode_short by (subst decode32_tail[OF b32_values_pads(2)]) simp_all
next
  case (4 s0 s1 s2)
  show ?case unfolding bb_b32encode_short by (subst decode32_tail[OF b32_values_pads(3)]) simp_all
next
  case (5 s0 s1 s2 s3)
  show ?case unfolding bb_b32encode_short by (subst decode32_tail[OF b32_values_pads(4)]) simp_all
next
  case (6 s0 s1 s2 s3 s4 src)
  thus ?case unfolding bb_b32encode_step decode32_block by simp
qed

lemma base32_roundtrip: "decode_base32 (bb_b32encode src) = (src, [])"
  by (simp add: decode_base32_def decode32_encode)

end
