(* ===== verification/Bb_Strtonum.thy ===== *)
theory Bb_Strtonum
  imports Cxx_Strings
begin

text \<open>
  \<open>src/busybox/libbb/bb_strtonum.c\<close>: the conversions from text to numbers of the user land, with their
  stricter treatment of errors, over \<open>strtoull\<close> and \<open>strtoll\<close> of the C library. \<open>unsigned long\<close> has 64
  bits on the target. A result is the value, \<open>errno\<close> and the rest of the text behind the number.
\<close>

section \<open>Definitions\<close>

datatype errno = No_error | EINVAL | ERANGE

definition alnum_val :: "char \<Rightarrow> nat option" where
  "alnum_val c = (let n = (of_char c :: nat) in
     if 48 \<le> n \<and> n \<le> 57 then Some (n - 48)
     else if 65 \<le> n \<and> n \<le> 90 then Some (n - 65 + 10)
     else if 97 \<le> n \<and> n \<le> 122 then Some (n - 97 + 10)
     else None)"

definition isalnum :: "char \<Rightarrow> bool" where
  "isalnum c \<longleftrightarrow> alnum_val c \<noteq> None"

definition base_digit :: "nat \<Rightarrow> char \<Rightarrow> bool" where
  "base_digit b c \<longleftrightarrow> (case alnum_val c of None \<Rightarrow> False | Some v \<Rightarrow> v < b)"

definition base_val :: "nat \<Rightarrow> string \<Rightarrow> nat" where
  "base_val b s = foldl (\<lambda>a c. b * a + the (alnum_val c)) 0 s"

text \<open>
  What \<open>strtoull\<close> and \<open>strtoll\<close> recognise: blanks, a sign, a prefix for base 16 or 0, digits. The result
  is the sign, the magnitude and the rest; without a digit the number is 0 and the rest is the text.
\<close>

definition hex_prefixed :: "string \<Rightarrow> bool" where
  "hex_prefixed s = (case s of
     z # x # d # _ \<Rightarrow> z = CHR ''0'' \<and> (x = CHR ''x'' \<or> x = CHR ''X'') \<and> base_digit 16 d | _ \<Rightarrow> False)"

definition strto :: "nat \<Rightarrow> string \<Rightarrow> bool \<times> nat \<times> string" where
  "strto base s =
     (let (neg, u) = scan_sign (dropWhile is_space s);
          (b, t) = (if (base = 0 \<or> base = 16) \<and> hex_prefixed u then (16, drop 2 u)
                    else if base = 0 then (if take 1 u = ''0'' then 8 else 10, u) else (base, u));
          ds = takeWhile (base_digit b) t
      in if ds = [] then (False, 0, s) else (neg, base_val b ds, dropWhile (base_digit b) t))"

definition ULLONG_MAX :: nat where "ULLONG_MAX = 2 ^ 64 - 1"

definition strtoull :: "nat \<Rightarrow> string \<Rightarrow> nat \<times> errno \<times> string" where
  "strtoull base s = (let (neg, m, rest) = strto base s in
     if ULLONG_MAX < m then (ULLONG_MAX, ERANGE, rest)
     else (if neg then (2 ^ 64 - m) mod 2 ^ 64 else m, No_error, rest))"

definition strtoll :: "nat \<Rightarrow> string \<Rightarrow> int \<times> errno \<times> string" where
  "strtoll base s = (let (neg, m, rest) = strto base s; v = signed_val neg m in
     if v < - (2 ^ 63) then (- (2 ^ 63), ERANGE, rest)
     else if 2 ^ 63 - 1 < v then (2 ^ 63 - 1, ERANGE, rest)
     else (v, No_error, rest))"

text \<open>\<open>ret_ERANGE\<close> and \<open>handle_errors\<close>; the value passes through \<open>unsigned long long\<close>.\<close>

definition ret_ERANGE :: "string \<Rightarrow> nat \<times> errno \<times> string" where
  "ret_ERANGE rest = (ULLONG_MAX, ERANGE, rest)"

definition handle_errors :: "nat \<Rightarrow> errno \<Rightarrow> string \<Rightarrow> nat \<times> errno \<times> string" where
  "handle_errors v e endp = (case endp of
      [] \<Rightarrow> (v, e, endp)
    | next_ch # _ \<Rightarrow> if isalnum next_ch \<or> e \<noteq> No_error then ret_ERANGE endp else (v, EINVAL, endp))"

definition starts_alnum :: "string \<Rightarrow> bool" where
  "starts_alnum s = (case s of [] \<Rightarrow> False | c # _ \<Rightarrow> isalnum c)"

definition after_minus :: "string \<Rightarrow> string" where
  "after_minus s = (case s of c # t \<Rightarrow> if c = CHR ''-'' then t else s | [] \<Rightarrow> s)"

definition bb_strtoull :: "nat \<Rightarrow> string \<Rightarrow> nat \<times> errno \<times> string" where
  "bb_strtoull base arg =
     (if \<not> starts_alnum arg then ret_ERANGE arg
      else let (v, e, endp) = strtoull base arg in handle_errors v e endp)"

definition bb_strtoll :: "nat \<Rightarrow> string \<Rightarrow> int \<times> errno \<times> string" where
  "bb_strtoll base arg =
     (let (v, e, rest) =
        (if \<not> starts_alnum (after_minus arg) then ret_ERANGE arg
         else let (v, e, endp) = strtoll base arg in handle_errors (nat (v mod 2 ^ 64)) e endp)
      in (to_i64 (int v), e, rest))"

definition bb_strtou :: "nat \<Rightarrow> string \<Rightarrow> nat \<times> errno \<times> string" where
  "bb_strtou base arg =
     (let (v, e, rest) =
        (if \<not> starts_alnum arg then ret_ERANGE arg
         else let (v, e, endp) = strtoull base arg
              in if 2 ^ 32 - 1 < v then ret_ERANGE endp else handle_errors v e endp)
      in (v mod 2 ^ 32, e, rest))"

definition bb_strtoi :: "nat \<Rightarrow> string \<Rightarrow> int \<times> errno \<times> string" where
  "bb_strtoi base arg =
     (let (v, e, rest) =
        (if \<not> starts_alnum (after_minus arg) then ret_ERANGE arg
         else let (v, e, endp) = strtoll base arg
              in if 2 ^ 31 - 1 < v then ret_ERANGE endp
                 else if v < - (2 ^ 31) then ret_ERANGE endp
                 else handle_errors (nat (v mod 2 ^ 64)) e endp)
      in (to_i32 (int v), e, rest))"

section \<open>What is accepted\<close>

lemma digit_alnum: "is_digit c \<longleftrightarrow> base_digit 10 c"
  by (auto simp: is_digit_def base_digit_def alnum_val_def Let_def)

lemma is_digit_alnum: "is_digit c \<Longrightarrow> isalnum c"
  by (auto simp: is_digit_def isalnum_def alnum_val_def Let_def)

lemma base_val_dec: "list_all is_digit s \<Longrightarrow> base_val 10 s = dec_val s"
proof -
  have "foldl (\<lambda>a c. 10 * a + the (alnum_val c)) k s = foldl (\<lambda>a c. 10 * a + digit_val c) k s"
    if "list_all is_digit s" for k
    using that by (induction s arbitrary: k) (auto simp: is_digit_def alnum_val_def digit_val_def Let_def)
  thus "list_all is_digit s \<Longrightarrow> base_val 10 s = dec_val s"
    by (simp add: base_val_def dec_val_def)
qed

lemma alnum_plain:
  assumes "starts_alnum s"
  shows "scan_sign (dropWhile is_space s) = (False, s)"
  using assms
  by (cases s) (auto simp: starts_alnum_def isalnum_def alnum_val_def is_space_def scan_sign_def Let_def split: if_splits)

lemma strto_10:
  assumes "starts_alnum s"
  shows "strto 10 s = (let ds = takeWhile is_digit s in
     if ds = [] then (False, 0, s) else (False, dec_val ds, dropWhile is_digit s))"
proof -
  have "base_digit 10 = is_digit" by (rule ext) (simp add: digit_alnum)
  moreover have "list_all is_digit (takeWhile is_digit s)"
    by (auto simp: list_all_iff dest: set_takeWhileD)
  ultimately show ?thesis
    using assms by (simp add: strto_def alnum_plain base_val_dec Let_def)
qed

text \<open>In base 10 exactly the decimal numerals below \<open>2 ^ 64\<close> are accepted without an error.\<close>

lemma bb_strtoull_10:
  "(\<exists>v rest. bb_strtoull 10 s = (v, No_error, rest)) \<longleftrightarrow> s \<noteq> [] \<and> list_all is_digit s \<and> dec_val s < 2 ^ 64"
  "s \<noteq> [] \<Longrightarrow> list_all is_digit s \<Longrightarrow> dec_val s < 2 ^ 64 \<Longrightarrow> bb_strtoull 10 s = (dec_val s, No_error, [])"
proof -
  have accept: "bb_strtoull 10 s = (dec_val s, No_error, [])"
    if "s \<noteq> []" "list_all is_digit s" "dec_val s < 2 ^ 64"
  proof -
    have a: "starts_alnum s" using that by (cases s) (auto simp: starts_alnum_def is_digit_alnum)
    have "takeWhile is_digit s = s" "dropWhile is_digit s = []"
      using that by (auto simp: list_all_iff takeWhile_eq_all_conv dropWhile_eq_Nil_conv)
    hence "strto 10 s = (False, dec_val s, [])"
      unfolding strto_10[OF a] Let_def using that(1) by (simp only: if_False)
    thus ?thesis
      using that a by (simp add: bb_strtoull_def strtoull_def handle_errors_def ULLONG_MAX_def)
  qed
  thus "s \<noteq> [] \<Longrightarrow> list_all is_digit s \<Longrightarrow> dec_val s < 2 ^ 64 \<Longrightarrow> bb_strtoull 10 s = (dec_val s, No_error, [])" .
  have "s \<noteq> [] \<and> list_all is_digit s \<and> dec_val s < 2 ^ 64" if "bb_strtoull 10 s = (v, No_error, rest)" for v rest
  proof -
    have a: "starts_alnum s"
      using that by (auto simp: bb_strtoull_def ret_ERANGE_def split: if_splits)
    have d: "dropWhile is_digit s = []" and ne: "takeWhile is_digit s \<noteq> []" and b: "dec_val (takeWhile is_digit s) \<le> ULLONG_MAX"
      using that a
      by (auto simp: bb_strtoull_def strtoull_def strto_10 handle_errors_def ret_ERANGE_def Let_def starts_alnum_def
          split: if_splits list.splits)
    from d have "takeWhile is_digit s = s" by (simp add: takeWhile_eq_all_conv dropWhile_eq_Nil_conv)
    with d ne b show ?thesis by (auto simp: dropWhile_eq_Nil_conv list_all_iff ULLONG_MAX_def)
  qed
  with accept show "(\<exists>v rest. bb_strtoull 10 s = (v, No_error, rest)) \<longleftrightarrow> s \<noteq> [] \<and> list_all is_digit s \<and> dec_val s < 2 ^ 64"
    by blast
qed

lemma bb_strtoull_show_nat: "n < 2 ^ 64 \<Longrightarrow> bb_strtoull 10 (show_nat n) = (n, No_error, [])"
  using bb_strtoull_10(2)[of "show_nat n"] by (auto simp: list_all_iff)


lemma strto_show_int: "strto 10 (show_int i) = (i < 0, nat \<bar>i\<bar>, [])"
proof -
  have d: "base_digit 10 = is_digit" by (rule ext) (simp add: digit_alnum)
  have w: "takeWhile is_digit (show_nat n) = show_nat n" "dropWhile is_digit (show_nat n) = []" for n
    using takeWhile_show_nat[of n "[]"] dropWhile_show_nat[of n "[]"] by simp_all
  have v: "base_val 10 (show_nat n) = n" for n
    by (subst base_val_dec) (auto simp: list_all_iff)
  have "scan_sign (dropWhile is_space (show_int i)) = (i < 0, show_nat (nat \<bar>i\<bar>))"
    using dropWhile_space_show_nat[of "nat i" "[]"] scan_sign_show_nat[of "nat i" "[]"]
    by (cases "i < 0") (simp_all add: show_int_def, simp add: scan_sign_def)
  thus ?thesis unfolding strto_def by (simp add: d w v del: dropWhile_eq_Nil_conv takeWhile_eq_all_conv)
qed

lemma starts_alnum_show_int: "starts_alnum (after_minus (show_int i))"
proof -
  have "starts_alnum (show_nat n)" "after_minus (show_nat n) = show_nat n" for n
    using show_nat_digits[of "hd (show_nat n)" n] show_nat_neq_Nil[of n]
    by (cases "show_nat n"; auto simp: starts_alnum_def after_minus_def is_digit_alnum)+
  thus ?thesis by (auto simp: show_int_def after_minus_def split: list.splits)
qed

text \<open>Every \<open>int\<close> is read back from its decimal text, the smallest one included.\<close>

lemma bb_strtoi_show_int:
  assumes "is_i32 i"
  shows "bb_strtoi 10 (show_int i) = (i, No_error, [])"
proof -
  have "strtoll 10 (show_int i) = (i, No_error, [])"
    using assms by (auto simp: strtoll_def strto_show_int is_i32_def Let_def)
  moreover have "to_i32 (i mod 2 ^ 64) = i"
  proof -
    have "(i mod 2 ^ 64) mod 2 ^ 32 = i mod 2 ^ 32" by (rule mod_mod_cancel) simp
    hence "to_i32 (i mod 2 ^ 64) = to_i32 i" unfolding to_signed_def by (metis mod_add_left_eq)
    with assms show ?thesis by simp
  qed
  ultimately show ?thesis
    using assms starts_alnum_show_int[of i] by (simp add: bb_strtoi_def handle_errors_def is_i32_def Let_def)
qed

end
