(* ===== verification/Bb_Wheel.thy ===== *)
theory Bb_Wheel
  imports Prelude
begin

text \<open>
  The table of trial divisors of \<open>src/busybox/coreutils/factor.c\<close>: \<open>packed_wheel\<close> with its packing macros and
  \<open>unpack_wheel\<close>. The table is evaluated once here: it has the increments that its rows name, and on its way
  it steps over nothing but multiples of 2, 3, 5, 7 and 11.
\<close>

section \<open>Definitions\<close>

definition wheel_rows :: "nat list list" where
  "wheel_rows =
    [[2, 4, 2, 4, 2, 4, 6, 2, 6, 4, 2, 4, 6, 6, 2, 6, 4, 2, 6, 4, 6],
     [8, 4, 2, 4, 2, 4, 14, 4, 6, 2, 10, 2, 6, 6, 4, 2, 4, 6, 2, 10, 2],
     [4, 2, 12, 10, 2, 4, 2, 4, 6, 2, 6, 4, 6, 6, 6, 2, 6, 4, 2, 6, 4],
     [6, 8, 4, 2, 4, 6, 8, 6, 10, 2, 4, 6, 2, 6, 6, 4, 2, 4, 6, 2, 6],
     [4, 2, 6, 10, 2, 10, 2, 4, 2, 4, 6, 8, 4, 2, 4, 12, 2, 6, 4, 2, 6],
     [4, 6, 12, 2, 4, 2, 4, 8, 6, 4, 6, 2, 4, 6, 2, 6, 10, 2, 4, 6, 2],
     [6, 4, 2, 4, 2, 10, 2, 10, 2, 4, 6, 6, 2, 6, 6, 4, 6, 6, 2, 6, 4],
     [2, 6, 4, 6, 8, 4, 2, 6, 4, 8, 6, 4, 6, 2, 4, 6, 8, 6, 4, 2, 10],
     [2, 6, 4, 2, 4, 2, 10, 2, 10, 2, 4, 2, 4, 8, 6, 4, 2, 4, 6, 6, 2],
     [6, 4, 8, 4, 6, 8, 4, 2, 4, 2, 4, 8, 6, 4, 6, 6, 6, 2, 6, 6, 4],
     [2, 4, 6, 2, 6, 4, 2, 4, 2, 10, 2, 10, 2, 6, 4, 6, 2, 6, 4, 2, 4],
     [6, 6, 8, 4, 2, 6, 10, 8, 4, 2, 4, 2, 4, 8, 10, 6, 2, 4, 8, 6, 6],
     [4, 2, 4, 6, 2, 6, 4, 6, 2, 10, 2, 10, 2, 4, 2, 4, 6, 2, 6, 4, 2],
     [4, 6, 6, 2, 6, 6, 6, 4, 6, 8, 4, 2, 4, 2, 4, 8, 6, 4, 8, 4, 6],
     [2, 6, 6, 4, 2, 4, 6, 8, 4, 2, 4, 2, 10, 2, 10, 2, 4, 2, 4, 6, 2],
     [10, 2, 4, 6, 8, 6, 4, 2, 6, 4, 6, 8, 4, 6, 2, 4, 8, 6, 4, 6, 2],
     [4, 6, 2, 6, 6, 4, 6, 6, 2, 6, 6, 4, 2, 10, 2, 10, 2, 4, 2, 4, 6],
     [2, 6, 4, 2, 10, 6, 2, 6, 4, 2, 6, 4, 6, 8, 4, 2, 4, 2, 12, 6, 4],
     [6, 2, 4, 6, 2, 12, 4, 2, 4, 8, 6, 4, 2, 4, 2, 10, 2, 10, 6, 2, 4],
     [6, 2, 6, 4, 2, 4, 6, 6, 2, 6, 4, 2, 10, 6, 8, 6, 4, 2, 4, 8, 6],
     [4, 6, 2, 4, 6, 2, 6, 6, 6, 4, 6, 2, 6, 4, 2, 4, 2, 10, 12, 2, 4],
     [2, 10, 2, 6, 4, 2, 4, 6, 6, 2, 10, 2, 6, 4, 14, 4, 2, 4, 2, 4, 8],
     [6, 4, 6, 2, 4, 6, 2, 6, 6, 4, 2, 4, 6, 2, 6, 4, 2, 4, 12, 2, 12]]"

text \<open>The macros \<open>P\<close> and \<open>R\<close>: 21 halved increments in three-bit fields.\<close>

fun fields :: "nat \<Rightarrow> nat list \<Rightarrow> u64" where
  "fields k [] = 0"
| "fields k (a # as) = push_bit k (of_nat a) OR fields (k + 3) as"

definition wheel_R :: "nat list \<Rightarrow> u64" where
  "wheel_R hs = push_bit 1 (fields 0 (take 10 hs)) OR push_bit 31 (fields 0 (take 10 (drop 10 hs)))
     OR push_bit 61 (of_nat (hs ! 20))"

definition wheel_P :: "nat list \<Rightarrow> u64" where
  "wheel_P as = wheel_R (map (\<lambda>a. a div 2) as)"

definition packed_wheel :: "u64 list" where
  "packed_wheel = map wheel_P wheel_rows"

function unpack_word :: "u64 \<Rightarrow> nat list" where
  "unpack_word v = (if v AND 0xe \<noteq> 0 then unat (v AND 0xe) # unpack_word (drop_bit 3 v) else [])"
  by pat_completeness auto
termination
proof (relation "measure unat")
  fix v :: u64
  assume "v AND 0xe \<noteq> 0"
  hence "v \<noteq> 0" by auto
  hence "0 < unat v" by (simp add: unat_gt_0)
  thus "(drop_bit 3 v, v) \<in> measure unat"
    by (simp add: drop_bit_eq_div unat_div div_less_dividend)
qed simp

declare unpack_word.simps [simp del]

definition wheel_tab :: "nat list" where
  "wheel_tab = 1 # 2 # concat (map unpack_word packed_wheel)"

definition WHEEL_START :: nat where "WHEEL_START = 5"

definition WHEEL_SIZE :: nat where "WHEEL_SIZE = 5 + 24 * 20"

section \<open>The wheel is what its rows say\<close>

lemma unpack_steps:
  "v AND 0xe \<noteq> 0 \<Longrightarrow> unpack_word v = unat (v AND 0xe) # unpack_word (drop_bit 3 v)"
  "v AND 0xe = 0 \<Longrightarrow> unpack_word v = []"
  by (simp_all add: unpack_word.simps[of v])

lemma wheel_tab_eq: "wheel_tab = 1 # 2 # concat wheel_rows"
  unfolding wheel_tab_def packed_wheel_def wheel_rows_def wheel_P_def wheel_R_def
  by (simp add: unpack_steps)


text \<open>
  Running along the wheel from \<open>off\<close>: every number that is stepped over is a proper multiple of 2, 3, 5, 7
  or 11.
\<close>

definition skipped :: "nat \<Rightarrow> bool" where
  "skipped m \<longleftrightarrow> (if m mod 2 = 0 then 2 < m else if m mod 3 = 0 then 3 < m else if m mod 5 = 0 then 5 < m
     else if m mod 7 = 0 then 7 < m else m mod 11 = 0 \<and> 11 < m)"

fun gaps_ok :: "nat \<Rightarrow> nat list \<Rightarrow> bool" where
  "gaps_ok off [] \<longleftrightarrow> True"
| "gaps_ok off (g # gs) \<longleftrightarrow> 0 < g \<and> list_all skipped [off + 1..<off + g] \<and> gaps_ok (off + g) gs"

lemma gaps_ok_append: "gaps_ok off (xs @ ys) \<longleftrightarrow> gaps_ok off xs \<and> gaps_ok (off + sum_list xs) ys"
  by (induction off xs rule: gaps_ok.induct) (simp_all add: add.assoc)

fun rows_ok :: "nat \<Rightarrow> nat list list \<Rightarrow> bool" where
  "rows_ok off [] \<longleftrightarrow> True"
| "rows_ok off (r # rs) \<longleftrightarrow> gaps_ok off r \<and> rows_ok (off + sum_list r) rs"

lemma rows_ok: "rows_ok off rs \<longleftrightarrow> gaps_ok off (concat rs)"
  by (induction off rs rule: rows_ok.induct) (simp_all add: gaps_ok_append)

lemma wheel_gaps: "gaps_ok 2 wheel_tab"
proof -
  have "rows_ok 5 wheel_rows"
    unfolding wheel_rows_def by (simp add: skipped_def)
  thus ?thesis by (simp add: wheel_tab_eq rows_ok skipped_def)
qed

lemma wheel_length: "length wheel_tab = WHEEL_SIZE"
  unfolding wheel_tab_eq wheel_rows_def by (simp add: WHEEL_SIZE_def)

lemma wheel_turn: "sum_list (take WHEEL_START wheel_tab) = 11" "sum_list wheel_tab = 11 + 2310"
  unfolding wheel_tab_eq wheel_rows_def by (simp_all add: WHEEL_START_def)

lemma wheel_small: "list_all (\<lambda>g. g \<le> 14) wheel_tab"
  unfolding wheel_tab_eq wheel_rows_def by simp

end
