(* ===== verification/Bb_Factor.thy ===== *)
theory Bb_Factor
  imports Bb_Strtonum Bb_Wheel
begin

text \<open>
  The applet \<open>factor\<close> of the user land, \<open>src/busybox/coreutils/factor.c\<close>, with the integer square root of
  \<open>src/busybox/libbb/isqrt.c\<close>. Numbers are naturals and every wrap-around is written out: \<open>wide_t\<close> has 64
  bits, \<open>half_t\<close> 32 bits and \<open>square_count\<close> 8 bits. \<open>factorize\<close>, its loop and \<open>isqrt_odd\<close> call each other;
  they are one partial function on the pending call, whose value is the list of numbers printed.
\<close>

section \<open>Definitions\<close>

subsection \<open>Integer square root\<close>

fun isqrt_loop :: "nat \<Rightarrow> nat \<Rightarrow> nat \<Rightarrow> nat" where
  "isqrt_loop N x shift =
     (let x1 = (2 * x + 1) mod 2 ^ 64;
          x2 = (if x1 * x1 mod 2 ^ 64 > N div 2 ^ shift then x1 - 1 else x1)
      in if shift < 2 then x2 else isqrt_loop N x2 (shift - 2))"

declare isqrt_loop.simps [simp del]

definition isqrt :: "nat \<Rightarrow> nat" where
  "isqrt N = isqrt_loop N 0 62"

subsection \<open>Factorisation\<close>

text \<open>\<open>print_w\<close> prints the number \<open>square_count\<close> times; its loop body runs before the counter is tested.\<close>

definition print_w :: "nat \<Rightarrow> nat \<Rightarrow> nat list" where
  "print_w square_count n = replicate (if square_count = 0 then 2 ^ 32 else square_count) n"

text \<open>The last statement of \<open>isqrt_odd\<close>.\<close>

definition odd_below :: "nat \<Rightarrow> nat" where
  "odd_below s = (s - 1) OR 1"

text \<open>
  A pending call: \<open>factorize\<close> with \<open>N\<close> and \<open>square_count\<close>, or the loop with \<open>N\<close>, \<open>max_factor\<close>, \<open>factor\<close>,
  \<open>w\<close> and \<open>square_count\<close>.
\<close>

datatype factor_call = Factorize nat nat | Trial nat nat nat nat nat

partial_function (option) factor_run :: "factor_call \<Rightarrow> nat list option" where
  "factor_run c = (case c of
     Factorize N sq \<Rightarrow>
       if N < 4 then Some (if 1 < N then print_w sq N else [])
       else let s = isqrt N mod 2 ^ 32
            in if s * s mod 2 ^ 64 = N then factor_run (Factorize s (sq * 2 mod 256))
               else factor_run (Trial N (odd_below s) 2 0 sq)
   | Trial N max_factor factor w sq \<Rightarrow>
       if N mod factor = 0 then
         let N' = N div factor; s = isqrt N' mod 2 ^ 32
         in Option.bind
              (if s * s mod 2 ^ 64 = N' then factor_run (Factorize s (sq * 2 mod 256))
               else factor_run (Trial N' (odd_below s) factor w sq))
              (\<lambda>ps. Some (print_w sq factor @ ps))
       else if max_factor \<le> factor then Some (if 1 < N then print_w sq N else [])
       else let fw = (factor + wheel_tab ! w) mod 2 ^ 32
            in if fw < factor then Some (if 1 < N then print_w sq N else [])
               else factor_run (Trial N max_factor fw (if w + 1 < WHEEL_SIZE then w + 1 else WHEEL_START) sq))"

definition factorize :: "nat \<Rightarrow> nat list option" where
  "factorize N = factor_run (Factorize N 1)"

text \<open>One number: \<open>None\<close> when the factorisation does not return, \<open>Inl\<close> for the usage message.\<close>

definition factorize_numstr :: "string \<Rightarrow> (unit + string) option" where
  "factorize_numstr numstr =
     (let (N, e, _) = bb_strtoull 10 (case numstr of c # t \<Rightarrow> if c = CHR ''+'' then t else numstr | [] \<Rightarrow> numstr)
      in if e \<noteq> No_error then Some (Inl ())
         else map_option (\<lambda>ps. Inr (show_nat N @ '':'' @ concat (map (\<lambda>p. CHR '' '' # show_nat p) ps) @ [CHR 0x0A]))
           (factorize N))"

text \<open>The numbers of the command line or of a line of the input; the usage message ends the program.\<close>

fun factor_numstrs :: "string list \<Rightarrow> (string \<times> bool) option" where
  "factor_numstrs [] = Some ([], True)"
| "factor_numstrs (a # as) = Option.bind (factorize_numstr a) (\<lambda>r. case r of
      Inl _ \<Rightarrow> Some ([], False)
    | Inr out \<Rightarrow> map_option (\<lambda>(rest, ok). (out @ rest, ok)) (factor_numstrs as))"

function line_words :: "string \<Rightarrow> string list" where
  "line_words line =
     (let numstr = dropWhile is_space line
      in if numstr = [] then []
         else takeWhile (\<lambda>c. \<not> is_space c) numstr # line_words (drop 1 (dropWhile (\<lambda>c. \<not> is_space c) numstr)))"
  by pat_completeness auto
termination
proof (relation "measure length")
  fix line x :: string
  assume x: "x = dropWhile is_space line" "x \<noteq> []"
  have le: "length (dropWhile P xs) \<le> length xs" for P and xs :: string
    by (induction xs) auto
  have "length (drop 1 (dropWhile (\<lambda>c. \<not> is_space c) x)) < length x"
    using le[of "\<lambda>c. \<not> is_space c" x] length_greater_0_conv[of x] x(2) unfolding length_drop by linarith
  also have "\<dots> \<le> length line" unfolding x(1) by (rule le)
  finally show "(drop 1 (dropWhile (\<lambda>c. \<not> is_space c) x), line) \<in> measure length" by simp
qed simp

definition factor_main :: "string list \<Rightarrow> string list \<Rightarrow> (string \<times> bool) option" where
  "factor_main argv stdin_lines =
     (if argv = [] then factor_numstrs (concat (map line_words stdin_lines))
      else factor_numstrs (map (dropWhile is_space) argv))"

section \<open>The square root\<close>

lemma isqrt_loop_correct:
  assumes "N < 2 ^ 64" "even shift" "shift \<le> 62" "x * x \<le> N div 2 ^ (shift + 2)" "N div 2 ^ (shift + 2) < (x + 1) * (x + 1)"
  shows "isqrt_loop N x shift * isqrt_loop N x shift \<le> N \<and> N < (isqrt_loop N x shift + 1) * (isqrt_loop N x shift + 1)"
  using assms
proof (induction shift arbitrary: x rule: less_induct)
  case (less shift)
  define M where "M = N div 2 ^ shift"
  have M4: "N div 2 ^ (shift + 2) = M div 4" unfolding M_def power_add by (simp add: div_mult2_eq[symmetric])
  have "M div 4 \<le> N div 4" unfolding M_def by (intro div_le_mono) (rule div_le_dividend)
  moreover have "N div 4 < 2 ^ 62" using less.prems(1) by simp
  ultimately have "x * x < 2 ^ 62" using less.prems(4) M4 by linarith
  hence "x < 2 ^ 31" using mult_le_mono[of "2 ^ 31" x "2 ^ 31" x] by (cases "x < 2 ^ 31") simp_all
  hence small: "(2 * x + 1) mod 2 ^ 64 = 2 * x + 1" "2 * x + 1 < 2 ^ 32" by simp_all
  have "(2 * x + 1) * (2 * x + 1) < 2 ^ 32 * 2 ^ 32" using small(2) by (intro mult_strict_mono) simp_all
  hence sq: "(2 * x + 1) * (2 * x + 1) mod 2 ^ 64 = (2 * x + 1) * (2 * x + 1)" by simp
  define y where "y = (if (2 * x + 1) * (2 * x + 1) > M then 2 * x + 1 - 1 else 2 * x + 1)"
  have "4 * (x * x) \<le> M" using less.prems(4) M4 by simp
  moreover have "M < 4 * ((x + 1) * (x + 1))" using less.prems(5) M4 by simp
  ultimately have y: "y * y \<le> M" "M < (y + 1) * (y + 1)"
    by (auto simp: y_def algebra_simps split: if_splits)
  have step: "isqrt_loop N x shift = (if shift < 2 then y else isqrt_loop N y (shift - 2))"
    by (subst isqrt_loop.simps) (simp only: Let_def small sq y_def M_def)
  show ?case
  proof (cases "shift < 2")
    case True
    hence "shift = 0" using less.prems(2) by (cases shift) auto
    hence "M = N" by (simp add: M_def)
    moreover have "isqrt_loop N x shift = y" using True step by simp
    ultimately show ?thesis using y by simp
  next
    case False
    hence "shift - 2 + 2 = shift" by simp
    hence "isqrt_loop N y (shift - 2) * isqrt_loop N y (shift - 2) \<le> N \<and>
        N < (isqrt_loop N y (shift - 2) + 1) * (isqrt_loop N y (shift - 2) + 1)"
      using less.IH[of "shift - 2" y] less.prems y False by (simp only: M_def)
        (simp add: dvd_diff_nat)
    moreover have "isqrt_loop N x shift = isqrt_loop N y (shift - 2)" using False step by simp
    ultimately show ?thesis by (simp only:)
  qed
qed

lemma isqrt_correct:
  assumes "N < 2 ^ 64"
  shows "isqrt N * isqrt N \<le> N" "N < (isqrt N + 1) * (isqrt N + 1)" "isqrt N < 2 ^ 32"
proof -
  have "isqrt N * isqrt N \<le> N \<and> N < (isqrt N + 1) * (isqrt N + 1)"
    unfolding isqrt_def by (rule isqrt_loop_correct) (use assms in simp_all)
  thus a: "isqrt N * isqrt N \<le> N" and "N < (isqrt N + 1) * (isqrt N + 1)" by simp_all
  show "isqrt N < 2 ^ 32"
  proof (rule ccontr)
    assume "\<not> isqrt N < 2 ^ 32"
    hence "2 ^ 32 * 2 ^ 32 \<le> isqrt N * isqrt N" by (intro mult_le_mono) simp_all
    with a assms show False by simp
  qed
qed

section \<open>Primes and the wheel\<close>

definition prime_number :: "nat \<Rightarrow> bool" where
  "prime_number p \<longleftrightarrow> 1 < p \<and> (\<forall>d. d dvd p \<longrightarrow> d = 1 \<or> d = p)"

definition rough :: "nat \<Rightarrow> nat \<Rightarrow> bool" where
  "rough N f \<longleftrightarrow> (\<forall>p. prime_number p \<longrightarrow> p dvd N \<longrightarrow> f \<le> p)"

lemma prime_divisor: "1 < n \<Longrightarrow> \<exists>p. prime_number p \<and> p dvd n"
proof (induction n rule: less_induct)
  case (less n)
  show ?case
  proof (cases "prime_number n")
    case False
    then obtain d where d: "d dvd n" "d \<noteq> 1" "d \<noteq> n" using less.prems by (auto simp: prime_number_def)
    hence "d < n" "1 < d" using less.prems dvd_imp_le[of d n] by (auto simp: nat_neq_iff dest: gr0I)
    with less.IH d(1) show ?thesis by (meson dvd_trans)
  qed auto
qed

lemma rough_2: "rough N 2"
  by (simp add: rough_def prime_number_def)

lemma rough_dvd: "rough N f \<Longrightarrow> d dvd N \<Longrightarrow> rough d f"
  unfolding rough_def by (meson dvd_trans)

lemma rough_divisor_prime:
  assumes "rough N f" "f dvd N" "1 < f"
  shows "prime_number f"
proof -
  obtain p where "prime_number p" "p dvd f" using prime_divisor[OF assms(3)] by blast
  moreover hence "f \<le> p" using assms by (meson rough_def dvd_trans)
  ultimately show ?thesis using dvd_imp_le[of p f] assms(3) by simp
qed

lemma rough_prime:
  assumes "rough N f" "1 < N" "N < f * f"
  shows "prime_number N"
proof (rule ccontr)
  assume "\<not> prime_number N"
  then obtain a b where ab: "N = a * b" "a \<noteq> 1" "a \<noteq> N" using assms(2) by (auto simp: prime_number_def dvd_def)
  hence "1 < a" "1 < b" using assms(2) by (auto simp: nat_neq_iff)
  then obtain p q where "prime_number p" "p dvd a" "prime_number q" "q dvd b" using prime_divisor by meson
  hence "f \<le> p" "p \<le> a" "f \<le> q" "q \<le> b"
    using assms(1) ab(1) \<open>1 < a\<close> \<open>1 < b\<close> by (auto simp: rough_def dvd_imp_le)
  hence "f * f \<le> a * b" by (intro mult_le_mono) simp_all
  with assms(3) ab(1) show False by simp
qed

lemma skipped_not_prime: "skipped m \<Longrightarrow> \<not> prime_number (m + 2310 * k)"
proof -
  assume "skipped m"
  then obtain q where q: "q \<in> {2, 3, 5, 7, 11}" "m mod q = 0" "q < m"
    unfolding skipped_def by (metis insertI1 insertI2)
  have "q dvd 2310" using q(1) by auto
  moreover have "q dvd m" using q(2) by (simp only: mod_0_imp_dvd)
  ultimately have "q dvd m + 2310 * k" by (intro dvd_add dvd_mult2)
  moreover have "q \<noteq> 1" "q \<noteq> m + 2310 * k" using q by auto
  ultimately show ?thesis by (auto simp: prime_number_def)
qed

lemma gaps_ok_nth:
  assumes "gaps_ok off gs" "i < length gs"
  shows "0 < gs ! i" "off + sum_list (take i gs) < m \<Longrightarrow> m < off + sum_list (take i gs) + gs ! i \<Longrightarrow> skipped m"
proof -
  have "gs = take i gs @ gs ! i # drop (Suc i) gs" using assms(2) by (rule id_take_nth_drop)
  hence "gaps_ok (off + sum_list (take i gs)) (gs ! i # drop (Suc i) gs)"
    using assms(1) gaps_ok_append[of off "take i gs"] by metis
  thus "0 < gs ! i" "off + sum_list (take i gs) < m \<Longrightarrow> m < off + sum_list (take i gs) + gs ! i \<Longrightarrow> skipped m"
    by (simp_all add: list_all_iff)
qed

text \<open>The position \<open>w\<close> on the wheel that belongs to a trial divisor.\<close>

definition wheel_pos :: "nat \<Rightarrow> nat \<Rightarrow> bool" where
  "wheel_pos w f \<longleftrightarrow> w < WHEEL_SIZE \<and> (\<exists>k. f = 2 + sum_list (take w wheel_tab) + 2310 * k)"

definition next_w :: "nat \<Rightarrow> nat" where
  "next_w w = (if w + 1 < WHEEL_SIZE then w + 1 else WHEEL_START)"

lemma wheel_pos_0: "wheel_pos 0 2"
  by (simp add: wheel_pos_def WHEEL_SIZE_def)

lemma wheel_step:
  assumes "wheel_pos w f"
  shows "0 < wheel_tab ! w" "f < m \<Longrightarrow> m < f + wheel_tab ! w \<Longrightarrow> \<not> prime_number m"
    "wheel_pos (next_w w) (f + wheel_tab ! w)"
proof -
  obtain k where k: "f = 2 + sum_list (take w wheel_tab) + 2310 * k" using assms by (auto simp: wheel_pos_def)
  have w: "w < length wheel_tab" using assms by (simp add: wheel_pos_def wheel_length)
  show "0 < wheel_tab ! w" using gaps_ok_nth(1)[OF wheel_gaps w] .
  show "\<not> prime_number m" if "f < m" "m < f + wheel_tab ! w"
  proof -
    have "skipped (m - 2310 * k)"
      by (rule gaps_ok_nth(2)[OF wheel_gaps w]) (use that k in linarith)+
    moreover have "m - 2310 * k + 2310 * k = m" using that k by simp
    ultimately show ?thesis using skipped_not_prime by metis
  qed
  have sum: "sum_list (take (Suc w) wheel_tab) = sum_list (take w wheel_tab) + wheel_tab ! w"
    using w by (simp add: take_Suc_conv_app_nth)
  show "wheel_pos (next_w w) (f + wheel_tab ! w)"
  proof (cases "w + 1 < WHEEL_SIZE")
    case True
    thus ?thesis using sum k by (auto simp: wheel_pos_def next_w_def)
  next
    case False
    hence "take (Suc w) wheel_tab = wheel_tab" by (simp add: wheel_length)
    hence "f + wheel_tab ! w = 2 + sum_list (take WHEEL_START wheel_tab) + 2310 * (k + 1)"
      using sum k wheel_turn by simp
    moreover have "next_w w = WHEEL_START" "WHEEL_START < WHEEL_SIZE"
      using False by (simp_all add: next_w_def WHEEL_SIZE_def WHEEL_START_def)
    ultimately show ?thesis unfolding wheel_pos_def by metis
  qed
qed

lemma rough_next:
  assumes "rough N f" "N mod f \<noteq> 0" "wheel_pos w f"
  shows "rough N (f + wheel_tab ! w)"
  unfolding rough_def
proof (intro allI impI)
  fix p assume p: "prime_number p" "p dvd N"
  hence "f \<le> p" using assms(1) by (simp add: rough_def)
  moreover have "p \<noteq> f" using p(2) assms(2) by auto
  ultimately have "f < p" by simp
  thus "f + wheel_tab ! w \<le> p" using wheel_step(2)[OF assms(3)] p(1) by (meson not_le)
qed

section \<open>Factorisation\<close>

lemma odd_below_eq: "0 < s \<Longrightarrow> odd_below s = (if even s then s - 1 else s)"
  unfolding odd_below_def or_one_eq by (cases "even s") auto

text \<open>When trial division stops, no prime up to the square root divides what is left.\<close>

lemma stop_prime:
  assumes "rough N f" "1 < N" "1 < f" "N mod f \<noteq> 0" and s: "N < (s + 1) * (s + 1)" "0 < s" and "odd_below s \<le> f"
  shows "prime_number N"
proof (rule rough_prime[OF _ assms(2) s(1)])
  show "rough N (s + 1)"
    unfolding rough_def
  proof (intro allI impI)
    fix p assume p: "prime_number p" "p dvd N"
    hence "f < p" using assms(1,4) by (metis rough_def dvd_eq_mod_eq_0 le_neq_implies_less)
    moreover have "p \<noteq> s" if "even s"
    proof
      assume "p = s"
      hence "2 = s" using p(1) that by (auto simp: prime_number_def)
      with \<open>f < p\<close> \<open>p = s\<close> assms(3) show False by simp
    qed
    ultimately show "s + 1 \<le> p"
      using assms(7) s(2) by (auto simp: odd_below_eq split: if_splits)
  qed
qed

definition good_factors :: "nat list \<Rightarrow> nat \<Rightarrow> nat \<Rightarrow> bool" where
  "good_factors qs N f \<longleftrightarrow> sorted qs \<and> (\<forall>q \<in> set qs. prime_number q \<and> f \<le> q) \<and> prod_list qs = N"

definition run_ok :: "factor_call \<Rightarrow> nat \<Rightarrow> nat \<Rightarrow> nat \<Rightarrow> bool" where
  "run_ok c N sq f \<longleftrightarrow> (\<exists>qs. factor_run c = Some (concat (map (replicate sq) qs)) \<and> good_factors qs N f)"

definition count_ok :: "nat \<Rightarrow> nat \<Rightarrow> bool" where
  "count_ok N sq \<longleftrightarrow> N = 1 \<or> 0 < sq \<and> N ^ sq < 2 ^ 64"

lemma count_ok_bound:
  assumes "count_ok N sq" "1 < N"
  shows "0 < sq" "sq < 64" "N < 2 ^ 64"
proof -
  have sq: "0 < sq" "N ^ sq < 2 ^ 64" using assms by (auto simp: count_ok_def)
  show "0 < sq" by (rule sq)
  show "N < 2 ^ 64" using sq assms(2) power_increasing[of 1 sq N] by simp
  show "sq < 64"
  proof (rule ccontr)
    assume "\<not> sq < 64"
    hence "(2::nat) ^ 64 \<le> 2 ^ sq" by (intro power_increasing) simp_all
    also have "\<dots> \<le> N ^ sq" using assms(2) by (intro power_mono) simp_all
    finally show False using sq(2) by simp
  qed
qed

lemma count_ok_mono: "count_ok N sq \<Longrightarrow> 0 < M \<Longrightarrow> M \<le> N \<Longrightarrow> count_ok M sq"
  unfolding count_ok_def by (metis One_nat_def le_less_trans less_one nat_neq_iff not_le order_le_less power_mono zero_le)

lemma sorted_doubled: "sorted qs \<Longrightarrow> sorted (concat (map (replicate 2) qs))"
  by (induction qs) (auto simp: numeral_2_eq_2)

lemma doubled_output:
  "concat (map (replicate sq) (concat (map (replicate 2) qs))) = concat (map (replicate (2 * sq)) qs)"
  by (induction qs) (auto simp: numeral_2_eq_2 replicate_add)

lemma run_ok_square:
  assumes "run_ok (Factorize s (sq * 2 mod 256)) s (sq * 2 mod 256) f" "count_ok N sq" "s * s = N" "0 < N"
  shows "\<exists>qs. factor_run (Factorize s (sq * 2 mod 256)) = Some (concat (map (replicate sq) qs)) \<and> good_factors qs N f"
proof (cases "N = 1")
  case True
  hence "s = 1" using assms(3) by simp
  moreover have "factor_run (Factorize 1 k) = Some []" for k by (subst factor_run.simps) simp
  ultimately show ?thesis using True by (auto simp: good_factors_def intro!: exI[of _ "[]"])
next
  case False
  hence "sq < 64" using count_ok_bound[OF assms(2)] assms(4) by simp
  hence m: "sq * 2 mod 256 = 2 * sq" by simp
  obtain qs where qs: "factor_run (Factorize s (2 * sq)) = Some (concat (map (replicate (2 * sq)) qs))" "good_factors qs s f"
    using assms(1) unfolding run_ok_def m by blast
  have "prod_list (concat (map (replicate 2) qs)) = prod_list qs * prod_list qs"
    by (induction qs) (simp_all add: numeral_2_eq_2 algebra_simps)
  hence "good_factors (concat (map (replicate 2) qs)) N f"
    using qs(2) assms(3) sorted_doubled[of qs] by (auto simp: good_factors_def)
  thus ?thesis unfolding m qs(1) using doubled_output by metis
qed

lemma count_ok_root:
  assumes "count_ok N sq" "s * s = N" "0 < N"
  shows "count_ok s (sq * 2 mod 256)"
proof (cases "s = 1")
  case False
  hence "1 < N" using assms(2,3) by (cases s) (auto simp: nat_neq_iff)
  hence "0 < sq" "sq < 64" "N ^ sq < 2 ^ 64" using count_ok_bound[OF assms(1)] assms(1) by (auto simp: count_ok_def)
  moreover have "s ^ (2 * sq) = N ^ sq" unfolding assms(2)[symmetric] by (simp add: power_mult power2_eq_square)
  ultimately show ?thesis by (simp add: count_ok_def mult.commute)
qed (simp add: count_ok_def)

definition trial_ready :: "nat \<Rightarrow> nat \<Rightarrow> nat \<Rightarrow> nat \<Rightarrow> nat \<Rightarrow> bool" where
  "trial_ready N max_factor f w sq \<longleftrightarrow> 1 < N \<and> count_ok N sq \<and> rough N f \<and> 1 < f \<and> f < 2 ^ 32 \<and> wheel_pos w f \<and>
     isqrt N * isqrt N \<noteq> N \<and> max_factor = odd_below (isqrt N)"

lemma isqrt_halves:
  assumes "N < 2 ^ 64"
  shows "isqrt N mod 2 ^ 32 = isqrt N" "isqrt N * isqrt N mod 2 ^ 64 = isqrt N * isqrt N"
  using isqrt_correct[OF assms] assms by simp_all

lemma isqrt_pos: "0 < N \<Longrightarrow> N < 2 ^ 64 \<Longrightarrow> 0 < isqrt N"
  using isqrt_correct(2)[of N] by (cases "isqrt N = 0") auto

lemma isqrt_1: "isqrt 1 = 1"
  using isqrt_pos[of 1] isqrt_correct(1)[of 1] mult_le_mono[of 2 "isqrt 1" 2 "isqrt 1"]
  by (cases "isqrt 1 < 2") simp_all

text \<open>What is left when trial division stops is printed.\<close>

lemma run_ok_prime:
  assumes "factor_run c = Some (if 1 < N then print_w sq N else [])" "prime_number N" "0 < sq" "f \<le> N"
  shows "run_ok c N sq f"
proof -
  have "1 < N" using assms(2) by (simp add: prime_number_def)
  hence "factor_run c = Some (concat (map (replicate sq) [N]))" using assms by (simp add: print_w_def)
  moreover have "good_factors [N] N f" using assms by (simp add: good_factors_def)
  ultimately show ?thesis unfolding run_ok_def by blast
qed

lemma run_ok_divide:
  assumes "\<exists>qs. r = Some (concat (map (replicate sq) qs)) \<and> good_factors qs M f" and "prime_number f" "0 < sq"
    and "factor_run c = Option.bind r (\<lambda>ps. Some (print_w sq f @ ps))"
  shows "run_ok c (f * M) sq f"
proof -
  obtain qs where qs: "r = Some (concat (map (replicate sq) qs))" "good_factors qs M f" using assms(1) by blast
  hence "factor_run c = Some (concat (map (replicate sq) (f # qs)))" using assms(3,4) by (simp add: print_w_def)
  moreover have "good_factors (f # qs) (f * M) f" using qs(2) assms(2) by (auto simp: good_factors_def)
  ultimately show ?thesis unfolding run_ok_def by blast
qed

lemma trial_ok:
  assumes smaller: "\<And>M sq f. M < N \<Longrightarrow> 0 < M \<Longrightarrow> count_ok M sq \<Longrightarrow> rough M f \<Longrightarrow> run_ok (Factorize M sq) M sq f"
    and smaller_trial: "\<And>M m f w sq. M < N \<Longrightarrow> trial_ready M m f w sq \<Longrightarrow> run_ok (Trial M m f w sq) M sq f"
    and "trial_ready N m f w sq"
  shows "run_ok (Trial N m f w sq) N sq f"
  using assms(3)
proof (induction "2 ^ 32 - f" arbitrary: f w rule: less_induct)
  case less
  have N: "1 < N" "count_ok N sq" "rough N f" "1 < f" "f < 2 ^ 32" "wheel_pos w f" and m: "m = odd_below (isqrt N)"
    using less.prems by (simp_all add: trial_ready_def)
  have N64: "N < 2 ^ 64" and sq: "0 < sq" using count_ok_bound[OF N(2,1)] by simp_all
  note isq = isqrt_correct[OF N64]
  note step = factor_run.simps[of "Trial N m f w sq", simplified factor_call.case]
  show ?case
  proof (cases "N mod f = 0")
    case True
    define M s where "M = N div f" and "s = isqrt M"
    have NM: "N = f * M" using True M_def by auto
    have M: "M < N" "0 < M" "M dvd N" using N(1,4) NM by (auto intro: Nat.gr0I)
    have prime: "prime_number f" using rough_divisor_prime[OF N(3) _ N(4)] NM by simp
    have cM: "count_ok M sq" by (rule count_ok_mono[OF N(2)]) (use M in simp_all)
    have M64: "M < 2 ^ 64" using M N64 by simp
    note halves = isqrt_halves[OF M64, folded s_def]
    have rM: "rough M f" by (rule rough_dvd[OF N(3) M(3)])
    have "\<exists>qs. (if s * s = M then factor_run (Factorize s (sq * 2 mod 256)) else factor_run (Trial M (odd_below s) f w sq))
        = Some (concat (map (replicate sq) qs)) \<and> good_factors qs M f"
    proof (cases "s * s = M")
      case True
      have s: "0 < s" "s \<le> M" "s dvd M" using True M(2) by (auto intro: Nat.gr0I)
      have "run_ok (Factorize s (sq * 2 mod 256)) s (sq * 2 mod 256) f"
        using smaller[of s "sq * 2 mod 256" f] s M(1) count_ok_root[OF cM True M(2)] rough_dvd[OF rM s(3)] by simp
      thus ?thesis using run_ok_square[OF _ cM True M(2)] True by simp
    next
      case False
      have "M \<noteq> 1" using False isqrt_1 by (auto simp: s_def)
      hence "trial_ready M (odd_below s) f w sq"
        using False M cM rM N by (simp add: trial_ready_def s_def)
      thus ?thesis using smaller_trial[OF M(1)] False by (simp add: run_ok_def)
    qed
    moreover have "factor_run (Trial N m f w sq) = Option.bind
        (if s * s = M then factor_run (Factorize s (sq * 2 mod 256)) else factor_run (Trial M (odd_below s) f w sq))
        (\<lambda>ps. Some (print_w sq f @ ps))"
      unfolding step Let_def M_def[symmetric] s_def[symmetric] halves using True by simp
    ultimately show ?thesis unfolding NM by (intro run_ok_divide) (use prime sq in auto)
  next
    case False
    have fN: "f \<le> N" if "prime_number N" using N(3) that by (simp add: rough_def)
    let ?fw = "(f + wheel_tab ! w) mod 2 ^ 32"
    consider "m \<le> f" | "f < m" "?fw < f" | "f < m" "f \<le> ?fw" by linarith
    thus ?thesis
    proof cases
      case 1
      have "prime_number N"
        by (rule stop_prime[OF N(3,1,4) False isq(2)]) (use 1 m isqrt_pos[of N] N(1) N64 in simp_all)
      thus ?thesis by (intro run_ok_prime) (use step False 1 sq fN in simp_all)
    next
      case 2
      have r: "rough N (f + wheel_tab ! w)" by (rule rough_next[OF N(3) False N(6)])
      have "2 ^ 32 \<le> f + wheel_tab ! w" using 2(2) N(5) by (cases "f + wheel_tab ! w < 2 ^ 32") simp_all
      hence "isqrt N + 1 \<le> f + wheel_tab ! w" using isq(3) by linarith
      hence "(isqrt N + 1) * (isqrt N + 1) \<le> (f + wheel_tab ! w) * (f + wheel_tab ! w)" by (rule mult_le_mono) fact
      hence "prime_number N" using rough_prime[OF r N(1)] isq(2) by simp
      thus ?thesis by (intro run_ok_prime) (use step False 2 sq fN in \<open>simp_all add: Let_def\<close>)
    next
      case 3
      have "wheel_tab ! w \<le> 14"
        using wheel_small N(6) by (simp add: list_all_length wheel_pos_def wheel_length)
      hence fw: "?fw = f + wheel_tab ! w" "f + wheel_tab ! w < 2 ^ 32"
        using 3(2) N(5) by (cases "f + wheel_tab ! w < 2 ^ 32"; simp add: le_mod_geq)+
      have "trial_ready N m (f + wheel_tab ! w) (next_w w) sq"
        using less.prems rough_next[OF N(3) False N(6)] wheel_step(3)[OF N(6)] fw(2) by (simp add: trial_ready_def)
      moreover have "2 ^ 32 - (f + wheel_tab ! w) < 2 ^ 32 - f" using wheel_step(1)[OF N(6)] fw(2) by linarith
      ultimately have "run_ok (Trial N m (f + wheel_tab ! w) (next_w w) sq) N sq (f + wheel_tab ! w)"
        using less.hyps by blast
      moreover have "factor_run (Trial N m f w sq) = factor_run (Trial N m (f + wheel_tab ! w) (next_w w) sq)"
        unfolding step Let_def fw(1) next_w_def using False 3(1) by simp
      moreover have "good_factors qs N (f + wheel_tab ! w) \<Longrightarrow> good_factors qs N f" for qs
        by (auto simp: good_factors_def)
      ultimately show ?thesis unfolding run_ok_def by metis
    qed
  qed
qed

lemma factorize_ok:
  "(\<forall>sq f. 0 < N \<longrightarrow> count_ok N sq \<longrightarrow> rough N f \<longrightarrow> run_ok (Factorize N sq) N sq f) \<and>
   (\<forall>m f w sq. trial_ready N m f w sq \<longrightarrow> run_ok (Trial N m f w sq) N sq f)"
proof (induction N rule: less_induct)
  case (less N)
  have trial: "run_ok (Trial N m f w sq) N sq f" if "trial_ready N m f w sq" for m f w sq
    by (rule trial_ok) (use less.IH that in blast)+
  have "run_ok (Factorize N sq) N sq f" if N: "0 < N" "count_ok N sq" "rough N f" for sq f
  proof -
    note step = factor_run.simps[of "Factorize N sq", simplified factor_call.case]
    consider "N = 1" | "N = 2 \<or> N = 3" | "4 \<le> N" using N(1) by linarith
    thus ?thesis
    proof cases
      case 1
      hence "factor_run (Factorize N sq) = Some (concat (map (replicate sq) []))" using step by simp
      moreover have "good_factors [] N f" using 1 by (simp add: good_factors_def)
      ultimately show ?thesis unfolding run_ok_def by blast
    next
      case 2
      hence "prime_number N" by (intro rough_prime[OF rough_2]) auto
      moreover have "f \<le> N" using N(3) \<open>prime_number N\<close> by (simp add: rough_def)
      moreover have "0 < sq" using count_ok_bound[OF N(2)] 2 by auto
      ultimately show ?thesis by (intro run_ok_prime) (use step 2 in auto)
    next
      case 3
      have N64: "N < 2 ^ 64" using count_ok_bound[OF N(2)] 3 by simp
      define s where "s = isqrt N"
      note halves = isqrt_halves[OF N64, folded s_def]
      show ?thesis
      proof (cases "s * s = N")
        case True
        have "2 \<le> s" using True 3 by (cases "s = 0 \<or> s = 1") auto
        hence s: "0 < s" "s < N" "s dvd N" using True by auto
        have "run_ok (Factorize s (sq * 2 mod 256)) s (sq * 2 mod 256) f"
          using less.IH[OF s(2)] s count_ok_root[OF N(2) True N(1)] rough_dvd[OF N(3) s(3)] by blast
        hence "\<exists>qs. factor_run (Factorize s (sq * 2 mod 256)) = Some (concat (map (replicate sq) qs)) \<and> good_factors qs N f"
          by (rule run_ok_square[OF _ N(2) True N(1)])
        moreover have "factor_run (Factorize N sq) = factor_run (Factorize s (sq * 2 mod 256))"
          unfolding step Let_def s_def[symmetric] halves using 3 True by simp
        ultimately show ?thesis by (simp add: run_ok_def)
      next
        case False
        have "trial_ready N (odd_below s) 2 0 sq"
          using 3 N(2) False by (simp add: trial_ready_def rough_2 wheel_pos_0 s_def)
        then obtain qs where qs: "factor_run (Trial N (odd_below s) 2 0 sq) = Some (concat (map (replicate sq) qs))"
            "good_factors qs N 2"
          using trial unfolding run_ok_def by blast
        moreover have "factor_run (Factorize N sq) = factor_run (Trial N (odd_below s) 2 0 sq)"
          unfolding step Let_def s_def[symmetric] halves using 3 False by simp
        moreover have "good_factors qs N f"
          using qs(2) N(3) by (auto simp: good_factors_def rough_def prod_list_dvd)
        ultimately show ?thesis unfolding run_ok_def by metis
      qed
    qed
  qed
  with trial show ?case by blast
qed

text \<open>C34: factorisation is right for every 64-bit number. The applet always returns; for the decimal text of a
  number \<open>n\<close> below \<open>2 ^ 64\<close> it prints \<open>n\<close>, a colon and a list of numbers, and this list is in ascending order,
  contains primes only, and its product is \<open>n\<close> (for 0 it is empty). In particular the 32-bit trial divisor
  never skips a prime or wraps around, and the 8-bit repetition count of squares never overflows.\<close>

theorem factor_correct:
  assumes "n < 2 ^ 64"
  shows "\<exists>ps. factorize n = Some ps \<and>
    factorize_numstr (show_nat n) = Some (Inr (show_nat n @ '':'' @ concat (map (\<lambda>p. CHR '' '' # show_nat p) ps) @ [CHR 0x0A])) \<and>
    (if n = 0 then ps = [] else sorted ps \<and> (\<forall>p \<in> set ps. prime_number p) \<and> prod_list ps = n)"
proof -
  have "\<exists>ps. factorize n = Some ps \<and>
    (if n = 0 then ps = [] else sorted ps \<and> (\<forall>p \<in> set ps. prime_number p) \<and> prod_list ps = n)"
  proof (cases "n = 0")
    case True
    thus ?thesis by (subst factorize_def, subst factor_run.simps) simp
  next
    case False
    have "run_ok (Factorize n 1) n 1 2"
      using factorize_ok[of n] False assms rough_2[of n] by (simp add: count_ok_def)
    moreover have "concat (map (replicate 1) qs) = qs" for qs :: "nat list" by (induction qs) simp_all
    ultimately show ?thesis using False by (auto simp: run_ok_def good_factors_def factorize_def)
  qed
  then obtain ps where ps: "factorize n = Some ps"
    "if n = 0 then ps = [] else sorted ps \<and> (\<forall>p \<in> set ps. prime_number p) \<and> prod_list ps = n" by blast
  have "(case show_nat n of c # t \<Rightarrow> if c = CHR ''+'' then t else show_nat n | [] \<Rightarrow> show_nat n) = show_nat n"
    using show_nat_digits[of "hd (show_nat n)" n] by (cases "show_nat n") auto
  with ps bb_strtoull_show_nat[OF assms] show ?thesis by (auto simp: factorize_numstr_def)
qed

theorem factor_correct_witness:
  "\<exists>ps. factorize 18446743988964486098 = Some ps \<and> sorted ps \<and> (\<forall>p \<in> set ps. prime_number p) \<and>
     prod_list ps = 18446743988964486098"
  using factor_correct[of 18446743988964486098] by auto

end
