(* ===== verification/Bb_Crc32.thy ===== *)
theory Bb_Crc32
  imports Cxx_Strings
begin

text \<open>
  Checksums of the user land: the CRC tables and block functions of \<open>src/busybox/libbb/crc32.c\<close> and the
  applets \<open>cksum\<close> and \<open>crc32\<close> of \<open>src/busybox/coreutils/cksum.c\<close>. The flag \<open>endian\<close> of the source is a
  boolean. The table-driven functions are compared with a register that takes the message bit by bit.
\<close>

section \<open>Definitions\<close>

definition crc_polynomial :: "bool \<Rightarrow> u32" where
  "crc_polynomial endian = (if endian then 0x04c11db7 else 0xedb88320)"

definition crc_step :: "bool \<Rightarrow> u32 \<Rightarrow> u32" where
  "crc_step endian c =
     (if endian
      then if c AND 0x80000000 \<noteq> 0 then push_bit 1 c XOR crc_polynomial endian else push_bit 1 c
      else if c AND 1 \<noteq> 0 then drop_bit 1 c XOR crc_polynomial endian else drop_bit 1 c)"

definition crc32_filltable :: "bool \<Rightarrow> u32 list" where
  "crc32_filltable endian =
     map (\<lambda>i. (crc_step endian ^^ 8) (if endian then push_bit 24 (of_nat i) else of_nat i)) [0..<256]"

definition crc32_new_table_le :: "u32 list" where
  "crc32_new_table_le = crc32_filltable False"

definition crc32_block_endian1 :: "u32 \<Rightarrow> bytes \<Rightarrow> u32 list \<Rightarrow> u32" where
  "crc32_block_endian1 val buf crc_table =
     foldl (\<lambda>val b. push_bit 8 val XOR crc_table ! unat (drop_bit 24 val XOR ucast b)) val buf"

definition crc32_block_endian0 :: "u32 \<Rightarrow> bytes \<Rightarrow> u32 list \<Rightarrow> u32" where
  "crc32_block_endian0 val buf crc_table =
     foldl (\<lambda>val b. crc_table ! unat ((ucast val :: u8) XOR b) XOR drop_bit 8 val) val buf"

text \<open>The bytes of the file size, least significant first, that \<open>cksum\<close> appends.\<close>

fun size_bytes :: "nat \<Rightarrow> bytes" where
  "size_bytes t = (if t = 0 then [] else of_nat t # size_bytes (t div 256))"

declare size_bytes.simps [simp del]

text \<open>
  The loop over one file. The reads of the file are a list: \<open>Some\<close> bytes or \<open>None\<close> for an error, which ends
  the program; the end of the list is the end of the file.
\<close>

fun cksum_loop :: "bool \<Rightarrow> u32 list \<Rightarrow> u32 \<Rightarrow> nat \<Rightarrow> bytes option list \<Rightarrow> (u32 \<times> nat) option" where
  "cksum_loop is_cksum tbl crc filesize [] =
     Some (if is_cksum then crc32_block_endian1 crc (size_bytes filesize) tbl else crc, filesize)"
| "cksum_loop is_cksum tbl crc filesize (None # reads) = None"
| "cksum_loop is_cksum tbl crc filesize (Some buf # reads) =
     cksum_loop is_cksum tbl ((if is_cksum then crc32_block_endian1 else crc32_block_endian0) crc buf tbl)
       ((filesize + length buf) mod 2 ^ 64) reads"

definition cksum_file :: "bool \<Rightarrow> bytes option list \<Rightarrow> (u32 \<times> nat) option" where
  "cksum_file is_cksum reads =
     map_option (\<lambda>(crc, filesize). (NOT crc, filesize))
       (cksum_loop is_cksum (crc32_filltable is_cksum) (if is_cksum then 0 else 0xffffffff) 0 reads)"

section \<open>The reference: one bit at a time\<close>

text \<open>The bit is added at the end of the register that is shifted out.\<close>

definition serial_step :: "bool \<Rightarrow> u32 \<Rightarrow> bool \<Rightarrow> u32" where
  "serial_step endian c b = crc_step endian (c XOR (if b then if endian then push_bit 31 1 else 1 else 0))"

definition byte_bits :: "bool \<Rightarrow> u8 \<Rightarrow> bool list" where
  "byte_bits endian b = map (\<lambda>i. bit b (if endian then 7 - i else i)) [0..<8]"

definition crc_serial :: "bool \<Rightarrow> u32 \<Rightarrow> bytes \<Rightarrow> u32" where
  "crc_serial endian val buf = foldl (serial_step endian) val (concat (map (byte_bits endian) buf))"

section \<open>Linearity\<close>

lemma top_test: "(c AND 0x80000000 = (0::u32)) = (\<not> bit c 31)"
  using and_exp_eq_0_iff_not_bit[of c 31] by simp

lemma low_test: "(c AND 1 = (0::u32)) = (\<not> bit c 0)"
  by (simp add: and_one_eq bit_0 odd_iff_mod_2_eq_one)

definition crc_shift :: "bool \<Rightarrow> u32 \<Rightarrow> u32" where
  "crc_shift e = (if e then push_bit 1 else drop_bit 1)"

definition crc_out :: "bool \<Rightarrow> nat" where
  "crc_out e = (if e then 31 else 0)"

lemma crc_step_eq: "crc_step e c = crc_shift e c XOR (if bit c (crc_out e) then crc_polynomial e else 0)"
  unfolding crc_step_def crc_shift_def crc_out_def by (cases e) (simp_all only: top_test low_test if_True if_False not_not xor.right_neutral split: if_split, blast+)

lemma xor_pairs: "(a XOR b) XOR (c XOR d) = (a XOR c) XOR (b XOR (d::u32))"
  by (simp only: xor.assoc xor.left_commute)

lemma crc_shift_xor: "crc_shift e (x XOR y) = crc_shift e x XOR crc_shift e y"
  by (simp add: crc_shift_def push_bit_xor drop_bit_xor del: One_nat_def)

lemma crc_step_xor: "crc_step e (x XOR y) = crc_step e x XOR crc_step e y"
proof -
  have "(if bit (x XOR y) n then p else 0) = (if bit x n then p else 0) XOR (if bit y n then p else (0::u32))" for n p
    by (simp add: bit_xor_iff)
  thus ?thesis unfolding crc_step_eq crc_shift_xor by (simp only: xor_pairs)
qed

lemma crc_step_0: "crc_step e 0 = 0"
  by (simp add: crc_step_eq crc_shift_def)

lemma crc_steps_xor: "(crc_step e ^^ n) (x XOR y) = (crc_step e ^^ n) x XOR (crc_step e ^^ n) y"
  by (induction n arbitrary: x y) (simp_all add: crc_step_xor)

text \<open>As long as no bit falls out, the register only shifts.\<close>

lemma crc_steps_low: "(\<forall>i<n. \<not> bit y i) \<Longrightarrow> (crc_step False ^^ n) y = drop_bit n y"
proof (induction n)
  case (Suc n)
  hence "(crc_step False ^^ Suc n) y = crc_step False (drop_bit n y)" by simp
  also have "\<dots> = drop_bit (Suc n) y"
    using Suc.prems by (simp add: crc_step_eq crc_shift_def crc_out_def bit_simps)
  finally show ?case .
qed simp

lemma crc_steps_high: "n \<le> 32 \<Longrightarrow> (\<forall>i<n. \<not> bit y (31 - i)) \<Longrightarrow> (crc_step True ^^ n) y = push_bit n y"
proof (induction n)
  case (Suc n)
  hence "(crc_step True ^^ Suc n) y = crc_step True (push_bit n y)" by simp
  also have "\<dots> = push_bit (Suc n) y"
    using Suc.prems by (simp add: crc_step_eq crc_shift_def crc_out_def bit_simps)
  finally show ?case .
qed simp

section \<open>Table-driven and serial computation agree\<close>

lemma of_nat_unat8: "(of_nat (unat (z::u8)) :: u32) = ucast z"
  by simp

lemma table_byte0:
  "(crc_step False ^^ 8) (val XOR ucast b) = crc32_filltable False ! unat ((ucast val :: u8) XOR b) XOR drop_bit 8 val"
proof -
  define x y where "x = (ucast ((ucast val :: u8) XOR b) :: u32)" and "y = push_bit 8 (drop_bit 8 val)"
  have high: "bit s k = False" if "8 \<le> k" for s :: u8 and k
    using that by (auto dest: bit_imp_le_length)
  have "val XOR ucast b = x XOR y"
    unfolding x_def y_def by (rule bit_word_eqI) (auto simp: bit_simps high not_less)
  moreover have "(crc_step False ^^ 8) x = crc32_filltable False ! unat ((ucast val :: u8) XOR b)"
  proof -
    have "unat ((ucast val :: u8) XOR b) < 256" using unsigned_less[of "(ucast val :: u8) XOR b"] by simp
    thus ?thesis unfolding crc32_filltable_def x_def by (simp only: nth_map_upt add_0 diff_zero if_False of_nat_unat8)
  qed
  moreover have "(crc_step False ^^ 8) y = drop_bit 8 val"
  proof -
    have "drop_bit 8 (push_bit 8 (drop_bit 8 val)) = drop_bit 8 val"
      by (rule bit_word_eqI) (auto simp: bit_simps dest: bit_imp_le_length)
    thus ?thesis by (subst crc_steps_low) (auto simp: y_def bit_simps)
  qed
  ultimately show ?thesis by (simp only: crc_steps_xor)
qed

lemma table_byte1:
  "(crc_step True ^^ 8) (val XOR push_bit 24 (ucast (b::u8))) =
     push_bit 8 val XOR crc32_filltable True ! unat (drop_bit 24 val XOR ucast b)"
proof -
  define z where "z = (drop_bit 24 val XOR ucast b :: u32)"
  define x y where "x = push_bit 24 z" and "y = take_bit 24 val"
  have high: "bit s k = False" if "8 \<le> k" for s :: u8 and k
    using that by (auto dest: bit_imp_le_length)
  have "val XOR push_bit 24 (ucast b) = x XOR y"
    unfolding x_def y_def z_def by (rule bit_word_eqI) (auto simp: bit_simps high not_less)
  moreover have "(crc_step True ^^ 8) x = crc32_filltable True ! unat z"
  proof -
    have "z = take_bit 8 z" unfolding z_def
      by (rule bit_word_eqI) (auto simp: bit_simps high not_less dest: bit_imp_le_length)
    hence "unat z = take_bit 8 (unat z)" by (metis unsigned_take_bit_eq)
    also have "\<dots> < 2 ^ 8" by (rule take_bit_nat_less_exp)
    finally have "unat z < 256" by simp
    moreover have "(of_nat (unat z) :: u32) = z" by simp
    ultimately show ?thesis unfolding crc32_filltable_def x_def by (simp only: nth_map_upt add_0 diff_zero if_True)
  qed
  moreover have "(crc_step True ^^ 8) y = push_bit 8 val"
  proof -
    have "push_bit 8 (take_bit 24 val) = push_bit 8 val"
      by (rule bit_word_eqI) (auto simp: bit_simps)
    thus ?thesis by (subst crc_steps_high) (auto simp: y_def bit_simps)
  qed
  ultimately show ?thesis by (simp only: crc_steps_xor z_def xor.commute)
qed

text \<open>The bits \<open>f 0\<close>, \<open>f 1\<close>, ... of a message, in the order in which they leave the register.\<close>

definition place :: "bool \<Rightarrow> nat \<Rightarrow> u32" where
  "place e i = (if e then push_bit (31 - i) 1 else push_bit i 1)"

primrec placed :: "bool \<Rightarrow> (nat \<Rightarrow> bool) \<Rightarrow> nat \<Rightarrow> u32" where
  "placed e f 0 = 0"
| "placed e f (Suc n) = placed e f n XOR (if f n then place e n else 0)"

lemma crc_steps_place: "n < 32 \<Longrightarrow> (crc_step e ^^ n) (place e n) = place e 0"
proof (cases e)
  case True
  assume n: "n < 32"
  have "(crc_step True ^^ n) (place True n) = push_bit n (place True n)"
    by (rule crc_steps_high) (use n in \<open>auto simp: place_def bit_simps simp del: push_bit_of_1\<close>)
  thus ?thesis using n True by (simp add: place_def del: push_bit_of_1)
next
  case False
  assume n: "n < 32"
  have "(crc_step False ^^ n) (place False n) = drop_bit n (place False n)"
    by (rule crc_steps_low) (use n in \<open>auto simp: place_def bit_simps simp del: push_bit_of_1\<close>)
  also have "\<dots> = 1" unfolding place_def if_False
    by (rule bit_word_eqI) (use n in \<open>auto simp: bit_simps simp del: push_bit_of_1\<close>)
  finally show ?thesis using False by (simp add: place_def)
qed

lemma serial_bits:
  "n \<le> 32 \<Longrightarrow> foldl (serial_step e) val (map f [0..<n]) = (crc_step e ^^ n) (val XOR placed e f n)"
proof (induction n)
  case (Suc n)
  have p: "(if f n then if e then push_bit 31 1 else 1 else 0) = (crc_step e ^^ n) (if f n then place e n else 0)"
    using crc_steps_place[of n e] Suc.prems crc_steps_xor[of n e 0 0] by (simp add: place_def)
  have "foldl (serial_step e) val (map f [0..<Suc n]) =
      crc_step e ((crc_step e ^^ n) (val XOR placed e f n) XOR (crc_step e ^^ n) (if f n then place e n else 0))"
    using Suc by (simp add: serial_step_def[of e _ "f n"] p del: funpow.simps)
  thus ?case by (simp add: crc_steps_xor xor.assoc)
qed simp

lemma bit_placed0: "n \<le> 32 \<Longrightarrow> bit (placed False f n) k \<longleftrightarrow> k < n \<and> f k"
proof (induction n)
  case (Suc n)
  have "bit (place False n) k \<longleftrightarrow> k = n" using Suc.prems by (auto simp: place_def bit_simps simp del: push_bit_of_1)
  thus ?case using Suc by (auto simp: bit_xor_iff less_Suc_eq)
qed simp

lemma bit_placed1: "n \<le> 32 \<Longrightarrow> bit (placed True f n) k \<longleftrightarrow> k < 32 \<and> 31 - k < n \<and> f (31 - k)"
proof (induction n)
  case (Suc n)
  have "bit (place True n) k \<longleftrightarrow> k < 32 \<and> 31 - k = n" using Suc.prems by (auto simp: place_def bit_simps simp del: push_bit_of_1)
  thus ?case using Suc by (auto simp: bit_xor_iff less_Suc_eq)
qed simp

lemma serial_byte:
  "foldl (serial_step False) val (byte_bits False b) = (crc_step False ^^ 8) (val XOR ucast b)"
  "foldl (serial_step True) val (byte_bits True b) = (crc_step True ^^ 8) (val XOR push_bit 24 (ucast b))"
proof -
  have "placed False (bit b) 8 = ucast b"
    by (rule bit_word_eqI) (auto simp: bit_placed0 bit_simps dest: bit_imp_le_length)
  thus "foldl (serial_step False) val (byte_bits False b) = (crc_step False ^^ 8) (val XOR ucast b)"
    unfolding byte_bits_def using serial_bits[of 8 False val "bit b"] by (simp only: if_False)
  have "placed True (\<lambda>i. bit b (7 - i)) 8 = push_bit 24 (ucast b)"
    by (rule bit_word_eqI) (auto simp: bit_placed1 bit_simps not_less dest: bit_imp_le_length)
  thus "foldl (serial_step True) val (byte_bits True b) = (crc_step True ^^ 8) (val XOR push_bit 24 (ucast b))"
    unfolding byte_bits_def using serial_bits[of 8 True val "\<lambda>i. bit b (7 - i)"] by (simp only: if_True)
qed

lemma crc_serial_Cons: "crc_serial e val (b # buf) = crc_serial e (foldl (serial_step e) val (byte_bits e b)) buf"
  by (simp add: crc_serial_def)

text \<open>For both bit orders the table-driven functions compute what the serial register computes.\<close>

lemma crc32_block_serial:
  "crc32_block_endian0 val buf (crc32_filltable False) = crc_serial False val buf"
  "crc32_block_endian1 val buf (crc32_filltable True) = crc_serial True val buf"
proof -
  show "crc32_block_endian0 val buf (crc32_filltable False) = crc_serial False val buf"
    unfolding crc32_block_endian0_def
    by (induction buf arbitrary: val) (simp_all only: foldl_Cons crc_serial_Cons serial_byte table_byte0, simp add: crc_serial_def)
  show "crc32_block_endian1 val buf (crc32_filltable True) = crc_serial True val buf"
    unfolding crc32_block_endian1_def
    by (induction buf arbitrary: val) (simp_all only: foldl_Cons crc_serial_Cons serial_byte table_byte1, simp add: crc_serial_def)
qed

lemma crc_serial_append: "crc_serial e val (xs @ ys) = crc_serial e (crc_serial e val xs) ys"
  by (simp add: crc_serial_def)

lemma cksum_loop_chunks:
  assumes "n + length (concat chunks) < 2 ^ 64"
  shows "cksum_loop e (crc32_filltable e) crc n (map Some chunks) =
    Some (crc_serial e crc (concat chunks @ (if e then size_bytes (n + length (concat chunks)) else [])),
          n + length (concat chunks))"
  using assms
proof (induction chunks arbitrary: crc n)
  case Nil
  show ?case by (cases e) (simp_all add: crc32_block_serial, simp add: crc_serial_def)
next
  case (Cons c cs)
  have "(if e then crc32_block_endian1 else crc32_block_endian0) crc c (crc32_filltable e) = crc_serial e crc c"
    by (cases e) (simp_all add: crc32_block_serial)
  moreover have "(n + length c) mod 2 ^ 64 = n + length c" using Cons.prems by simp
  ultimately show ?case using Cons.IH[of "n + length c"] Cons.prems
    by (simp add: crc_serial_append add.assoc)
qed

lemma xor_cancel: "x XOR p = y XOR p \<Longrightarrow> x = (y::u32)"
proof -
  assume "x XOR p = y XOR p"
  hence "(x XOR p) XOR p = (y XOR p) XOR p" by simp
  thus "x = y" by (simp add: xor.assoc)
qed

lemma crc_step_inj: "crc_step e x = crc_step e y \<Longrightarrow> x = y"
proof -
  have poly: "bit (crc_polynomial True) 0" "bit (crc_polynomial False) 31"
    by (simp_all add: crc_polynomial_def)
  have zero: "z = 0" if "crc_step e z = 0" for z
  proof -
    have s: "bit (crc_shift e z) n \<longleftrightarrow> bit z (crc_out e) \<and> bit (crc_polynomial e) n" if "n < 32" for n
      using arg_cong[OF \<open>crc_step e z = 0\<close>, of "\<lambda>w. bit w n"]
      by (simp add: crc_step_eq bit_xor_iff split: if_splits)
    have out: "\<not> bit z (crc_out e)"
      using s[of "if e then 0 else 31"] bit_imp_le_length[of z 32]
      by (cases e) (auto simp: crc_shift_def poly bit_simps simp del: One_nat_def)
    show "z = 0"
    proof (rule bit_word_eqI)
      fix n assume "n < LENGTH(32)"
      hence n: "n < 32" by simp
      have "n = crc_out e \<or> (e \<and> n < 31) \<or> (\<not> e \<and> 0 < n)" using n by (auto simp: crc_out_def)
      thus "bit z n = bit 0 n"
      proof (elim disjE conjE)
        assume "e" "n < 31"
        thus ?thesis using s[of "Suc n"] out by (simp add: crc_shift_def bit_push_bit_iff del: One_nat_def)
      next
        assume "\<not> e" "0 < n"
        thus ?thesis using s[of "n - 1"] out n by (simp add: crc_shift_def bit_drop_bit_eq del: One_nat_def)
      qed (use out in simp)
    qed
  qed
  assume "crc_step e x = crc_step e y"
  hence "crc_step e (x XOR y) = 0" by (simp add: crc_step_xor)
  hence "x XOR y = 0" by (rule zero)
  hence "x XOR y = y XOR y" by simp
  thus "x = y" by (rule xor_cancel)
qed

lemma crc_serial_inj: "crc_serial e x buf = crc_serial e y buf \<Longrightarrow> x = y"
proof -
  have "foldl (serial_step e) x bs = foldl (serial_step e) y bs \<Longrightarrow> x = y" for bs
  proof (induction bs arbitrary: x y)
    case (Cons b bs)
    have "serial_step e x b = serial_step e y b" using Cons by simp
    hence "x XOR (if b then if e then push_bit 31 1 else 1 else 0) = y XOR (if b then if e then push_bit 31 1 else 1 else 0)"
      unfolding serial_step_def by (rule crc_step_inj)
    thus ?case by (rule xor_cancel)
  qed simp
  thus "crc_serial e x buf = crc_serial e y buf \<Longrightarrow> x = y" unfolding crc_serial_def .
qed

text \<open>A change of one byte, wherever it is, changes the checksum.\<close>

lemma crc_detects_byte:
  assumes "b \<noteq> b'"
  shows "crc_serial e val (xs @ b # ys) \<noteq> crc_serial e val (xs @ b' # ys)"
proof
  define v where "v = crc_serial e val xs"
  have inj: "(crc_step e' ^^ n) x = (crc_step e' ^^ n) y \<Longrightarrow> x = y" for e' n x y
    by (induction n arbitrary: x y) (auto dest: crc_step_inj)
  assume "crc_serial e val (xs @ b # ys) = crc_serial e val (xs @ b' # ys)"
  hence "foldl (serial_step e) v (byte_bits e b) = foldl (serial_step e) v (byte_bits e b')"
    unfolding crc_serial_append crc_serial_Cons v_def by (rule crc_serial_inj)
  hence "\<exists>k \<le> 24. v XOR push_bit k (ucast b) = v XOR push_bit k (ucast b')"
  proof (cases e)
    case True
    assume "foldl (serial_step e) v (byte_bits e b) = foldl (serial_step e) v (byte_bits e b')"
    hence eq: "foldl (serial_step True) v (byte_bits True b) = foldl (serial_step True) v (byte_bits True b')"
      using True by simp
    have "v XOR push_bit 24 (ucast b) = v XOR push_bit 24 (ucast b')" using eq unfolding serial_byte by (rule inj)
    thus ?thesis by (intro exI[of _ 24]) simp
  next
    case False
    assume "foldl (serial_step e) v (byte_bits e b) = foldl (serial_step e) v (byte_bits e b')"
    hence eq: "foldl (serial_step False) v (byte_bits False b) = foldl (serial_step False) v (byte_bits False b')"
      using False by simp
    have "v XOR ucast b = v XOR ucast b'" using eq unfolding serial_byte by (rule inj)
    thus ?thesis by (intro exI[of _ 0]) simp
  qed
  then obtain k where k: "k \<le> 24" "push_bit k (ucast b :: u32) = push_bit k (ucast b')"
    using xor_cancel[of _ v] by (auto simp: xor.commute[of v])
  have "b = b'"
  proof (rule bit_word_eqI)
    fix n assume n: "n < LENGTH(8)"
    thus "bit b n = bit b' n"
      using arg_cong[OF k(2), of "\<lambda>w. bit w (n + k)"] k(1) by (simp add: bit_simps)
  qed
  with assms show False ..
qed

text \<open>C35: the checksum applets compute the cyclic redundancy code of the file. However the file arrives in
  pieces, \<open>cksum\<close> and \<open>crc32\<close> print the complement of the register that has taken the bits of the content one
  by one, for \<open>cksum\<close> followed by the bytes of the length; and two files that differ in one byte have
  different checksums.\<close>

theorem cksum_correct:
  assumes "length (concat chunks) < 2 ^ 64"
  shows "cksum_file e (map Some chunks) =
    Some (NOT (crc_serial e (if e then 0 else 0xffffffff)
            (concat chunks @ (if e then size_bytes (length (concat chunks)) else []))), length (concat chunks)) \<and>
    (concat chunks = xs @ b # ys \<and> concat chunks' = xs @ b' # ys \<and> b \<noteq> b' \<longrightarrow>
      map_option fst (cksum_file e (map Some chunks)) \<noteq> map_option fst (cksum_file e (map Some chunks')))"
proof -
  have val: "cksum_file e (map Some cs) =
    Some (NOT (crc_serial e (if e then 0 else 0xffffffff)
            (concat cs @ (if e then size_bytes (length (concat cs)) else []))), length (concat cs))"
    if "length (concat cs) < 2 ^ 64" for cs
    unfolding cksum_file_def using cksum_loop_chunks[of 0 cs e] that by simp
  have "map_option fst (cksum_file e (map Some chunks)) \<noteq> map_option fst (cksum_file e (map Some chunks'))"
    if d: "concat chunks = xs @ b # ys" "concat chunks' = xs @ b' # ys" "b \<noteq> b'"
  proof -
    define tl where "tl = ys @ (if e then size_bytes (length (concat chunks)) else [])"
    have len: "length (concat chunks') = length (concat chunks)" unfolding d by simp
    have "concat chunks @ (if e then size_bytes (length (concat chunks)) else []) = xs @ b # tl"
      "concat chunks' @ (if e then size_bytes (length (concat chunks')) else []) = xs @ b' # tl"
      unfolding len by (simp_all add: tl_def d)
    thus ?thesis
      using val[of chunks] val[of chunks'] assms len crc_detects_byte[OF d(3), of e _ xs tl] by simp
  qed
  with val[OF assms] show ?thesis by blast
qed

theorem cksum_correct_witness:
  "map_option fst (cksum_file True [Some [1, 2], Some [3]]) \<noteq> map_option fst (cksum_file True [Some [1], Some [2, 4]])"
proof -
  have "length (concat [[1, 2], [3::u8]]) < 2 ^ 64" by simp
  from conjunct2[OF cksum_correct[where e = True and xs = "[1, 2]" and b = 3 and ys = "[]"
      and chunks' = "[[1], [2, 4]]" and b' = 4, OF this]]
  show ?thesis by simp
qed

end
