(* ===== verification/Bb_Path.thy ===== *)
theory Bb_Path
  imports Cxx_Strings
begin

text \<open>
  Path names of the user land: \<open>src/busybox/libbb/simplify_path.c\<close>, \<open>concat_path_file.c\<close> and
  \<open>last_char_is.c\<close>. The simplification works in place with a reading pointer \<open>s\<close> and a writing pointer \<open>p\<close>
  that never passes it; in the model the text up to and including \<open>*p\<close> is a list with \<open>*p\<close> first.
\<close>

section \<open>Definitions\<close>

definition ends_component :: "string \<Rightarrow> bool" where
  "ends_component t = (case t of [] \<Rightarrow> True | c # _ \<Rightarrow> c = CHR ''/'')"

text \<open>\<open>if (p > start) while (*--p != '/')\<close>\<close>

definition omit_dir :: "string \<Rightarrow> string" where
  "omit_dir p = (if 1 < length p then dropWhile (\<lambda>c. c \<noteq> CHR ''/'') (tl p) else p)"

fun simplify_loop :: "string \<Rightarrow> string \<Rightarrow> string" where
  "simplify_loop p [] = p"
| "simplify_loop p (c # t) =
     (if hd p = CHR ''/'' then
        if c = CHR ''/'' then simplify_loop p t
        else if c = CHR ''.'' \<and> ends_component t then simplify_loop p t
        else if c = CHR ''.'' \<and> t \<noteq> [] \<and> hd t = CHR ''.'' \<and> ends_component (tl t) then simplify_loop (omit_dir p) (tl t)
        else simplify_loop (c # p) t
      else simplify_loop (c # p) t)"

definition bb_simplify_abs_path_inplace :: "string \<Rightarrow> string" where
  "bb_simplify_abs_path_inplace start =
     (let p = simplify_loop [hd start] start
      in rev (if length p = 1 \<or> hd p \<noteq> CHR ''/'' then p else tl p))"

definition last_char_is :: "string \<Rightarrow> char \<Rightarrow> bool" where
  "last_char_is s c \<longleftrightarrow> s \<noteq> [] \<and> last s = c"

definition concat_path_file :: "string option \<Rightarrow> string \<Rightarrow> string" where
  "concat_path_file path filename =
     (let dir = (case path of None \<Rightarrow> [] | Some d \<Rightarrow> d)
      in dir @ (if last_char_is dir CHR ''/'' then [] else ''/'') @ dropWhile (\<lambda>c. c = CHR ''/'') filename)"

text \<open>The current directory, or \<open>None\<close> when it cannot be read, is an argument.\<close>

definition bb_simplify_path :: "string option \<Rightarrow> string \<Rightarrow> string" where
  "bb_simplify_path cwd path =
     bb_simplify_abs_path_inplace
       (if path \<noteq> [] \<and> hd path = CHR ''/'' then path else concat_path_file cwd path)"

section \<open>The reference: lists of names\<close>

function components :: "string \<Rightarrow> string list" where
  "components s =
     (let w = takeWhile (\<lambda>c. c \<noteq> CHR ''/'') s; r = dropWhile (\<lambda>c. c \<noteq> CHR ''/'') s
      in w # (if r = [] then [] else components (tl r)))"
  by pat_completeness auto
termination
proof (relation "measure length")
  fix s w r :: string
  assume r: "r = dropWhile (\<lambda>c. c \<noteq> CHR ''/'') s" "r \<noteq> []"
  have "length (tl r) < length r" using r(2) by simp
  also have "\<dots> \<le> length s" unfolding r(1) by (rule length_dropWhile_le)
  finally show "(tl r, s) \<in> measure length" by simp
qed simp

declare components.simps [simp del]

fun resolve :: "string list \<Rightarrow> string list \<Rightarrow> string list" where
  "resolve done [] = done"
| "resolve done (w # ws) =
     (if w = [] \<or> w = ''.'' then resolve done ws
      else if w = ''..'' then resolve (butlast done) ws
      else resolve (done @ [w]) ws)"

definition render :: "string list \<Rightarrow> string" where
  "render ws = concat (map (\<lambda>w. CHR ''/'' # w) ws)"

section \<open>Simplification resolves the names\<close>

abbreviation no_slash :: "string \<Rightarrow> bool" where
  "no_slash w \<equiv> CHR ''/'' \<notin> set w"

lemma copy_name:
  "no_slash w \<Longrightarrow> hd p \<noteq> CHR ''/'' \<Longrightarrow> simplify_loop p (w @ rest) = simplify_loop (rev w @ p) rest"
  by (induction w arbitrary: p) auto

lemma ends_component_name: "no_slash w \<Longrightarrow> ends_component rest \<Longrightarrow> ends_component (w @ rest) \<longleftrightarrow> w = []"
  by (cases w) (auto simp: ends_component_def)

text \<open>An ordinary name is copied.\<close>

lemma simplify_name:
  assumes "no_slash w" "ends_component rest" "w \<notin> {[], ''.'', ''..''}"
  shows "simplify_loop (CHR ''/'' # p) (w @ rest) = simplify_loop (rev w @ CHR ''/'' # p) rest"
proof -
  obtain c w' where w: "w = c # w'" using assms(3) by (cases w) auto
  have c: "c \<noteq> CHR ''/''" "no_slash w'" using assms(1) w by auto
  have "\<not> (c = CHR ''.'' \<and> ends_component (w' @ rest))"
    using ends_component_name[OF c(2) assms(2)] assms(3) w by auto
  moreover have "\<not> (c = CHR ''.'' \<and> w' @ rest \<noteq> [] \<and> hd (w' @ rest) = CHR ''.'' \<and> ends_component (tl (w' @ rest)))"
  proof (cases w')
    case Nil
    thus ?thesis using assms(2) by (cases rest) (auto simp: ends_component_def)
  next
    case (Cons d w'')
    thus ?thesis using ends_component_name[of w'' rest] c(2) assms(2,3) w by auto
  qed
  ultimately have "simplify_loop (CHR ''/'' # p) (w @ rest) = simplify_loop (c # CHR ''/'' # p) (w' @ rest)"
    using c(1) unfolding w append_Cons simplify_loop.simps list.sel by (simp only: simp_thms if_True if_False)
  thus ?thesis using copy_name[OF c(2), of "c # CHR ''/'' # p" rest] c(1) w by simp
qed

lemma render_snoc: "render (ws @ [w]) = render ws @ CHR ''/'' # w"
  by (simp add: render_def)

lemma omit_dir_root: "omit_dir ''/'' = ''/''"
  by (simp add: omit_dir_def)

lemma omit_dir_name:
  assumes "no_slash w"
  shows "omit_dir (CHR ''/'' # rev (render (ws @ [w]))) = CHR ''/'' # rev (render ws)"
proof -
  have "dropWhile (\<lambda>c. c \<noteq> CHR ''/'') (rev w @ CHR ''/'' # rev (render ws)) = CHR ''/'' # rev (render ws)"
    using assms by (subst dropWhile_append2) auto
  thus ?thesis by (simp add: omit_dir_def render_snoc)
qed

definition names_ok :: "string list \<Rightarrow> bool" where
  "names_ok ws \<longleftrightarrow> (\<forall>w \<in> set ws. no_slash w \<and> w \<notin> {[], ''.'', ''..''})"

lemma names_ok_butlast: "names_ok ws \<Longrightarrow> names_ok (butlast ws)"
  by (auto simp: names_ok_def dest: in_set_butlastD)

lemma omit_dir_names: "names_ok ws \<Longrightarrow> omit_dir (CHR ''/'' # rev (render ws)) = CHR ''/'' # rev (render (butlast ws))"
  by (cases ws rule: rev_cases) (auto simp: omit_dir_root omit_dir_name names_ok_def render_def[of "[]"])

definition written :: "string \<Rightarrow> string list \<Rightarrow> bool" where
  "written p ws \<longleftrightarrow> names_ok ws \<and> (p = CHR ''/'' # rev (render ws) \<or> ws \<noteq> [] \<and> p = rev (render ws))"

lemma simplify_loop_resolves:
  "names_ok ws \<Longrightarrow> written (simplify_loop (CHR ''/'' # rev (render ws)) s) (resolve ws (components s))"
proof (induction "length s" arbitrary: ws s rule: less_induct)
  case less
  define w r where "w = takeWhile (\<lambda>c. c \<noteq> CHR ''/'') s" and "r = dropWhile (\<lambda>c. c \<noteq> CHR ''/'') s"
  have s: "s = w @ r" by (simp add: w_def r_def)
  have w: "no_slash w" by (auto simp: w_def dest: set_takeWhileD)
  have r: "ends_component r"
    using hd_dropWhile[of "\<lambda>c. c \<noteq> CHR ''/''" s, folded r_def] by (cases r) (simp_all add: ends_component_def)
  have comps: "components s = w # (if r = [] then [] else components (tl r))"
    using components.simps[of s] unfolding Let_def w_def[symmetric] r_def[symmetric] .
  show ?case
  proof (cases "w \<in> {[], ''.'', ''..''}")
    case False
    let ?ws = "ws @ [w]"
    have ok: "names_ok ?ws" using less.prems w False by (auto simp: names_ok_def)
    have step: "simplify_loop (CHR ''/'' # rev (render ws)) s = simplify_loop (rev (render ?ws)) r"
      unfolding s using simplify_name[OF w r False] by (simp add: render_snoc)
    show ?thesis
    proof (cases r)
      case Nil
      thus ?thesis using ok False by (simp add: step comps written_def)
    next
      case (Cons c t)
      hence c: "c = CHR ''/''" using r by (simp add: ends_component_def)
      have "w \<noteq> []" "last w \<noteq> CHR ''/''" using False w by (auto, metis last_in_set)
      hence "hd (rev (render ?ws)) \<noteq> CHR ''/''" by (simp add: render_snoc hd_rev)
      hence "simplify_loop (rev (render ?ws)) r = simplify_loop (CHR ''/'' # rev (render ?ws)) t"
        by (simp add: Cons c)
      moreover have "written (simplify_loop (CHR ''/'' # rev (render ?ws)) t) (resolve ?ws (components t))"
        by (rule less.hyps) (use s Cons ok in auto)
      ultimately show ?thesis using False by (simp add: step comps Cons)
    qed
  next
    case True
    define ws' where "ws' = (if w = ''..'' then butlast ws else ws)"
    have ok: "names_ok ws'" using less.prems names_ok_butlast by (simp add: ws'_def)
    have res: "resolve ws (w # us) = resolve ws' us" for us using True by (auto simp: ws'_def)
    show ?thesis
    proof (cases r)
      case Nil
      have "simplify_loop (CHR ''/'' # rev (render ws)) s = CHR ''/'' # rev (render ws')"
        using True omit_dir_names[OF less.prems] by (auto simp: s Nil ws'_def ends_component_def)
      thus ?thesis using ok by (simp add: comps Nil res written_def del: resolve.simps(2))
    next
      case (Cons c t)
      hence c: "c = CHR ''/''" using r by (simp add: ends_component_def)
      have "simplify_loop (CHR ''/'' # rev (render ws)) s = simplify_loop (CHR ''/'' # rev (render ws')) t"
        using True omit_dir_names[OF less.prems] by (auto simp: s Cons c ws'_def ends_component_def)
      moreover have "written (simplify_loop (CHR ''/'' # rev (render ws')) t) (resolve ws' (components t))"
        by (rule less.hyps) (use s Cons ok in auto)
      ultimately show ?thesis by (simp add: comps Cons res del: resolve.simps(2))
    qed
  qed
qed

definition absolute :: "string \<Rightarrow> bool" where
  "absolute s \<longleftrightarrow> s \<noteq> [] \<and> hd s = CHR ''/''"

definition path_of :: "string list \<Rightarrow> string" where
  "path_of ws = (if ws = [] then ''/'' else render ws)"

lemma resolve_names_ok: "absolute s \<Longrightarrow> names_ok (resolve [] (components s))"
  using simplify_loop_resolves[of "[]" s] by (simp add: written_def names_ok_def)

lemma simplify_abs_path:
  assumes "absolute s"
  shows "bb_simplify_abs_path_inplace s = path_of (resolve [] (components s))"
proof -
  let ?ws = "resolve [] (components s)"
  have "written (simplify_loop ''/'' s) ?ws"
    using simplify_loop_resolves[of "[]" s] by (simp add: names_ok_def render_def)
  moreover have "hd (rev (render ?ws)) \<noteq> CHR ''/''" if "?ws \<noteq> []"
  proof -
    define us w where "us = butlast ?ws" and "w = last ?ws"
    have u: "?ws = us @ [w]" unfolding us_def w_def using append_butlast_last_id[OF that] by (rule sym)
    hence w: "w \<noteq> []" "no_slash w" using resolve_names_ok[OF assms] by (auto simp: names_ok_def)
    have "hd (rev (render (us @ [w]))) = last w" using w(1) by (simp add: render_snoc hd_append hd_rev)
    moreover have "last w \<in> set w" using w(1) by (rule last_in_set)
    ultimately show ?thesis using w(2) u by auto
  qed
  moreover have "length (rev (render ?ws)) \<noteq> 0" if "?ws \<noteq> []"
    using that by (cases ?ws) (auto simp: render_def)
  ultimately show ?thesis
    using assms by (auto simp: bb_simplify_abs_path_inplace_def absolute_def path_of_def written_def render_def Let_def)
qed

lemma name_split:
  assumes "no_slash w"
  shows "takeWhile (\<lambda>c. c \<noteq> CHR ''/'') (w @ CHR ''/'' # s) = w" "dropWhile (\<lambda>c. c \<noteq> CHR ''/'') (w @ CHR ''/'' # s) = CHR ''/'' # s"
    "takeWhile (\<lambda>c. c \<noteq> CHR ''/'') w = w" "dropWhile (\<lambda>c. c \<noteq> CHR ''/'') w = []"
  using assms by (induction w) auto

lemma components_slash: "no_slash w \<Longrightarrow> components (w @ CHR ''/'' # s) = w # components s"
  using components.simps[of "w @ CHR ''/'' # s"] by (simp only: name_split Let_def list.distinct if_False list.sel simp_thms)

lemma components_name: "no_slash w \<Longrightarrow> components w = [w]"
  using components.simps[of w] by (simp only: name_split Let_def if_True simp_thms)

lemma components_render: "names_ok (w # ws) \<Longrightarrow> components (render (w # ws)) = [] # w # ws"
proof -
  have "names_ok (w # ws) \<Longrightarrow> components (w @ render ws) = w # ws" for w ws
  proof (induction ws arbitrary: w)
    case Nil
    thus ?case by (simp add: render_def names_ok_def components_name)
  next
    case (Cons v ws)
    have "components (w @ CHR ''/'' # v @ render ws) = w # components (v @ render ws)"
      using Cons.prems by (intro components_slash) (simp add: names_ok_def)
    with Cons show ?case by (simp add: render_def names_ok_def)
  qed
  moreover have "components (CHR ''/'' # s) = [] # components s" for s using components_slash[of "[]" s] by simp
  ultimately show "names_ok (w # ws) \<Longrightarrow> components (render (w # ws)) = [] # w # ws" by (simp add: render_def)
qed

lemma resolve_names: "names_ok ws \<Longrightarrow> resolve us ws = us @ ws"
  by (induction ws arbitrary: us) (auto simp: names_ok_def)

lemma path_of_names:
  assumes "names_ok ws"
  shows "absolute (path_of ws)" "resolve [] (components (path_of ws)) = ws"
proof -
  show "absolute (path_of ws)" by (cases ws) (auto simp: path_of_def absolute_def render_def)
  have "components ''/'' = [[], []]"
    using components_slash[of "[]" "[]"] components_name[of "[]"] by simp
  thus "resolve [] (components (path_of ws)) = ws"
    using assms components_render resolve_names[OF assms] by (cases ws) (auto simp: path_of_def)
qed

text \<open>C36: path names are simplified the way they are resolved. For an absolute path, or a path relative to a
  current directory that is absolute, the result is the root followed by the names that remain when empty
  names and \<open>.\<close> are dropped and \<open>..\<close> removes the name before it (at the root nothing); the result has neither
  of them left, and simplifying it again, from wherever, changes nothing.\<close>

theorem simplify_path_correct:
  fixes cwd path
  defines "full \<equiv> if absolute path then path else concat_path_file cwd path"
    and "ws \<equiv> resolve [] (components (if absolute path then path else concat_path_file cwd path))"
  assumes getcwd: "absolute path \<or> cwd = None \<or> (\<exists>d. cwd = Some d \<and> absolute d)"
  shows "bb_simplify_path cwd path = path_of ws \<and> (\<forall>w \<in> set ws. w \<notin> {[], ''.'', ''..''} \<and> CHR ''/'' \<notin> set w) \<and>
    bb_simplify_path cwd' (bb_simplify_path cwd path) = bb_simplify_path cwd path"
proof -
  have full: "absolute full"
    using getcwd by (auto simp: full_def absolute_def concat_path_file_def last_char_is_def Let_def)
  have eq: "bb_simplify_path cwd path = path_of ws"
    using simplify_abs_path[OF full] by (simp add: bb_simplify_path_def full_def ws_def absolute_def)
  have ok: "names_ok ws" using resolve_names_ok[OF full] by (simp add: ws_def full_def)
  have "bb_simplify_path cwd' (path_of ws) = path_of ws"
    using simplify_abs_path[OF path_of_names(1)[OF ok]] path_of_names[OF ok]
    by (simp add: bb_simplify_path_def absolute_def)
  with eq ok show ?thesis by (auto simp: names_ok_def)
qed

theorem simplify_path_correct_witness:
  "absolute ''/proc'' \<and> bb_simplify_path (Some ''/proc'') ''./net/..//../tmp/'' = ''/tmp''"
proof
  show "absolute ''/proc''" by (simp add: absolute_def)
  have "bb_simplify_path (Some ''/proc'') ''./net/..//../tmp/'' =
      path_of (resolve [] (components (concat_path_file (Some ''/proc'') ''./net/..//../tmp/'')))"
    using simplify_path_correct[of "''./net/..//../tmp/''" "Some ''/proc''"] by (simp add: absolute_def)
  also have "\<dots> = ''/tmp''"
    by (simp add: concat_path_file_def last_char_is_def components.simps path_of_def render_def)
  finally show "bb_simplify_path (Some ''/proc'') ''./net/..//../tmp/'' = ''/tmp''" .
qed

end
