(* ===== verification/Bb_Mode.thy ===== *)
theory Bb_Mode
  imports Bb_Strtonum
begin

text \<open>
  File modes of the user land: the parser of \<open>chmod\<close>-style modes, \<open>src/busybox/libbb/parse_mode.c\<close>, and the
  text of a mode in listings, \<open>src/busybox/libbb/mode_string.c\<close> (its compiled variant). Modes are 32-bit
  words; the result \<open>-1\<close> of the parser is \<open>None\<close>. The umask of the process is an argument.
\<close>

section \<open>Definitions\<close>

definition FILEMODEBITS :: u32 where "FILEMODEBITS = 0xfff"

definition who_mask :: "char \<Rightarrow> u32 option" where
  "who_mask c = (if c = CHR ''a'' then Some 0xfff
     else if c = CHR ''u'' then Some 0x9c0
     else if c = CHR ''g'' then Some 0x438
     else if c = CHR ''o'' then Some 7 else None)"

definition perm_mask :: "char \<Rightarrow> u32 option" where
  "perm_mask c = (if c = CHR ''r'' then Some 0x124
     else if c = CHR ''w'' then Some 0x92
     else if c = CHR ''x'' then Some 0x49
     else if c = CHR ''X'' then Some 0x49
     else if c = CHR ''s'' then Some 0xc00
     else if c = CHR ''t'' then Some 0x200 else None)"

text \<open>\<open>WHO_LIST\<close>: the text after the letters, or \<open>None\<close> when it ends with them.\<close>

fun who_list :: "u32 \<Rightarrow> string \<Rightarrow> (u32 \<times> string) option" where
  "who_list wholist [] = None"
| "who_list wholist (c # s) = (case who_mask c of
      None \<Rightarrow> Some (wholist, c # s)
    | Some m \<Rightarrow> if s = [] then None else who_list (wholist OR m) s)"

text \<open>\<open>PERM_LIST\<close>\<close>

fun perm_list :: "u32 \<Rightarrow> u32 \<Rightarrow> string \<Rightarrow> u32 \<times> string" where
  "perm_list new_mode permlist [] = (permlist, [])"
| "perm_list new_mode permlist (c # s) = (case perm_mask c of
      None \<Rightarrow> (permlist, c # s)
    | Some m \<Rightarrow>
        perm_list new_mode
          (if c \<noteq> CHR ''X'' \<or> new_mode AND 0x4049 \<noteq> 0 then permlist OR m else permlist) s)"

text \<open>The loop over \<open>r\<close>, \<open>w\<close> and \<open>x\<close> that spreads copied permissions.\<close>

definition spread :: "u32 \<Rightarrow> u32 \<Rightarrow> u32" where
  "spread permlist m = (if permlist AND m \<noteq> 0 then permlist OR m else permlist)"

definition permcopy :: "u32 \<Rightarrow> u32 \<Rightarrow> u32" where
  "permcopy who new_mode = foldl spread (who AND 0x1ff AND new_mode) [0x124, 0x92, 0x49]"

text \<open>What follows the operator: a copied class or a list of permissions, and the rest of the text.\<close>

definition perm_part :: "u32 \<Rightarrow> string \<Rightarrow> u32 \<times> string" where
  "perm_part new_mode s =
     (if s \<noteq> [] \<and> hd s \<noteq> CHR ''a'' \<and> who_mask (hd s) \<noteq> None
      then (permcopy (the (who_mask (hd s))) new_mode, tl s)
      else perm_list new_mode 0 s)"

text \<open>\<open>GOT_ACTION\<close>\<close>

definition apply_action :: "u32 \<Rightarrow> u32 \<Rightarrow> char \<Rightarrow> u32 \<Rightarrow> u32 \<Rightarrow> u32" where
  "apply_action u_mask wholist opc permlist new_mode =
     (if permlist \<noteq> 0 then
        let p = permlist AND (if wholist = 0 then NOT u_mask else wholist)
        in if opc = CHR ''-'' then new_mode AND NOT p else new_mode OR p
      else new_mode)"

text \<open>The list of actions of one clause.\<close>

lemma perm_list_length: "length (snd (perm_list n p s)) \<le> length s"
  by (induction n p s rule: perm_list.induct) (auto split: option.splits intro: le_SucI)

lemma perm_part_length: "length (snd (perm_part n s)) \<le> length s"
  using perm_list_length[of n 0 s] by (simp add: perm_part_def)

function actions :: "u32 \<Rightarrow> u32 \<Rightarrow> u32 \<Rightarrow> string \<Rightarrow> (u32 \<times> string) option" where
  "actions u_mask wholist new_mode [] = None"
| "actions u_mask wholist new_mode (c # s) =
     (if c \<noteq> CHR ''+'' \<and> c \<noteq> CHR ''-'' \<and> c \<noteq> CHR ''='' then None
      else let n1 = (if c = CHR ''='' then new_mode AND (if wholist \<noteq> 0 then NOT wholist else NOT FILEMODEBITS) else new_mode);
               pr = perm_part n1 s;
               n2 = apply_action u_mask wholist c (fst pr) n1
           in if snd pr \<noteq> [] \<and> hd (snd pr) \<noteq> CHR '','' then actions u_mask wholist n2 (snd pr)
              else Some (n2, snd pr))"
  by pat_completeness auto
termination
  by (relation "measure (\<lambda>(_, _, _, s). length s)") (auto simp: le_imp_less_Suc perm_part_length)

lemma actions_length: "actions u w n s = Some (n', r) \<Longrightarrow> length r < length s"
proof (induction u w n s arbitrary: n' r rule: actions.induct)
  case (2 u w n c s)
  note prems = 2(2)
  define n1 where "n1 = (if c = CHR ''='' then n AND (if w \<noteq> 0 then NOT w else NOT FILEMODEBITS) else n)"
  define pr where "pr = perm_part n1 s"
  have len: "length (snd pr) \<le> length s" unfolding pr_def by (rule perm_part_length)
  have ops: "\<not> (c \<noteq> CHR ''+'' \<and> c \<noteq> CHR ''-'' \<and> c \<noteq> CHR ''='')" using prems by (auto split: if_splits)
  show ?case
  proof (cases "snd pr \<noteq> [] \<and> hd (snd pr) \<noteq> CHR '',''")
    case True
    hence "actions u w (apply_action u w c (fst pr) n1) (snd pr) = Some (n', r)"
      using prems ops unfolding actions.simps n1_def[symmetric] pr_def[symmetric] Let_def by simp
    with 2(1)[OF ops n1_def pr_def refl True] len show ?thesis by fastforce
  next
    case False
    hence "snd pr = r"
      using prems ops unfolding actions.simps n1_def[symmetric] pr_def[symmetric] Let_def by (auto split: if_splits)
    with len show ?thesis by simp
  qed
qed simp

lemma who_list_length: "who_list w s = Some (w', r) \<Longrightarrow> length r \<le> length s"
  by (induction w s rule: who_list.induct) (auto split: option.splits if_splits)

text \<open>The loop over the clauses.\<close>

function clauses :: "u32 \<Rightarrow> u32 \<Rightarrow> string \<Rightarrow> u32 option" where
  "clauses u_mask new_mode [] = Some new_mode"
| "clauses u_mask new_mode (c # s) =
     (if c = CHR '','' then clauses u_mask new_mode s
      else case who_list 0 (c # s) of None \<Rightarrow> None
        | Some (wholist, t) \<Rightarrow> (case actions u_mask wholist new_mode t of None \<Rightarrow> None
            | Some (n, r) \<Rightarrow> clauses u_mask n r))"
  by pat_completeness auto
termination
proof (relation "measure (\<lambda>(_, _, s). length s)")
  fix u_mask new_mode n wholist :: u32 and c and s t r :: string and x y
  assume "who_list 0 (c # s) = Some x" "(wholist, t) = x" "actions u_mask wholist new_mode t = Some y" "(n, r) = y"
  hence "length r < length t" "length t \<le> length (c # s)" using actions_length who_list_length by metis+
  thus "((u_mask, n, r), u_mask, new_mode, c # s) \<in> measure (\<lambda>(_, _, s). length s)" by simp
qed auto

definition bb_parse_mode :: "u32 \<Rightarrow> string \<Rightarrow> u32 \<Rightarrow> u32 option" where
  "bb_parse_mode u_mask s current_mode =
     (if s \<noteq> [] \<and> CHR ''0'' \<le> hd s \<and> hd s \<le> CHR ''7'' then
        let (tmp, _, e) = strtoull 8 s in if e \<noteq> [] \<or> 0xfff < tmp then None else Some (of_nat tmp)
      else clauses u_mask current_mode s)"

text \<open>The text of a mode: type, three groups of three letters, with the special bits on their \<open>x\<close>.\<close>

definition type_chars :: string where "type_chars = ''?pc?d?b?-?l?s???''"

definition mode_chars :: string where "mode_chars = ''rwxSTst''"

text \<open>One group: the three tests with \<open>j\<close> and \<open>k\<close>, the mask \<open>m\<close> and the special bit of group \<open>i\<close>.\<close>

definition mode_group :: "u32 \<Rightarrow> nat \<Rightarrow> string" where
  "mode_group mode i =
     (let m = (\<lambda>j. push_bit (8 - 3 * (i - 1) - j) 1);
          t = (\<lambda>j. mode AND m j \<noteq> 0);
          k = (if t 2 then 2 else if t 1 then 1 else 0 :: nat);
          ch = (\<lambda>j. if t j then mode_chars ! j else CHR ''-'')
      in [ch 0, ch 1,
          if mode AND drop_bit i 0x1000 \<noteq> 0 then mode_chars ! (3 + (if k = 2 then 2 else 0) + (if i = 3 then 1 else 0))
          else ch 2])"

definition bb_mode_string :: "u32 \<Rightarrow> string" where
  "bb_mode_string mode =
     type_chars ! unat (drop_bit 12 mode AND 0xf) # mode_group mode 1 @ mode_group mode 2 @ mode_group mode 3"

section \<open>Symbolic modes never touch the type of the file\<close>

text \<open>Bits from 12 upwards are the same.\<close>

definition same_type :: "u32 \<Rightarrow> u32 \<Rightarrow> bool" where
  "same_type a b \<longleftrightarrow> a AND NOT 0xfff = b AND NOT 0xfff"

lemma same_type_iff: "same_type a b \<longleftrightarrow> drop_bit 12 a = drop_bit 12 b"
proof -
  have m: "(0xfff :: u32) = mask 12" by (simp add: mask_eq_exp_minus_1)
  have "(a AND NOT (mask 12) = b AND NOT (mask 12)) \<longleftrightarrow> drop_bit 12 a = drop_bit 12 b"
  proof
    assume h: "a AND NOT (mask 12) = b AND NOT (mask 12)"
    show "drop_bit 12 a = drop_bit 12 b"
    proof (rule bit_word_eqI)
      fix n assume "n < LENGTH(32)"
      show "bit (drop_bit 12 a) n = bit (drop_bit 12 b) n"
        using arg_cong[OF h, of "\<lambda>w. bit w (n + 12)"] by (auto simp: bit_simps add.commute dest: bit_imp_le_length)
    qed
  next
    assume h: "drop_bit 12 a = drop_bit 12 b"
    show "a AND NOT (mask 12) = b AND NOT (mask 12)"
    proof (rule bit_word_eqI)
      fix n assume "n < LENGTH(32)"
      show "bit (a AND NOT (mask 12)) n = bit (b AND NOT (mask 12)) n"
        using arg_cong[OF h, of "\<lambda>w. bit w (n - 12)"] by (cases "n < 12") (auto simp: bit_simps)
    qed
  qed
  thus ?thesis by (simp only: same_type_def m)
qed

definition low12 :: "u32 \<Rightarrow> bool" where
  "low12 p \<longleftrightarrow> drop_bit 12 p = 0"

lemma drop_bit_not: "n \<le> 32 \<Longrightarrow> drop_bit n (NOT p) = NOT (drop_bit n p) AND mask (32 - n)" for p :: u32
  by (rule bit_word_eqI) (auto simp: bit_simps)

lemma low12_ops:
  "low12 0" "low12 a \<Longrightarrow> low12 b \<Longrightarrow> low12 (a OR b)" "low12 a \<Longrightarrow> low12 (a AND b)"
  "low12 p \<Longrightarrow> same_type (n AND NOT p) n" "low12 p \<Longrightarrow> same_type (n OR p) n"
proof -
  show "low12 p \<Longrightarrow> same_type (n AND NOT p) n"
  proof -
    assume p: "low12 p"
    have "drop_bit 12 (n AND NOT p) = drop_bit 12 n"
    proof (rule bit_word_eqI)
      fix i assume "i < LENGTH(32)"
      have "\<not> bit p (12 + i)" using arg_cong[OF p[unfolded low12_def], of "\<lambda>w. bit w i"] by (simp add: bit_drop_bit_eq)
      thus "bit (drop_bit 12 (n AND NOT p)) i = bit (drop_bit 12 n) i"
        by (auto simp: bit_simps dest: bit_imp_le_length)
    qed
    thus ?thesis by (simp add: same_type_iff)
  qed
qed (simp_all add: low12_def same_type_iff drop_bit_or drop_bit_and)

lemma who_mask_low: "who_mask c = Some m \<Longrightarrow> low12 m"
  by (auto simp: who_mask_def low12_def split: if_splits)

lemma perm_mask_low: "perm_mask c = Some m \<Longrightarrow> low12 m"
  by (auto simp: perm_mask_def low12_def split: if_splits)

lemma who_list_low: "who_list w s = Some (w', r) \<Longrightarrow> low12 w \<Longrightarrow> low12 w'"
  by (induction w s rule: who_list.induct) (auto split: option.splits if_splits intro: low12_ops who_mask_low)

lemma perm_list_low: "low12 p \<Longrightarrow> low12 (fst (perm_list n p s))"
  by (induction n p s rule: perm_list.induct) (auto split: option.splits simp: low12_ops(2) perm_mask_low)

lemma perm_part_low: "low12 (fst (perm_part n s))"
proof -
  have "low12 (permcopy m n)" if "low12 m" for m
    using that by (auto simp: permcopy_def spread_def low12_def drop_bit_or drop_bit_and)
  thus ?thesis by (auto simp: perm_part_def perm_list_low low12_ops who_mask_low)
qed

lemma same_type_trans: "same_type a b \<Longrightarrow> same_type b c \<Longrightarrow> same_type a c"
  by (simp add: same_type_def)

lemma same_type_refl: "same_type a a"
  by (simp add: same_type_def)

lemma apply_action_type: "low12 p \<Longrightarrow> same_type (apply_action u w c p n) n"
  using low12_ops(3-5) same_type_refl unfolding apply_action_def Let_def by presburger

lemma FILEMODEBITS_low: "low12 FILEMODEBITS"
  by (simp add: FILEMODEBITS_def low12_def)

lemma actions_type: "actions u w n s = Some (n', r) \<Longrightarrow> low12 w \<Longrightarrow> same_type n' n"
proof (induction u w n s arbitrary: n' r rule: actions.induct)
  case (2 u w n c s)
  define n1 where "n1 = (if c = CHR ''='' then n AND (if w \<noteq> 0 then NOT w else NOT FILEMODEBITS) else n)"
  define pr where "pr = perm_part n1 s"
  define n2 where "n2 = apply_action u w c (fst pr) n1"
  have ops: "\<not> (c \<noteq> CHR ''+'' \<and> c \<noteq> CHR ''-'' \<and> c \<noteq> CHR ''='')" using 2(2) by (auto split: if_splits)
  have "same_type n1 n"
    using 2(3) by (auto simp: n1_def FILEMODEBITS_low intro: low12_ops same_type_refl)
  moreover have "same_type n2 n1"
    unfolding n2_def pr_def by (rule apply_action_type) (rule perm_part_low)
  ultimately have n2: "same_type n2 n" by (rule same_type_trans[rotated])
  show ?case
  proof (cases "snd pr \<noteq> [] \<and> hd (snd pr) \<noteq> CHR '',''")
    case True
    hence "actions u w n2 (snd pr) = Some (n', r)"
      using 2(2) ops unfolding actions.simps n1_def[symmetric] pr_def[symmetric] n2_def[symmetric] Let_def by simp
    hence "same_type n' n2" by (rule 2(1)[OF ops n1_def pr_def n2_def True]) (rule 2(3))
    thus ?thesis using n2 by (rule same_type_trans)
  next
    case False
    hence "n' = n2"
      using 2(2) ops unfolding actions.simps n1_def[symmetric] pr_def[symmetric] n2_def[symmetric] Let_def
      by (auto split: if_splits)
    thus ?thesis using n2 by simp
  qed
qed simp

lemma clauses_type: "clauses u n s = Some n' \<Longrightarrow> same_type n' n"
proof (induction u n s arbitrary: n' rule: clauses.induct)
  case (2 u n c s)
  show ?case
  proof (cases "c = CHR '',''")
    case True
    thus ?thesis using 2(1)[OF True] 2(3) by simp
  next
    case False
    then obtain w t m r where w: "who_list 0 (c # s) = Some (w, t)" and m: "actions u w n t = Some (m, r)"
      and r: "clauses u m r = Some n'"
      using 2(3) by (auto split: option.splits simp del: actions.simps who_list.simps)
    have "same_type n' m" by (rule 2(2)[OF False w refl m refl r])
    moreover have "same_type m n" using actions_type[OF m] who_list_low[OF w] low12_ops(1) by simp
    ultimately show ?thesis by (rule same_type_trans)
  qed
qed (simp add: same_type_refl)

section \<open>Symbolic modes for every permission\<close>

text \<open>The clauses that name every bit of a mode: \<open>u=...,g=...,o=...,a+t\<close> or \<open>a-t\<close>.\<close>

definition perms :: "bool \<Rightarrow> bool \<Rightarrow> bool \<Rightarrow> bool \<Rightarrow> string" where
  "perms r w x s = (if r then ''r'' else []) @ (if w then ''w'' else []) @ (if x then ''x'' else []) @ (if s then ''s'' else [])"

definition sym_text :: "u32 \<Rightarrow> string" where
  "sym_text m = ''u='' @ perms (bit m 8) (bit m 7) (bit m 6) (bit m 11) @ '',g='' @ perms (bit m 5) (bit m 4) (bit m 3) (bit m 10)
     @ '',o='' @ perms (bit m 2) (bit m 1) (bit m 0) False @ (if bit m 9 then '',a+t'' else '',a-t'')"

definition bits4 :: "bool \<Rightarrow> u32 \<Rightarrow> bool \<Rightarrow> u32 \<Rightarrow> bool \<Rightarrow> u32 \<Rightarrow> bool \<Rightarrow> u32 \<Rightarrow> u32" where
  "bits4 r rb w wb x xb s sb = (if r then rb else 0) OR (if w then wb else 0) OR (if x then xb else 0) OR (if s then sb else 0)"

lemma clause_u:
  "clauses um n (''u='' @ perms r w x s @ CHR '','' # rest) =
     clauses um ((n AND NOT 0x9c0) OR bits4 r 0x100 w 0x80 x 0x40 s 0x800) rest"
  by (cases r; cases w; cases x; cases s)
    (simp_all add: perms_def bits4_def who_mask_def perm_mask_def perm_part_def apply_action_def Let_def)

lemma clause_g:
  "clauses um n (''g='' @ perms r w x s @ CHR '','' # rest) =
     clauses um ((n AND NOT 0x438) OR bits4 r 0x20 w 0x10 x 8 s 0x400) rest"
  by (cases r; cases w; cases x; cases s)
    (simp_all add: perms_def bits4_def who_mask_def perm_mask_def perm_part_def apply_action_def Let_def)

lemma clause_o:
  "clauses um n (''o='' @ perms r w x False @ CHR '','' # rest) =
     clauses um ((n AND NOT 7) OR bits4 r 4 w 2 x 1 False 0) rest"
  by (cases r; cases w; cases x)
    (simp_all add: perms_def bits4_def who_mask_def perm_mask_def perm_part_def apply_action_def Let_def)

lemma clause_t:
  "clauses um n ''a+t'' = Some (n OR 0x200)" "clauses um n ''a-t'' = Some (n AND NOT 0x200)"
  by (simp_all add: who_mask_def perm_mask_def perm_part_def apply_action_def Let_def)

lemma word_split12: "(a::u32) = b \<longleftrightarrow> drop_bit 12 a = drop_bit 12 b \<and> (\<forall>i \<in> {0..<12}. bit a i = bit b i)"
proof
  assume h: "drop_bit 12 a = drop_bit 12 b \<and> (\<forall>i \<in> {0..<12}. bit a i = bit b i)"
  show "a = b"
  proof (rule bit_word_eqI)
    fix n assume "n < LENGTH(32)"
    show "bit a n = bit b n"
    proof (cases "n < 12")
      case False
      thus ?thesis using arg_cong[OF conjunct1[OF h], of "\<lambda>w. bit w (n - 12)"] by (simp add: bit_drop_bit_eq)
    qed (use h in auto)
  qed
qed simp

lemma drop_bit_clear: "low12 p \<Longrightarrow> drop_bit 12 (n AND NOT p) = drop_bit 12 n"
  using low12_ops(4)[of p n] by (simp add: same_type_iff)

lemma low12_numerals: "low12 0x9c0" "low12 0x438" "low12 7" "low12 0x200" "low12 0xfff"
  by (simp_all add: low12_def)

lemma low12_bits4: "low12 rb \<Longrightarrow> low12 wb \<Longrightarrow> low12 xb \<Longrightarrow> low12 sb \<Longrightarrow> low12 (bits4 r rb w wb x xb s sb)"
  by (auto simp: bits4_def intro!: low12_ops)

text \<open>The bits that the clauses set, put together.\<close>

definition sym_result :: "u32 \<Rightarrow> u32 \<Rightarrow> u32" where
  "sym_result m n =
     (let n1 = (n AND NOT 0x9c0) OR bits4 (bit m 8) 0x100 (bit m 7) 0x80 (bit m 6) 0x40 (bit m 11) 0x800;
          n2 = (n1 AND NOT 0x438) OR bits4 (bit m 5) 0x20 (bit m 4) 0x10 (bit m 3) 8 (bit m 10) 0x400;
          n3 = (n2 AND NOT 7) OR bits4 (bit m 2) 4 (bit m 1) 2 (bit m 0) 1 False 0
      in if bit m 9 then n3 OR 0x200 else n3 AND NOT 0x200)"

lemma bit_if: "bit (if c then k else 0) i \<longleftrightarrow> c \<and> bit k i"
  by simp

lemma sym_result_eq: "sym_result m n = (n AND NOT 0xfff) OR (m AND 0xfff)"
proof -
  have st: "same_type ((x AND NOT p) OR q) y" if "low12 p" "low12 q" "same_type x y" for x y p q
    using low12_ops(4)[OF that(1), of x] low12_ops(5)[OF that(2), of "x AND NOT p"] that(3) same_type_trans by blast
  define n1 where "n1 = (n AND NOT 0x9c0) OR bits4 (bit m 8) 0x100 (bit m 7) 0x80 (bit m 6) 0x40 (bit m 11) 0x800"
  define n2 where "n2 = (n1 AND NOT 0x438) OR bits4 (bit m 5) 0x20 (bit m 4) 0x10 (bit m 3) 8 (bit m 10) 0x400"
  define n3 where "n3 = (n2 AND NOT 7) OR bits4 (bit m 2) 4 (bit m 1) 2 (bit m 0) 1 False 0"
  have "same_type n1 n" unfolding n1_def
    by (rule st[OF low12_numerals(1) low12_bits4 same_type_refl]) (simp_all add: low12_def)
  hence "same_type n2 n" unfolding n2_def
    by (rule st[OF low12_numerals(2) low12_bits4, rotated -1]) (simp_all add: low12_def)
  hence "same_type n3 n" unfolding n3_def
    by (rule st[OF low12_numerals(3) low12_bits4, rotated -1]) (simp_all add: low12_def)
  moreover have "sym_result m n = (if bit m 9 then n3 OR 0x200 else n3 AND NOT 0x200)"
    by (simp only: sym_result_def Let_def n1_def n2_def n3_def)
  ultimately have "same_type (sym_result m n) n"
    using low12_ops(4,5)[OF low12_numerals(4), of n3] same_type_trans by presburger
  hence "drop_bit 12 (sym_result m n) = drop_bit 12 n" by (simp only: same_type_iff)
  moreover have "drop_bit 12 ((n AND NOT 0xfff) OR (m AND 0xfff)) = drop_bit 12 n"
    by (simp only: drop_bit_or drop_bit_clear[OF low12_numerals(5)]) (simp add: drop_bit_and)
  moreover have "\<forall>i \<in> {0..<12}. bit (sym_result m n) i = bit ((n AND NOT 0xfff) OR (m AND 0xfff)) i"
    unfolding sym_result_def Let_def bits4_def
    by (simp add: atLeastLessThan_nat_numeral bit_or_iff bit_and_iff bit_not_iff bit_if)
  ultimately show ?thesis by (simp only: word_split12[of "sym_result m n"])
qed

lemma clauses_sym_text: "clauses um n (sym_text m) = Some (sym_result m n)"
proof -
  have "sym_text m = ''u='' @ perms (bit m 8) (bit m 7) (bit m 6) (bit m 11) @ CHR '','' #
      ''g='' @ perms (bit m 5) (bit m 4) (bit m 3) (bit m 10) @ CHR '','' #
      ''o='' @ perms (bit m 2) (bit m 1) (bit m 0) False @ CHR '','' # (if bit m 9 then ''a+t'' else ''a-t'')"
    by (simp add: sym_text_def)
  thus ?thesis
    unfolding sym_result_def Let_def by (cases "bit m 9") (simp_all only: clause_u clause_g clause_o clause_t if_True if_False)
qed

section \<open>Octal modes\<close>

fun show_oct :: "nat \<Rightarrow> string" where
  "show_oct n = (if n < 8 then [digit_char n] else show_oct (n div 8) @ [digit_char (n mod 8)])"

declare show_oct.simps [simp del]

lemma octal_digit: "d < 8 \<Longrightarrow> alnum_val (digit_char d) = Some d"
  by (simp add: alnum_val_def)

lemma show_oct_digits: "c \<in> set (show_oct n) \<Longrightarrow> base_digit 8 c \<and> CHR ''0'' \<le> c \<and> c \<le> CHR ''7''"
proof (induction n rule: show_oct.induct)
  case (1 n)
  have d: "base_digit 8 (digit_char d) \<and> CHR ''0'' \<le> digit_char d \<and> digit_char d \<le> CHR ''7''" if "d < 8" for d
    using that by (simp add: base_digit_def octal_digit less_eq_char_def)
  show ?case
  proof (cases "n < 8")
    case True
    thus ?thesis using 1(2) d by (simp add: show_oct.simps[of n])
  next
    case False
    thus ?thesis using 1(1)[OF False] 1(2) d[of "n mod 8"] by (auto simp: show_oct.simps[of n])
  qed
qed

lemma show_oct_ne: "show_oct n \<noteq> []"
  by (subst show_oct.simps) simp

lemma base_val_snoc: "base_val b (s @ [c]) = b * base_val b s + the (alnum_val c)"
  by (simp add: base_val_def)

lemma base_val_show_oct: "base_val 8 (show_oct n) = n"
proof (induction n rule: show_oct.induct)
  case (1 n)
  show ?case
  proof (cases "n < 8")
    case True
    thus ?thesis by (simp add: show_oct.simps[of n] base_val_def octal_digit)
  next
    case False
    hence "base_val 8 (show_oct n) = 8 * (n div 8) + n mod 8"
      using 1[OF False] by (simp add: show_oct.simps[of n] base_val_snoc octal_digit)
    thus ?thesis by simp
  qed
qed

lemma strtoull_show_oct:
  assumes "n < 2 ^ 64"
  shows "strtoull 8 (show_oct n) = (n, No_error, [])"
proof -
  have digits: "\<forall>c \<in> set (show_oct n). base_digit 8 c" using show_oct_digits by blast
  have "starts_alnum (show_oct n)"
    using show_oct_ne[of n] digits by (cases "show_oct n") (auto simp: starts_alnum_def isalnum_def base_digit_def split: option.splits)
  moreover have "takeWhile (base_digit 8) (show_oct n) = show_oct n" "dropWhile (base_digit 8) (show_oct n) = []"
    using digits by (auto simp: takeWhile_eq_all_conv dropWhile_eq_Nil_conv)
  ultimately have "strto 8 (show_oct n) = (False, n, [])"
    unfolding strto_def by (simp add: alnum_plain base_val_show_oct show_oct_ne del: dropWhile_eq_Nil_conv takeWhile_eq_all_conv)
  thus ?thesis using assms by (simp add: strtoull_def ULLONG_MAX_def)
qed

lemma parse_octal: "n \<le> 0xfff \<Longrightarrow> bb_parse_mode um (show_oct n) cur = Some (of_nat n)"
  using strtoull_show_oct[of n] show_oct_ne[of n] show_oct_digits[of "hd (show_oct n)" n]
  by (simp add: bb_parse_mode_def)

definition octal_text :: "string \<Rightarrow> bool" where
  "octal_text s \<longleftrightarrow> s \<noteq> [] \<and> CHR ''0'' \<le> hd s \<and> hd s \<le> CHR ''7''"

text \<open>C37: modes mean what they say. Every permission word is parsed back from its octal text and from the
  symbolic text that lists its letters; the symbolic text sets exactly these twelve bits and keeps the type of
  the file. An octal text that is accepted is below \<open>010000\<close>, and no symbolic text whatsoever, with any umask,
  changes the type bits.\<close>

theorem parse_mode_correct:
  "bb_parse_mode um (sym_text m) cur = Some ((cur AND NOT 0xfff) OR (m AND 0xfff)) \<and>
   bb_parse_mode um (show_oct (unat (m AND 0xfff))) cur = Some (m AND 0xfff) \<and>
   (bb_parse_mode um s cur = Some n \<longrightarrow>
      (if octal_text s then n \<le> 0xfff else n AND NOT 0xfff = cur AND NOT 0xfff))"
proof (intro conjI impI)
  have "\<not> (hd (sym_text m) \<le> CHR ''7'')" by (simp add: sym_text_def less_eq_char_def)
  thus "bb_parse_mode um (sym_text m) cur = Some ((cur AND NOT 0xfff) OR (m AND 0xfff))"
    by (simp only: bb_parse_mode_def clauses_sym_text sym_result_eq simp_thms if_False)
  have "m AND 0xfff \<le> 0xfff" by (rule word_and_le1)
  hence "unat (m AND 0xfff) \<le> 0xfff" by (simp add: word_le_nat_alt)
  from parse_octal[OF this] show "bb_parse_mode um (show_oct (unat (m AND 0xfff))) cur = Some (m AND 0xfff)" by simp
  assume p: "bb_parse_mode um s cur = Some n"
  show "if octal_text s then n \<le> 0xfff else n AND NOT 0xfff = cur AND NOT 0xfff"
  proof (cases "octal_text s")
    case True
    then obtain tmp where "n = of_nat tmp" "tmp \<le> 0xfff"
      using p by (auto simp: bb_parse_mode_def octal_text_def split: prod.splits if_splits)
    thus ?thesis using True by (simp add: word_le_nat_alt unat_of_nat)
  next
    case False
    hence "clauses um cur s = Some n" using p by (auto simp: bb_parse_mode_def octal_text_def split: if_splits)
    from clauses_type[OF this] False show ?thesis by (simp add: same_type_def)
  qed
qed

theorem parse_mode_correct_witness:
  "bb_parse_mode 18 ''go-w,+x'' 0x81b6 = Some 0x81ed \<and> (0x81ed :: u32) AND NOT 0xfff = 0x81b6 AND NOT 0xfff"
proof
  show p: "bb_parse_mode 18 ''go-w,+x'' 0x81b6 = Some 0x81ed"
    by (simp add: bb_parse_mode_def less_eq_char_def who_mask_def perm_mask_def perm_part_def apply_action_def Let_def)
  show "(0x81ed :: u32) AND NOT 0xfff = 0x81b6 AND NOT 0xfff"
    using conjunct2[OF conjunct2[OF parse_mode_correct[of 18 0 "0x81b6" "''go-w,+x''" "0x81ed"]]] p
    by (simp only: octal_text_def) (simp add: less_eq_char_def)
qed

section \<open>The text of a mode\<close>

lemma bit_test32: "(m AND push_bit k 1 = (0::u32)) = (\<not> bit m k)"
  using and_exp_eq_0_iff_not_bit[of m k] by (simp only: push_bit_of_1)

definition group_text :: "bool \<Rightarrow> bool \<Rightarrow> bool \<Rightarrow> bool \<Rightarrow> char \<Rightarrow> char \<Rightarrow> string" where
  "group_text r w x s big small =
     [if r then CHR ''r'' else CHR ''-'', if w then CHR ''w'' else CHR ''-'',
      if s then if x then small else big else if x then CHR ''x'' else CHR ''-'']"

lemma mode_group_text:
  "mode_group m 1 = group_text (bit m 8) (bit m 7) (bit m 6) (bit m 11) CHR ''S'' CHR ''s''"
  "mode_group m 2 = group_text (bit m 5) (bit m 4) (bit m 3) (bit m 10) CHR ''S'' CHR ''s''"
  "mode_group m 3 = group_text (bit m 2) (bit m 1) (bit m 0) (bit m 9) CHR ''T'' CHR ''t''"
proof -
  have special: "(m AND drop_bit 1 0x1000 = 0) = (\<not> bit m 11)" "(m AND drop_bit 2 0x1000 = 0) = (\<not> bit m 10)"
    "(m AND drop_bit 3 0x1000 = 0) = (\<not> bit m 9)"
    using bit_test32[of m 11] bit_test32[of m 10] bit_test32[of m 9] by simp_all
  have chars: "mode_chars ! 0 = CHR ''r''" "mode_chars ! Suc 0 = CHR ''w''" "mode_chars ! 2 = CHR ''x''" "mode_chars ! 3 = CHR ''S''"
    "mode_chars ! 4 = CHR ''T''" "mode_chars ! 5 = CHR ''s''" "mode_chars ! 6 = CHR ''t''"
    by (simp_all add: mode_chars_def)
  have idx: "8 - 3 * (1 - 1) - 0 = (8::nat)" "8 - 3 * (1 - 1) - 1 = (7::nat)" "8 - 3 * (1 - 1) - 2 = (6::nat)"
    "8 - 3 * (2 - 1) - 0 = (5::nat)" "8 - 3 * (2 - 1) - 1 = (4::nat)" "8 - 3 * (2 - 1) - 2 = (3::nat)"
    "8 - 3 * (3 - 1) - 0 = (2::nat)" "8 - 3 * (3 - 1) - 1 = (1::nat)" "8 - 3 * (3 - 1) - 2 = (0::nat)"
    by simp_all
  show "mode_group m 1 = group_text (bit m 8) (bit m 7) (bit m 6) (bit m 11) CHR ''S'' CHR ''s''"
    unfolding mode_group_def group_text_def Let_def idx special bit_test32
    by (cases "bit m 6"; cases "bit m 7") (simp_all add: chars)
  show "mode_group m 2 = group_text (bit m 5) (bit m 4) (bit m 3) (bit m 10) CHR ''S'' CHR ''s''"
    unfolding mode_group_def group_text_def Let_def idx special bit_test32
    by (cases "bit m 3"; cases "bit m 4") (simp_all add: chars)
  show "mode_group m 3 = group_text (bit m 2) (bit m 1) (bit m 0) (bit m 9) CHR ''T'' CHR ''t''"
    unfolding mode_group_def group_text_def Let_def idx special bit_test32
    by (cases "bit m 0"; cases "bit m 1") (simp_all add: chars)
qed

lemma group_text_inj:
  assumes "group_text r w x s big small = group_text r' w' x' s' big small" "big \<noteq> small" "{big, small} \<inter> {CHR ''x'', CHR ''-''} = {}"
  shows "r = r' \<and> w = w' \<and> x = x' \<and> s = s'"
  using assms by (auto simp: group_text_def split: if_splits)

text \<open>A listing shows all twelve permission bits: modes with the same text have the same permissions.\<close>

lemma mode_string_inj:
  assumes "bb_mode_string a = bb_mode_string b"
  shows "a AND 0xfff = b AND 0xfff"
proof -
  have len: "length (group_text r w x s p q) = 3" for r w x s p q by (simp add: group_text_def)
  have "group_text (bit a 8) (bit a 7) (bit a 6) (bit a 11) CHR ''S'' CHR ''s'' = group_text (bit b 8) (bit b 7) (bit b 6) (bit b 11) CHR ''S'' CHR ''s''"
    "group_text (bit a 5) (bit a 4) (bit a 3) (bit a 10) CHR ''S'' CHR ''s'' = group_text (bit b 5) (bit b 4) (bit b 3) (bit b 10) CHR ''S'' CHR ''s''"
    "group_text (bit a 2) (bit a 1) (bit a 0) (bit a 9) CHR ''T'' CHR ''t'' = group_text (bit b 2) (bit b 1) (bit b 0) (bit b 9) CHR ''T'' CHR ''t''"
    using assms unfolding bb_mode_string_def mode_group_text by (simp_all add: len)
  note g = this[THEN group_text_inj]
  have "\<forall>i \<in> {0..<12}. bit (a AND 0xfff) i = bit (b AND 0xfff) i"
    using g by (simp add: atLeastLessThan_nat_numeral bit_and_iff)
  moreover have "drop_bit 12 (a AND 0xfff) = drop_bit 12 (b AND 0xfff)" by (simp add: drop_bit_and)
  ultimately show ?thesis by (simp only: word_split12[of "a AND 0xfff"])
qed

end
