(* ===== verification/Bb_Cal.thy ===== *)
theory Bb_Cal
  imports Cxx_Strings
begin

text \<open>
  The calendar of the user land, \<open>src/busybox/util-linux/cal.c\<close>: leap years, the array of days of a month and
  the rows of the printed month. The option \<open>-j\<close> is the argument \<open>julian\<close>; a slot of the array is \<open>None\<close> for
  \<open>SPACE\<close>. The weekdays are compared with a calendar that counts months from 1 January of the year 1, with
  the eleven days that are missing in September 1752.
\<close>

section \<open>Definitions\<close>

definition days_in_month :: "nat list" where
  "days_in_month = [0, 31, 28, 31, 30, 31, 30, 31, 31, 30, 31, 30, 31]"

definition sep1752 :: "nat list" where
  "sep1752 = [1, 2, 14, 15, 16, 17, 18, 19, 20, 21, 22, 23, 24, 25, 26, 27, 28, 29, 30]"

definition SATURDAY :: nat where "SATURDAY = 6"

definition FIRST_MISSING_DAY :: nat where "FIRST_MISSING_DAY = 639787"

definition NUMBER_MISSING_DAYS :: nat where "NUMBER_MISSING_DAYS = 11"

definition MAXDAYS :: nat where "MAXDAYS = 42"

definition leap_year :: "nat \<Rightarrow> bool" where
  "leap_year yr = (if yr \<le> 1752 then yr mod 4 = 0 else yr mod 4 = 0 \<and> yr mod 100 \<noteq> 0 \<or> yr mod 400 = 0)"

definition centuries_since_1700 :: "nat \<Rightarrow> nat" where
  "centuries_since_1700 yr = (if 1700 < yr then yr div 100 - 17 else 0)"

definition quad_centuries_since_1700 :: "nat \<Rightarrow> nat" where
  "quad_centuries_since_1700 yr = (if 1600 < yr then (yr - 1600) div 400 else 0)"

definition leap_years_since_year_1 :: "nat \<Rightarrow> nat" where
  "leap_years_since_year_1 yr = yr div 4 - centuries_since_1700 yr + quad_centuries_since_1700 yr"

text \<open>The parts of \<open>day_array\<close>: the number of the first day of the month in its year, its weekday, its length.\<close>

definition day_in_year :: "nat \<Rightarrow> nat \<Rightarrow> nat" where
  "day_in_year month year = (if 2 < month \<and> leap_year year then 2 else 1) + sum_list (take month days_in_month)"

definition day_number :: "nat \<Rightarrow> nat \<Rightarrow> nat" where
  "day_number month year = (year - 1) * 365 + leap_years_since_year_1 (year - 1) + day_in_year month year"

definition day_in_week :: "nat \<Rightarrow> nat \<Rightarrow> nat" where
  "day_in_week month year =
     (let temp = day_number month year
      in if temp < FIRST_MISSING_DAY then (temp - 1 + SATURDAY) mod 7
         else (temp - 1 + SATURDAY - NUMBER_MISSING_DAYS) mod 7)"

definition month_days :: "nat \<Rightarrow> nat \<Rightarrow> nat" where
  "month_days month year = days_in_month ! month + (if month = 2 \<and> leap_year year then 1 else 0)"

text \<open>The loops that fill the array write consecutive days from a slot on.\<close>

fun fill_days :: "nat option list \<Rightarrow> nat \<Rightarrow> nat list \<Rightarrow> nat option list" where
  "fill_days days dw [] = days"
| "fill_days days dw (d # ds) = fill_days (days[dw := Some d]) (dw + 1) ds"

definition day_array :: "bool \<Rightarrow> nat \<Rightarrow> nat \<Rightarrow> nat \<Rightarrow> nat option list" where
  "day_array julian month year weekstart =
     (let days = replicate MAXDAYS None
      in if month = 9 \<and> year = 1752
         then fill_days days (2 - weekstart) (map (\<lambda>d. d + (if julian then 244 else 0)) sep1752)
         else let dw = (day_in_week month year + 7 - weekstart) mod 7;
                  day = (if julian then day_in_year month year else 1);
                  dm = month_days month year
              in fill_days days dw [day..<day + dm])"

text \<open>One row of a month: every slot takes three characters, four with \<open>-j\<close>.\<close>

definition day_cell :: "bool \<Rightarrow> nat option \<Rightarrow> string" where
  "day_cell julian slot = (case slot of
      None \<Rightarrow> replicate (if julian then 4 else 3) CHR '' ''
    | Some day \<Rightarrow>
        (let hundreds = (if julian then if 100 \<le> day then [digit_char (day div 100)] else '' '' else []);
             blank = (if julian \<and> 100 \<le> day then CHR ''0'' else CHR '' '');
             day' = (if julian \<and> 100 \<le> day then day mod 100 else day)
         in hundreds @ [if 0 < day' div 10 then digit_char (day' div 10) else blank, digit_char (day' mod 10), CHR '' '']))"

definition build_row :: "bool \<Rightarrow> nat option list \<Rightarrow> string" where
  "build_row julian dp = concat (map (day_cell julian) (take 7 dp))"

definition trim_trailing_spaces :: "string \<Rightarrow> string" where
  "trim_trailing_spaces s = (if list_all is_space s then s else rev (dropWhile is_space (rev s)))"

section \<open>The reference calendar\<close>

text \<open>Month number \<open>n\<close> counted from January of the year 1, its number of days, and the weekday of its first day.\<close>

definition month_of :: "nat \<Rightarrow> nat" where "month_of n = n mod 12 + 1"

definition year_of :: "nat \<Rightarrow> nat" where "year_of n = n div 12 + 1"

definition existing_days :: "nat \<Rightarrow> nat" where
  "existing_days n = (if month_of n = 9 \<and> year_of n = 1752 then 19 else month_days (month_of n) (year_of n))"

primrec weekday :: "nat \<Rightarrow> nat" where
  "weekday 0 = SATURDAY"
| "weekday (Suc n) = (weekday n + existing_days n) mod 7"

section \<open>Counting days\<close>

lemma leap_step: "leap_years_since_year_1 (Suc y) = leap_years_since_year_1 y + (if leap_year (Suc y) then 1 else 0)"
proof -
  have d: "Suc y div k = y div k + (if Suc y mod k = 0 then 1 else 0)" for k by (simp add: div_Suc)
  have old: "leap_years_since_year_1 x = x div 4" if "x \<le> 1752" for x
  proof -
    have "1700 < x \<Longrightarrow> x div 100 = 17" using that div_nat_eqI[of 100 17 x] by simp
    moreover have "(x - 1600) div 400 = 0" using that by simp
    ultimately show ?thesis by (simp add: leap_years_since_year_1_def centuries_since_1700_def quad_centuries_since_1700_def)
  qed
  show ?thesis
  proof (cases "Suc y \<le> 1752")
    case True
    thus ?thesis using old[of y] old[of "Suc y"] d[of 4] by (simp add: leap_year_def)
  next
    case False
    have new: "leap_years_since_year_1 x + x div 100 + 4 = x div 4 + 17 + x div 400" if "1752 \<le> x" for x
    proof -
      have q: "(x - 1600) div 400 = x div 400 - 4" "4 \<le> x div 400" "17 \<le> x div 100" "x div 100 \<le> x div 4"
        using that div_le_mono[of 1600 x 400] div_le_mono[of 1700 x 100] div_le_mono2[of 4 100 x]
        by (simp_all add: le_div_geq[symmetric])
      thus ?thesis
        using that by (simp add: leap_years_since_year_1_def centuries_since_1700_def quad_centuries_since_1700_def)
    qed
    have up: "a mod c = 0" if "b * c = d" "a mod d = 0" for a b c d :: nat
      using that by (metis dvd_imp_mod_0 dvd_trans dvd_triv_right mod_0_imp_dvd)
    define p4 p100 p400 where "p4 \<longleftrightarrow> Suc y mod 4 = 0" and "p100 \<longleftrightarrow> Suc y mod 100 = 0" and "p400 \<longleftrightarrow> Suc y mod 400 = 0"
    note ps = p4_def[symmetric] p100_def[symmetric] p400_def[symmetric]
    have mods: "p400 \<Longrightarrow> p100" "p100 \<Longrightarrow> p4"
      using up[of 4 100 400 "Suc y"] up[of 25 4 100 "Suc y"] by (simp_all add: ps del: mod_Suc)
    have leap: "leap_year (Suc y) \<longleftrightarrow> p4 \<and> \<not> p100 \<or> p400" using False by (simp only: leap_year_def ps if_False simp_thms)
    show ?thesis
      using new[of y] new[of "Suc y"] False d[of 4, unfolded ps] d[of 100, unfolded ps] d[of 400, unfolded ps] mods
      unfolding leap by (cases p4; cases p100; cases p400) simp_all
  qed
qed

lemma day_in_year_step:
  assumes "1 \<le> m" "m < 12"
  shows "day_in_year (Suc m) y = day_in_year m y + month_days m y"
proof -
  have "m = 1 \<or> m = 2 \<or> m = 3 \<or> m = 4 \<or> m = 5 \<or> m = 6 \<or> m = 7 \<or> m = 8 \<or> m = 9 \<or> m = 10 \<or> m = 11"
    using assms by presburger
  thus ?thesis by (elim disjE) (simp_all add: day_in_year_def month_days_def days_in_month_def)
qed

lemma day_number_year: "1 \<le> y \<Longrightarrow> day_number 1 (Suc y) = day_number 12 y + month_days 12 y"
  using leap_step[of "y - 1"]
  by (cases y) (auto simp: day_number_def day_in_year_def month_days_def days_in_month_def)

abbreviation first_day :: "nat \<Rightarrow> nat" where
  "first_day n \<equiv> day_number (month_of n) (year_of n)"

lemma first_day_step: "first_day (Suc n) = first_day n + month_days (month_of n) (year_of n)"
proof (cases "Suc n mod 12 = 0")
  case True
  hence "n mod 12 = 11" "Suc n div 12 = Suc (n div 12)" by (simp_all add: mod_Suc div_Suc split: if_splits)
  thus ?thesis using True day_number_year[of "n div 12 + 1"] by (simp add: month_of_def year_of_def)
next
  case False
  hence "Suc n mod 12 = Suc (n mod 12)" "Suc n div 12 = n div 12" by (simp_all add: mod_Suc div_Suc split: if_splits)
  moreover have "n mod 12 < 11"
  proof -
    have "n mod 12 < 12" by simp
    moreover have "n mod 12 \<noteq> 11" using False by (auto simp: mod_Suc)
    ultimately show ?thesis by linarith
  qed
  ultimately show ?thesis
    using day_in_year_step[of "n mod 12 + 1" "year_of n"] by (simp add: month_of_def year_of_def day_number_def)
qed

lemma first_day_mono: "n \<le> k \<Longrightarrow> first_day n \<le> first_day k"
  by (rule lift_Suc_mono_le[of first_day]) (simp_all add: first_day_step)

text \<open>September 1752 is month 21020.\<close>

lemma reformation_month: "month_of n = 9 \<and> year_of n = 1752 \<longleftrightarrow> n = 21020"
proof
  assume "month_of n = 9 \<and> year_of n = 1752"
  hence "n mod 12 = 8" "n div 12 = 1751" by (simp_all add: month_of_def year_of_def)
  thus "n = 21020" using div_mult_mod_eq[of n 12] by simp
qed (simp add: month_of_def year_of_def)

lemma first_day_reformation: "first_day 21019 = 639766" "first_day 21020 = 639797" "first_day 21021 = 639827"
  by (simp_all add: month_of_def year_of_def day_number_def leap_years_since_year_1_def centuries_since_1700_def
      quad_centuries_since_1700_def day_in_year_def days_in_month_def leap_year_def)

lemma first_day_pos: "1 \<le> first_day n"
  by (simp add: day_number_def day_in_year_def)

lemma weekday_eq: "weekday n = (if n \<le> 21020 then first_day n + 5 else first_day n + 5 - 11) mod 7"
proof (induction n)
  case 0
  show ?case by (simp add: SATURDAY_def month_of_def year_of_def day_number_def leap_years_since_year_1_def
        centuries_since_1700_def quad_centuries_since_1700_def day_in_year_def days_in_month_def)
next
  case (Suc n)
  consider "n < 21020" | "n = 21020" | "21020 < n" by linarith
  thus ?case
  proof cases
    case 1
    hence "existing_days n = month_days (month_of n) (year_of n)"
      using reformation_month[of n] by (auto simp: existing_days_def)
    thus ?thesis using 1 Suc by (simp add: first_day_step mod_add_left_eq) (simp add: ac_simps)
  next
    case 2
    have "existing_days n = 19" using 2 reformation_month[of n] by (simp add: existing_days_def)
    moreover have "weekday n = 2" using Suc 2 first_day_reformation by simp
    ultimately have "weekday (Suc n) = 0" by simp
    moreover have "first_day (Suc n) = 639827" using first_day_reformation(3) 2 by simp
    ultimately show ?thesis using 2 by simp
  next
    case 3
    hence "existing_days n = month_days (month_of n) (year_of n)"
      using reformation_month[of n] by (auto simp: existing_days_def)
    moreover have "639827 \<le> first_day n" using first_day_mono[of 21021 n] 3 first_day_reformation(3) by simp
    moreover have "first_day n + 5 - 11 + k = first_day n + k + 5 - 11" for k using calculation(2) by simp
    ultimately show ?thesis using 3 Suc by (simp add: first_day_step mod_add_left_eq)
  qed
qed

lemma day_in_week_eq: "n \<noteq> 21020 \<Longrightarrow> day_in_week (month_of n) (year_of n) = weekday n"
proof -
  assume n: "n \<noteq> 21020"
  show ?thesis
  proof (cases "n < 21020")
    case True
    hence "first_day n \<le> 639766" using first_day_mono[of n 21019] first_day_reformation(1) by simp
    thus ?thesis using True first_day_pos[of n]
      by (simp add: weekday_eq day_in_week_def FIRST_MISSING_DAY_def SATURDAY_def Let_def add.commute)
  next
    case False
    hence "639827 \<le> first_day n" using n first_day_mono[of 21021 n] first_day_reformation(3) by simp
    thus ?thesis using False n
      by (simp add: weekday_eq day_in_week_def FIRST_MISSING_DAY_def NUMBER_MISSING_DAYS_def SATURDAY_def Let_def)
  qed
qed

section \<open>The array of days\<close>

lemma fill_days_eq:
  "dw + length ds \<le> length days \<Longrightarrow> fill_days days dw ds = take dw days @ map Some ds @ drop (dw + length ds) days"
proof (induction days dw ds rule: fill_days.induct)
  case (2 days dw d ds)
  hence "fill_days days dw (d # ds) = take (dw + 1) (days[dw := Some d]) @ map Some ds @ drop (dw + 1 + length ds) (days[dw := Some d])"
    by simp
  moreover have "take (dw + 1) (days[dw := Some d]) = take dw days @ [Some d]"
    using 2(2) by (simp add: take_Suc_conv_app_nth)
  ultimately show ?case by simp
qed simp

lemma month_days_le: "1 \<le> m \<Longrightarrow> m \<le> 12 \<Longrightarrow> month_days m y \<le> 31"
proof -
  assume "1 \<le> m" "m \<le> 12"
  hence "m = 1 \<or> m = 2 \<or> m = 3 \<or> m = 4 \<or> m = 5 \<or> m = 6 \<or> m = 7 \<or> m = 8 \<or> m = 9 \<or> m = 10 \<or> m = 11 \<or> m = 12"
    by presburger
  thus ?thesis by (elim disjE) (simp_all add: month_days_def days_in_month_def)
qed

text \<open>The days of a month that exist, in order.\<close>

definition dates :: "nat \<Rightarrow> nat \<Rightarrow> nat list" where
  "dates month year = (if month = 9 \<and> year = 1752 then sep1752 else [1..<1 + month_days month year])"

lemma upt_shift: "[a + 1..<a + 1 + n] = map (\<lambda>d. d + a) [1..<1 + n]"
  by (induction n) simp_all

text \<open>C38: the calendar is right for every month from January of the year 1 on. The array of a month holds the
  days that exist in that month, in order and in consecutive slots, everything else is blank; the first slot is
  the weekday that one gets by counting the days of all months before it, starting with a Saturday and leaving
  out the eleven days of September 1752. With \<open>-j\<close> the numbers are the days of the year.\<close>

theorem calendar_correct:
  assumes "1 \<le> month" "month \<le> 12" "1 \<le> year" "weekstart \<le> 1"
  shows "\<exists>k ds. k = (weekday ((year - 1) * 12 + (month - 1)) + 7 - weekstart) mod 7 \<and>
    ds = map (\<lambda>d. d + (if julian then day_in_year month year - 1 else 0)) (dates month year) \<and>
    day_array julian month year weekstart = replicate k None @ map Some ds @ replicate (MAXDAYS - k - length ds) None"
proof -
  define n where "n = (year - 1) * 12 + (month - 1)"
  have divmod: "(a * 12 + b) mod 12 = b" "(a * 12 + b) div 12 = a" if "b < 12" for a b :: nat using that by simp_all
  have "n mod 12 = month - 1" "n div 12 = year - 1"
    unfolding n_def by (rule divmod, use assms in linarith)+
  hence m: "month_of n = month" "year_of n = year" using assms by (simp_all add: month_of_def year_of_def)
  show ?thesis
  proof (cases "month = 9 \<and> year = 1752")
    case True
    hence "n = 21020" by (simp add: n_def)
    hence w: "weekday n = 2" by (simp add: weekday_eq first_day_reformation)
    have "day_in_year month year - 1 = 244" using True by (simp add: day_in_year_def leap_year_def days_in_month_def)
    moreover have "(weekday n + 7 - weekstart) mod 7 = 2 - weekstart" 
    proof -
      have "weekstart = 0 \<or> weekstart = 1" using assms(4) by linarith
      thus ?thesis using w by auto
    qed
    moreover have "length sep1752 = 19" by (simp add: sep1752_def)
    ultimately show ?thesis
      using True assms(4) unfolding n_def[symmetric]
      by (simp add: day_array_def dates_def fill_days_eq MAXDAYS_def)
  next
    case False
    hence "n \<noteq> 21020" using reformation_month[of n] m by blast
    hence w: "day_in_week month year = weekday n" using day_in_week_eq[of n] m by simp
    define k where "k = (weekday n + 7 - weekstart) mod 7"
    have "k < 7" by (simp add: k_def)
    moreover have "month_days month year \<le> 31" using month_days_le assms by simp
    ultimately have fits: "k + month_days month year \<le> MAXDAYS" by (simp add: MAXDAYS_def)
    have "1 \<le> day_in_year month year" by (simp add: day_in_year_def)
    hence ds: "(let day = (if julian then day_in_year month year else 1) in [day..<day + month_days month year]) =
        map (\<lambda>d. d + (if julian then day_in_year month year - 1 else 0)) (dates month year)"
      using False upt_shift[of "day_in_year month year - 1" "month_days month year"] by (auto simp: dates_def Let_def)
    have "day_array julian month year weekstart = fill_days (replicate MAXDAYS None) k
        (map (\<lambda>d. d + (if julian then day_in_year month year - 1 else 0)) (dates month year))"
      unfolding ds[symmetric] day_array_def Let_def if_not_P[OF False] w k_def ..
    moreover have "length (dates month year) = month_days month year"
      unfolding dates_def if_not_P[OF False] by simp
    ultimately show ?thesis
      using fits unfolding n_def[symmetric] k_def[symmetric] by (simp add: fill_days_eq)
  qed
qed

theorem calendar_correct_witness:
  "\<exists>k ds. k = (weekday ((2026 - 1) * 12 + (2 - 1)) + 7 - 0) mod 7 \<and> ds = dates 2 2026 \<and>
    day_array False 2 2026 0 = replicate k None @ map Some ds @ replicate (MAXDAYS - k - length ds) None"
  using calendar_correct[of 2 2026 0 False] by simp

lemma day_cell_length: "(\<And>d. slot = Some d \<Longrightarrow> d < 1000) \<Longrightarrow> length (day_cell julian slot) = (if julian then 4 else 3)"
  by (cases slot) (auto simp: day_cell_def Let_def)

lemma build_row_length:
  "(\<And>d. Some d \<in> set dp \<Longrightarrow> d < 1000) \<Longrightarrow> length (build_row julian dp) = min 7 (length dp) * (if julian then 4 else 3)"
proof -
  assume d: "\<And>d. Some d \<in> set dp \<Longrightarrow> d < 1000"
  have "length (day_cell julian x) = (if julian then 4 else 3)" if "x \<in> set (take 7 dp)" for x
    by (rule day_cell_length) (use that d in \<open>auto dest: in_set_takeD\<close>)
  hence "map (length \<circ> day_cell julian) (take 7 dp) = map (\<lambda>_. if julian then 4 else 3) (take 7 dp)"
    by (intro map_cong refl) simp
  thus ?thesis by (simp add: build_row_def length_concat map_replicate_const sum_list_replicate min.commute)
qed

end
