(* ===== verification/Bb_Block_Stream.thy ===== *)
theory Bb_Block_Stream
  imports Cxx_Strings
begin

text \<open>
  Hashing by blocks. A message digest takes its input in pieces of any length, collects them in a buffer of
  one block and works the buffer into its state whenever it is full; at the end the buffer is padded with
  \<open>0x80\<close>, zeros and the number of bits. The interface \<open>block_stream\<close> states this of the two loops
  of \<open>src/busybox/libbb/hash_md5_sha.c\<close>; its lemmas say that the pieces do not matter.
\<close>

section \<open>Definitions\<close>

text \<open>Words in memory: a 64-bit integer on a little-endian host, and the byte swaps.\<close>

definition le64 :: "u64 \<Rightarrow> bytes" where
  "le64 w = map (\<lambda>i. ucast (drop_bit (8 * i) w)) [0..<8]"

definition un_le64 :: "bytes \<Rightarrow> u64" where
  "un_le64 bs = foldr (\<lambda>i w. push_bit (8 * i) (ucast (bs ! i)) OR w) [0..<8] 0"

definition bswap_32 :: "u32 \<Rightarrow> u32" where
  "bswap_32 w = un_le32 (rev (le32 w))"

definition bb_bswap_64 :: "u64 \<Rightarrow> u64" where
  "bb_bswap_64 w = un_le64 (rev (le64 w))"

text \<open>\<open>memcpy (w + p, b, length b)\<close> into a buffer.\<close>

definition store_at :: "bytes \<Rightarrow> nat \<Rightarrow> bytes \<Rightarrow> bytes" where
  "store_at w p b = take p w @ b @ drop (p + length b) w"

text \<open>The state after the complete blocks of a message.\<close>

function hash_blocks :: "nat \<Rightarrow> (bytes \<Rightarrow> 'h \<Rightarrow> 'h) \<Rightarrow> bytes \<Rightarrow> 'h \<Rightarrow> 'h" where
  "hash_blocks n f m h =
     (if n = 0 \<or> length m < n then h else hash_blocks n f (drop n m) (f (take n m) h))"
  by pat_completeness auto
termination
  by (relation "measure (\<lambda>(n, f, m, h). length m)") auto

text \<open>The padding of the standards: one bit, as few zeros as possible, and a counter of \<open>c\<close> bytes.\<close>

definition pad_zeros :: "nat \<Rightarrow> nat \<Rightarrow> nat \<Rightarrow> nat" where
  "pad_zeros n c len = (2 * n - (c + 1) - len mod n) mod n"

definition padded :: "nat \<Rightarrow> bytes \<Rightarrow> bytes \<Rightarrow> bytes" where
  "padded n counter m = m @ [0x80] @ replicate (pad_zeros n (length counter) (length m)) 0 @ counter"

text \<open>A buffer and a state that hold the message so far.\<close>

definition holds_message :: "nat \<Rightarrow> (bytes \<Rightarrow> 'h \<Rightarrow> 'h) \<Rightarrow> 'h \<Rightarrow> bytes \<Rightarrow> bytes \<Rightarrow> 'h \<Rightarrow> bool" where
  "holds_message n f h0 m w h \<longleftrightarrow> length w = n \<and> h = hash_blocks n f m h0 \<and>
     take (length m mod n) w = drop (length m - length m mod n) m"

section \<open>Words and buffers\<close>

lemma length_le64 [simp]: "length (le64 w) = 8"
  by (simp add: le64_def)

lemma length_store_at [simp]: "p + length b \<le> length w \<Longrightarrow> length (store_at w p b) = length w"
  by (simp add: store_at_def)

lemma take_store_at: "p + length b \<le> length w \<Longrightarrow> take (p + length b) (store_at w p b) = take p w @ b"
  by (simp add: store_at_def)

declare hash_blocks.simps [simp del]

lemma hash_blocks_short [simp]: "length m < n \<Longrightarrow> hash_blocks n f m h = h"
  by (simp add: hash_blocks.simps)

lemma hash_blocks_block: "0 < n \<Longrightarrow> length b = n \<Longrightarrow> hash_blocks n f (b @ m) h = hash_blocks n f m (f b h)"
  by (subst hash_blocks.simps) simp

lemma hash_blocks_append:
  assumes "0 < n" "n dvd length m"
  shows "hash_blocks n f (m @ m') h = hash_blocks n f m' (hash_blocks n f m h)"
  using assms
proof (induction n f m h rule: hash_blocks.induct)
  case (1 n f m h)
  show ?case
  proof (cases "length m < n")
    case True
    with 1 have "m = []" by (metis dvd_imp_le length_0_conv linorder_not_le neq0_conv)
    with 1 show ?thesis by simp
  next
    case False
    with 1 have "n dvd length (drop n m)" by simp
    with 1 False show ?thesis
      by (subst (1 3) hash_blocks.simps) simp
  qed
qed

lemma complete_prefix: "n dvd length (take (length m - length m mod n) m)"
  by (simp add: min.absorb2 dvd_minus_mod)

lemma hash_blocks_prefix:
  assumes "0 < n"
  shows "hash_blocks n f m h = hash_blocks n f (take (length m - length m mod n) m) h"
proof -
  let ?k = "length m - length m mod n"
  have "n dvd length (take ?k m)" by (rule complete_prefix)
  from hash_blocks_append [OF assms this, of f "drop ?k m" h]
  show ?thesis using assms by simp
qed

lemma hash_blocks_tail:
  assumes "0 < n"
  shows "hash_blocks n f (m @ b) h0 =
    hash_blocks n f (drop (length m - length m mod n) m @ b) (hash_blocks n f m h0)"
proof -
  let ?k = "length m - length m mod n"
  have "hash_blocks n f (take ?k m @ drop ?k m @ b) h0 = hash_blocks n f (drop ?k m @ b) (hash_blocks n f (take ?k m) h0)"
    by (rule hash_blocks_append [OF assms complete_prefix])
  then show ?thesis
    by (metis append.assoc append_take_drop_id hash_blocks_prefix [OF assms])
qed

lemma pad_zeros_one:
  assumes "len mod n < n" "c \<le> n - Suc (len mod n)"
  shows "pad_zeros n c len = n - Suc (len mod n) - c"
proof -
  have "2 * n - (c + 1) - len mod n = n + (n - Suc (len mod n) - c)"
    using assms by linarith
  moreover have "n - Suc (len mod n) - c < n" using assms by linarith
  ultimately show ?thesis by (simp only: pad_zeros_def mod_add_self1 mod_less)
qed

lemma pad_zeros_two:
  assumes "len mod n < n" "\<not> c \<le> n - Suc (len mod n)" "c < n"
  shows "pad_zeros n c len = (n - Suc (len mod n)) + (n - c)"
proof -
  have "2 * n - (c + 1) - len mod n = (n - Suc (len mod n)) + (n - c)"
    using assms by linarith
  moreover have "(n - Suc (len mod n)) + (n - c) < n" using assms by linarith
  ultimately show ?thesis by (simp only: pad_zeros_def mod_less)
qed

text \<open>The padded message consists of whole blocks, and no shorter padding does.\<close>

lemma padded_blocks:
  assumes "length t < n"
  shows "n dvd length (padded n t m)"
proof -
  let ?p = "length m mod n"
  have p: "?p < n" using assms by simp
  have "n dvd ?p + Suc (pad_zeros n (length t) (length m) + length t)"
  proof (cases "length t \<le> n - Suc ?p")
    case True
    then have "?p + Suc (pad_zeros n (length t) (length m) + length t) = n"
      using pad_zeros_one [OF p True] p True by linarith
    then show ?thesis by simp
  next
    case False
    then have "?p + Suc (pad_zeros n (length t) (length m) + length t) = 2 * n"
      using pad_zeros_two [OF p False assms] p assms by linarith
    then show ?thesis by simp
  qed
  then have "n dvd (length m - ?p) + (?p + Suc (pad_zeros n (length t) (length m) + length t))"
    by (rule dvd_add [OF dvd_minus_mod])
  then show ?thesis by (simp add: padded_def)
qed

lemma padded_least:
  assumes "length t < n" "n dvd length (m @ [0x80] @ replicate k (0 :: u8) @ t)"
  shows "pad_zeros n (length t) (length m) \<le> k"
proof (rule ccontr)
  let ?z = "pad_zeros n (length t) (length m)"
  assume "\<not> ?z \<le> k"
  then have k: "0 < ?z - k" by simp
  have "n dvd length (padded n t m) - length (m @ [0x80] @ replicate k (0 :: u8) @ t)"
    using assms padded_blocks by (intro dvd_diff_nat)
  then have "n dvd ?z - k" by (simp add: padded_def)
  moreover have "?z < n" using assms(1) by (simp add: pad_zeros_def)
  ultimately show False using k by (auto dest: dvd_imp_le)
qed

section \<open>The interface\<close>

locale block_stream =
  fixes n :: nat and f :: "bytes \<Rightarrow> 'h \<Rightarrow> 'h" and c :: nat
    and loop :: "nat \<Rightarrow> bytes \<Rightarrow> bytes \<Rightarrow> 'h \<Rightarrow> bytes \<times> 'h"
    and finish :: "nat \<Rightarrow> bytes \<Rightarrow> bytes \<Rightarrow> 'h \<Rightarrow> 'h"
  assumes counter_fits: "0 < c" "c < n"
    and loop_eq: "loop p b w h =
      (let r = min (n - p) (length b); w1 = store_at w p (take r b) in
       if p + r = n then loop 0 (drop r b) w1 (f w1 h) else (w1, h))"
    and finish_eq: "length t = c \<Longrightarrow> length w = n \<Longrightarrow> p \<le> n \<Longrightarrow> finish p t w h =
      (let w1 = store_at w p (replicate (n - p) 0) in
       if c \<le> n - p then f (store_at w1 (n - c) t) h else finish 0 t w1 (f w1 h))"
begin

lemma n_pos: "0 < n"
  using counter_fits by simp

lemma loop_holds:
  assumes "holds_message n f h0 m w h" "loop (length m mod n) b w h = (w', h')"
  shows "holds_message n f h0 (m @ b) w' h'"
  using assms
proof (induction "length b" arbitrary: b m w h rule: less_induct)
  case less
  let ?p = "length m mod n" and ?r = "min (n - length m mod n) (length b)"
  let ?w1 = "store_at w ?p (take ?r b)"
  have p: "?p < n" using n_pos by simp
  have wl: "length w = n" and h: "h = hash_blocks n f m h0"
    and tl: "take ?p w = drop (length m - ?p) m"
    using less.prems(1) by (auto simp: holds_message_def)
  have wl1: "length ?w1 = n" using wl p by simp
  have fill: "?p + ?r \<le> length w" using wl p by simp
  have tk: "take (?p + ?r) ?w1 = drop (length m - ?p) m @ take ?r b"
    using take_store_at [of ?p "take ?r b" w] fill tl by simp
  show ?case
  proof (cases "?p + ?r = n")
    case False
    then have short: "?p + length b < n" using p by auto
    then have lm: "(length m + length b) mod n = ?p + length b"
      by (metis mod_add_left_eq mod_less)
    have "hash_blocks n f (m @ b) h0 = hash_blocks n f m h0"
      using hash_blocks_prefix [OF n_pos, of f "m @ b" h0] hash_blocks_prefix [OF n_pos, of f m h0] lm
      by simp
    moreover have "(w', h') = (?w1, h)"
      using less.prems(2) False by (subst (asm) loop_eq) (simp add: Let_def)
    ultimately show ?thesis
      using tk wl1 h short lm by (simp add: holds_message_def min_def split: if_splits)
  next
    case True
    let ?m1 = "m @ take ?r b"
    have r: "0 < ?r" "?r \<le> length b" using True p by auto
    have dv: "n dvd length m + ?r"
      using True by (metis mod_add_left_eq mod_self mod_eq_0_iff_dvd)
    then have m1: "length ?m1 mod n = 0" using r by simp
    have "?w1 = drop (length m - ?p) m @ take ?r b"
      using tk True wl1 by simp
    moreover have "hash_blocks n f ?m1 h0 =
        hash_blocks n f (drop (length m - ?p) m @ take ?r b) (hash_blocks n f (take (length m - ?p) m) h0)"
    proof -
      have "n dvd length (take (length m - ?p) m)" by (rule complete_prefix)
      from hash_blocks_append [OF n_pos this, of f "drop (length m - ?p) m @ take ?r b" h0]
      show ?thesis by (metis append.assoc append_take_drop_id)
    qed
    ultimately have "f ?w1 h = hash_blocks n f ?m1 h0"
      using h wl1 hash_blocks_prefix [OF n_pos, of f m h0] hash_blocks_block [OF n_pos, of ?w1 f "[]"] n_pos
      by simp
    then have "holds_message n f h0 ?m1 ?w1 (f ?w1 h)"
      using wl1 m1 by (simp add: holds_message_def)
    moreover have "loop (length ?m1 mod n) (drop ?r b) ?w1 (f ?w1 h) = (w', h')"
      using less.prems(2) True m1 by (subst (asm) loop_eq) (simp add: Let_def)
    moreover have "length (drop ?r b) < length b" using r by simp
    ultimately have "holds_message n f h0 (?m1 @ drop ?r b) w' h'"
      by (intro less.hyps)
    then show ?thesis by (simp only: append.assoc append_take_drop_id)
  qed
qed

lemma zero_fill:
  assumes "length x \<le> n" "length w = n" "take (length x) w = x"
  shows "store_at w (length x) (replicate (n - length x) 0) = x @ replicate (n - length x) 0"
  using assms by (simp add: store_at_def)

lemma counter_store:
  assumes "length x + k = n" "c \<le> k" "length t = c"
  shows "store_at (x @ replicate k 0) (n - c) t = x @ replicate (k - c) 0 @ t"
proof -
  have "n - c = length x + (k - c)" using assms by simp
  then show ?thesis using assms by (simp add: store_at_def)
qed

lemma finish_pads:
  assumes holds: "holds_message n f h0 m w h" and t: "length t = c"
  shows "finish (Suc (length m mod n)) t (store_at w (length m mod n) [0x80]) h =
    hash_blocks n f (padded n t m) h0"
proof -
  let ?p = "length m mod n"
  define x where "x = drop (length m - ?p) m @ [0x80]"
  have p: "?p < n" using n_pos by simp
  have w: "length w = n" "take ?p w = drop (length m - ?p) m" "h = hash_blocks n f m h0"
    using holds by (auto simp: holds_message_def)
  have x: "length x = Suc ?p" by (simp add: x_def)
  let ?w1 = "store_at w ?p [0x80]" and ?k = "n - Suc ?p"
  have w1: "length ?w1 = n" "take (Suc ?p) ?w1 = x"
    using p w take_store_at [of ?p "[0x80]" w] by (simp_all add: x_def)
  have fill: "store_at ?w1 (Suc ?p) (replicate ?k 0) = x @ replicate ?k 0"
    using zero_fill [of x ?w1] w1 x p by simp
  have spec: "hash_blocks n f (padded n t m) h0 =
      hash_blocks n f (x @ replicate (pad_zeros n c (length m)) 0 @ t) h"
    using hash_blocks_tail [OF n_pos, of f m "[0x80] @ replicate (pad_zeros n c (length m)) 0 @ t" h0] t w(3)
    by (simp add: padded_def x_def)
  show ?thesis
  proof (cases "c \<le> ?k")
    case True
    then have "pad_zeros n c (length m) = ?k - c"
      using pad_zeros_one p by simp
    moreover have "finish (Suc ?p) t ?w1 h = f (x @ replicate (?k - c) 0 @ t) h"
      using True fill counter_store [of x ?k t] x p t w1(1) by (subst finish_eq) (simp_all add: Let_def)
    ultimately show ?thesis
      using spec hash_blocks_block [OF n_pos, of "x @ replicate (?k - c) 0 @ t" f "[]" h] x p t True n_pos
      by simp
  next
    case False
    then have z: "pad_zeros n c (length m) = ?k + (n - c)"
      using pad_zeros_two p counter_fits by simp
    let ?b = "x @ replicate ?k 0"
    have b: "length ?b = n" using x p by simp
    have "finish (Suc ?p) t ?w1 h = finish 0 t ?b (f ?b h)"
      using False fill t p w1(1) by (subst finish_eq) (simp_all add: Let_def)
    also have "\<dots> = f (replicate (n - c) 0 @ t) (f ?b h)"
      using counter_fits counter_store [of "[]" n t] zero_fill [of "[]" ?b] b t
      by (subst finish_eq) (simp_all add: Let_def)
    also have "\<dots> = hash_blocks n f (?b @ (replicate (n - c) 0 @ t)) h"
      using hash_blocks_block [OF n_pos b, of f "replicate (n - c) 0 @ t" h]
        hash_blocks_block [OF n_pos, of "replicate (n - c) 0 @ t" f "[]" "f ?b h"] counter_fits t n_pos
      by simp
    finally show ?thesis using spec z by (simp add: replicate_add)
  qed
qed

end

end
