(* ===== verification/Bb_Md5.thy ===== *)
theory Bb_Md5
  imports Bb_Block_Stream
begin

text \<open>
  The block function of MD5 in \<open>src/busybox/libbb/hash_md5_sha.c\<close>, in the four versions between which the
  configuration \<open>MD5_SMALL\<close> chooses, for a little-endian host. All four are shown to be the function of
  RFC 1321.
\<close>

section \<open>Definitions\<close>

definition rotl32 :: "u32 \<Rightarrow> nat \<Rightarrow> u32" where
  "rotl32 x n = push_bit n x OR drop_bit (32 - n) x"

datatype md5_fun = FF | FG | FH | FI

fun md5_apply :: "md5_fun \<Rightarrow> u32 \<Rightarrow> u32 \<Rightarrow> u32 \<Rightarrow> u32" where
  "md5_apply FF b c d = d XOR (b AND (c XOR d))"
| "md5_apply FG b c d = c XOR (d AND (b XOR c))"
| "md5_apply FH b c d = b XOR c XOR d"
| "md5_apply FI b c d = c XOR (b OR NOT d)"

text \<open>The buffer read as sixteen words.\<close>

definition words_of :: "bytes \<Rightarrow> u32 list" where
  "words_of wbuffer = map (\<lambda>i. un_le32 (take 4 (drop (4 * i) wbuffer))) [0..<16]"

definition C_array :: "u32 list" where
  "C_array =
    [0xd76aa478, 0xe8c7b756, 0x242070db, 0xc1bdceee,
     0xf57c0faf, 0x4787c62a, 0xa8304613, 0xfd469501,
     0x698098d8, 0x8b44f7af, 0xffff5bb1, 0x895cd7be,
     0x6b901122, 0xfd987193, 0xa679438e, 0x49b40821,
     0xf61e2562, 0xc040b340, 0x265e5a51, 0xe9b6c7aa,
     0xd62f105d, 0x02441453, 0xd8a1e681, 0xe7d3fbc8,
     0x21e1cde6, 0xc33707d6, 0xf4d50d87, 0x455a14ed,
     0xa9e3e905, 0xfcefa3f8, 0x676f02d9, 0x8d2a4c8a,
     0xfffa3942, 0x8771f681, 0x6d9d6122, 0xfde5380c,
     0xa4beea44, 0x4bdecfa9, 0xf6bb4b60, 0xbebfbc70,
     0x289b7ec6, 0xeaa127fa, 0xd4ef3085, 0x4881d05,
     0xd9d4d039, 0xe6db99e5, 0x1fa27cf8, 0xc4ac5665,
     0xf4292244, 0x432aff97, 0xab9423a7, 0xfc93a039,
     0x655b59c3, 0x8f0ccc92, 0xffeff47d, 0x85845dd1,
     0x6fa87e4f, 0xfe2ce6e0, 0xa3014314, 0x4e0811a1,
     0xf7537e82, 0xbd3af235, 0x2ad7d2bb, 0xeb86d391]"

definition P_array :: "nat list" where
  "P_array =
    [0, 1, 2, 3, 4, 5, 6, 7, 8, 9, 10, 11, 12, 13, 14, 15,
     1, 6, 11, 0, 5, 10, 15, 4, 9, 14, 3, 8, 13, 2, 7, 12,
     5, 8, 11, 14, 1, 4, 7, 10, 13, 0, 3, 6, 9, 12, 15, 2,
     0, 7, 14, 5, 12, 3, 10, 1, 8, 15, 6, 13, 4, 11, 2, 9]"

definition S_array :: "nat list" where
  "S_array = [7, 12, 17, 22, 5, 9, 14, 20, 4, 11, 16, 23, 6, 10, 15, 21]"

text \<open>The last statements of every version: the registers are added to the state.\<close>

definition md5_add :: "u32 list \<Rightarrow> u32 \<times> u32 \<times> u32 \<times> u32 \<Rightarrow> u32 list" where
  "md5_add hash r = (case r of (A, B, C, D) \<Rightarrow>
     hash[0 := hash ! 0 + A, 1 := hash ! 1 + B, 2 := hash ! 2 + C, 3 := hash ! 3 + D])"

text \<open>One pass of the loops of versions 2 and 3.\<close>

definition md5_turn :: "md5_fun \<Rightarrow> u32 \<Rightarrow> u32 \<Rightarrow> nat \<Rightarrow> u32 \<times> u32 \<times> u32 \<times> u32 \<Rightarrow> u32 \<times> u32 \<times> u32 \<times> u32" where
  "md5_turn f w c s r = (case r of (A, B, C, D) \<Rightarrow>
     let temp = A + md5_apply f B C D + (w + c); temp = rotl32 temp s; temp = temp + B
     in (D, temp, B, C))"

definition md5_small_3 :: "bytes \<Rightarrow> u32 list \<Rightarrow> u32 list" where
  "md5_small_3 wbuffer hash =
     (let words = words_of wbuffer;
          turn = (\<lambda>i. md5_turn (if drop_bit 4 i = 0 then FF else if drop_bit 4 i = 1 then FG
                     else if drop_bit 4 i = 2 then FH else FI)
                   (words ! (P_array ! i)) (C_array ! i) (S_array ! (4 * (i div 16) + (i AND 3))))
      in md5_add hash (fold turn [0..<64] (hash ! 0, hash ! 1, hash ! 2, hash ! 3)))"

definition md5_small_2 :: "bytes \<Rightarrow> u32 list \<Rightarrow> u32 list" where
  "md5_small_2 wbuffer hash =
     (let words = words_of wbuffer;
          turns = (\<lambda>f ps. fold (\<lambda>i. md5_turn f (words ! (P_array ! (4 * ps + i))) (C_array ! (4 * ps + i))
                     (S_array ! (ps + (i AND 3)))) [0..<16]);
          r = turns FF 0 (hash ! 0, hash ! 1, hash ! 2, hash ! 3);
          r = turns FG 4 r;
          r = turns FH 8 r;
          r = turns FI 12 r
      in md5_add hash r)"

text \<open>
  Versions 0 and 1 leave the registers in place and change the roles of their names.
\<close>

datatype md5_reg = RA | RB | RC | RD

type_synonym md5_op = "md5_fun \<times> md5_reg \<times> md5_reg \<times> md5_reg \<times> md5_reg \<times> nat \<times> nat \<times> u32"

fun md5_OP :: "u32 list \<Rightarrow> md5_op \<Rightarrow> (md5_reg \<Rightarrow> u32) \<Rightarrow> md5_reg \<Rightarrow> u32" where
  "md5_OP words (f, a, b, c, d, k, s, T) r =
     (let r = r(a := r a + (md5_apply f (r b) (r c) (r d) + words ! k + T));
          r = r(a := rotl32 (r a) s)
      in r(a := r a + r b))"

definition md5_regs :: "u32 list \<Rightarrow> md5_reg \<Rightarrow> u32" where
  "md5_regs hash r = (case r of RA \<Rightarrow> hash ! 0 | RB \<Rightarrow> hash ! 1 | RC \<Rightarrow> hash ! 2 | RD \<Rightarrow> hash ! 3)"

text \<open>The loops of version 1; its table \<open>P_array\<close> starts with the second round.\<close>

definition md5_quad :: "md5_fun \<Rightarrow> (nat \<Rightarrow> nat) \<Rightarrow> nat \<Rightarrow> nat \<Rightarrow> nat \<Rightarrow> nat \<Rightarrow> nat \<Rightarrow> md5_op list" where
  "md5_quad f pp pc s0 s1 s2 s3 =
     [(f, RA, RB, RC, RD, pp pc, s0, C_array ! pc),
      (f, RD, RA, RB, RC, pp (pc + 1), s1, C_array ! (pc + 1)),
      (f, RC, RD, RA, RB, pp (pc + 2), s2, C_array ! (pc + 2)),
      (f, RB, RC, RD, RA, pp (pc + 3), s3, C_array ! (pc + 3))]"

definition md5_small_1 :: "bytes \<Rightarrow> u32 list \<Rightarrow> u32 list" where
  "md5_small_1 wbuffer hash =
     (let words = words_of wbuffer;
          run = (\<lambda>ops. fold (md5_OP words) ops);
          pp = (\<lambda>k. drop 16 P_array ! (k - 16));
          r = md5_regs hash;
          r = fold (\<lambda>i. run (md5_quad FF (\<lambda>k. k) (4 * i) 7 12 17 22)) [0..<4] r;
          r = fold (\<lambda>i. run (md5_quad FG pp (16 + 4 * i) 5 9 14 20)) [0..<4] r;
          r = fold (\<lambda>i. run (md5_quad FH pp (32 + 4 * i) 4 11 16 23)) [0..<4] r;
          r = fold (\<lambda>i. run (md5_quad FI pp (48 + 4 * i) 6 10 15 21)) [0..<4] r
      in md5_add hash (r RA, r RB, r RC, r RD))"

definition md5_unrolled :: "md5_op list" where
  "md5_unrolled =
    [(FF, RA, RB, RC, RD, 0, 7, 0xd76aa478), (FF, RD, RA, RB, RC, 1, 12, 0xe8c7b756),
     (FF, RC, RD, RA, RB, 2, 17, 0x242070db), (FF, RB, RC, RD, RA, 3, 22, 0xc1bdceee),
     (FF, RA, RB, RC, RD, 4, 7, 0xf57c0faf), (FF, RD, RA, RB, RC, 5, 12, 0x4787c62a),
     (FF, RC, RD, RA, RB, 6, 17, 0xa8304613), (FF, RB, RC, RD, RA, 7, 22, 0xfd469501),
     (FF, RA, RB, RC, RD, 8, 7, 0x698098d8), (FF, RD, RA, RB, RC, 9, 12, 0x8b44f7af),
     (FF, RC, RD, RA, RB, 10, 17, 0xffff5bb1), (FF, RB, RC, RD, RA, 11, 22, 0x895cd7be),
     (FF, RA, RB, RC, RD, 12, 7, 0x6b901122), (FF, RD, RA, RB, RC, 13, 12, 0xfd987193),
     (FF, RC, RD, RA, RB, 14, 17, 0xa679438e), (FF, RB, RC, RD, RA, 15, 22, 0x49b40821),
     (FG, RA, RB, RC, RD, 1, 5, 0xf61e2562), (FG, RD, RA, RB, RC, 6, 9, 0xc040b340),
     (FG, RC, RD, RA, RB, 11, 14, 0x265e5a51), (FG, RB, RC, RD, RA, 0, 20, 0xe9b6c7aa),
     (FG, RA, RB, RC, RD, 5, 5, 0xd62f105d), (FG, RD, RA, RB, RC, 10, 9, 0x02441453),
     (FG, RC, RD, RA, RB, 15, 14, 0xd8a1e681), (FG, RB, RC, RD, RA, 4, 20, 0xe7d3fbc8),
     (FG, RA, RB, RC, RD, 9, 5, 0x21e1cde6), (FG, RD, RA, RB, RC, 14, 9, 0xc33707d6),
     (FG, RC, RD, RA, RB, 3, 14, 0xf4d50d87), (FG, RB, RC, RD, RA, 8, 20, 0x455a14ed),
     (FG, RA, RB, RC, RD, 13, 5, 0xa9e3e905), (FG, RD, RA, RB, RC, 2, 9, 0xfcefa3f8),
     (FG, RC, RD, RA, RB, 7, 14, 0x676f02d9), (FG, RB, RC, RD, RA, 12, 20, 0x8d2a4c8a),
     (FH, RA, RB, RC, RD, 5, 4, 0xfffa3942), (FH, RD, RA, RB, RC, 8, 11, 0x8771f681),
     (FH, RC, RD, RA, RB, 11, 16, 0x6d9d6122), (FH, RB, RC, RD, RA, 14, 23, 0xfde5380c),
     (FH, RA, RB, RC, RD, 1, 4, 0xa4beea44), (FH, RD, RA, RB, RC, 4, 11, 0x4bdecfa9),
     (FH, RC, RD, RA, RB, 7, 16, 0xf6bb4b60), (FH, RB, RC, RD, RA, 10, 23, 0xbebfbc70),
     (FH, RA, RB, RC, RD, 13, 4, 0x289b7ec6), (FH, RD, RA, RB, RC, 0, 11, 0xeaa127fa),
     (FH, RC, RD, RA, RB, 3, 16, 0xd4ef3085), (FH, RB, RC, RD, RA, 6, 23, 0x04881d05),
     (FH, RA, RB, RC, RD, 9, 4, 0xd9d4d039), (FH, RD, RA, RB, RC, 12, 11, 0xe6db99e5),
     (FH, RC, RD, RA, RB, 15, 16, 0x1fa27cf8), (FH, RB, RC, RD, RA, 2, 23, 0xc4ac5665),
     (FI, RA, RB, RC, RD, 0, 6, 0xf4292244), (FI, RD, RA, RB, RC, 7, 10, 0x432aff97),
     (FI, RC, RD, RA, RB, 14, 15, 0xab9423a7), (FI, RB, RC, RD, RA, 5, 21, 0xfc93a039),
     (FI, RA, RB, RC, RD, 12, 6, 0x655b59c3), (FI, RD, RA, RB, RC, 3, 10, 0x8f0ccc92),
     (FI, RC, RD, RA, RB, 10, 15, 0xffeff47d), (FI, RB, RC, RD, RA, 1, 21, 0x85845dd1),
     (FI, RA, RB, RC, RD, 8, 6, 0x6fa87e4f), (FI, RD, RA, RB, RC, 15, 10, 0xfe2ce6e0),
     (FI, RC, RD, RA, RB, 6, 15, 0xa3014314), (FI, RB, RC, RD, RA, 13, 21, 0x4e0811a1),
     (FI, RA, RB, RC, RD, 4, 6, 0xf7537e82), (FI, RD, RA, RB, RC, 11, 10, 0xbd3af235),
     (FI, RC, RD, RA, RB, 2, 15, 0x2ad7d2bb), (FI, RB, RC, RD, RA, 9, 21, 0xeb86d391)]"

definition md5_small_0 :: "bytes \<Rightarrow> u32 list \<Rightarrow> u32 list" where
  "md5_small_0 wbuffer hash =
     (let r = fold (md5_OP (words_of wbuffer)) md5_unrolled (md5_regs hash)
      in md5_add hash (r RA, r RB, r RC, r RD))"

definition md5_process_block64 :: "int \<Rightarrow> bytes \<Rightarrow> u32 list \<Rightarrow> u32 list" where
  "md5_process_block64 config_md5_small =
     (let md5_small = if config_md5_small < 0 then 0 else if config_md5_small > 3 then 3 else config_md5_small
      in if md5_small = 3 then md5_small_3 else if md5_small \<ge> 2 then md5_small_2
         else if md5_small = 1 then md5_small_1 else md5_small_0)"

text \<open>RFC 1321, section 3.4: the auxiliary functions, the order of the words, the shifts, one step.\<close>

definition rfc1321_fun :: "nat \<Rightarrow> u32 \<Rightarrow> u32 \<Rightarrow> u32 \<Rightarrow> u32" where
  "rfc1321_fun i x y z =
     (if i < 16 then (x AND y) OR (NOT x AND z) else if i < 32 then (x AND z) OR (y AND NOT z)
      else if i < 48 then x XOR y XOR z else y XOR (x OR NOT z))"

definition rfc1321_word :: "nat \<Rightarrow> nat" where
  "rfc1321_word i =
     (if i < 16 then i else if i < 32 then (5 * i + 1) mod 16
      else if i < 48 then (3 * i + 5) mod 16 else 7 * i mod 16)"

definition rfc1321_shift :: "nat \<Rightarrow> nat" where
  "rfc1321_shift i =
     (if i < 16 then [7, 12, 17, 22] else if i < 32 then [5, 9, 14, 20]
      else if i < 48 then [4, 11, 16, 23] else [6, 10, 15, 21]) ! (i mod 4)"

definition rfc1321_step :: "u32 list \<Rightarrow> nat \<Rightarrow> u32 \<times> u32 \<times> u32 \<times> u32 \<Rightarrow> u32 \<times> u32 \<times> u32 \<times> u32" where
  "rfc1321_step x i r = (case r of (a, b, c, d) \<Rightarrow>
     (d, b + word_rotl (rfc1321_shift i) (a + rfc1321_fun i b c d + x ! rfc1321_word i + C_array ! i), b, c))"

definition rfc1321_block :: "bytes \<Rightarrow> u32 list \<Rightarrow> u32 list" where
  "rfc1321_block b h =
     md5_add h (fold (rfc1321_step (words_of b)) [0..<64] (h ! 0, h ! 1, h ! 2, h ! 3))"

text \<open>The list of operations that versions 0 and 1 carry out, as the RFC orders them.\<close>

definition md5_entry :: "nat \<Rightarrow> md5_op" where
  "md5_entry i =
     (if i < 16 then FF else if i < 32 then FG else if i < 48 then FH else FI,
      [RA, RD, RC, RB] ! (i mod 4), [RB, RA, RD, RC] ! (i mod 4), [RC, RB, RA, RD] ! (i mod 4),
      [RD, RC, RB, RA] ! (i mod 4), rfc1321_word i, rfc1321_shift i, C_array ! i)"

section \<open>The four versions agree\<close>

lemma rotl32_word_rotl:
  assumes "0 < n" "n < 32"
  shows "rotl32 x n = word_rotl n x"
proof (rule bit_word_eqI)
  fix k
  assume "k < LENGTH(32)"
  then have k: "k < 32" by simp
  show "bit (rotl32 x n) k = bit (word_rotl n x) k"
  proof (cases "k < n")
    case True
    then have "(k + (32 - n)) mod 32 = 32 - n + k" using assms by simp
    then show ?thesis
      using True k assms by (simp add: rotl32_def bit_simps bit_word_rotl_iff)
  next
    case False
    then have "(k + (32 - n)) mod 32 = k - n"
      using assms k by (simp add: mod_if)
    moreover have "\<not> bit x (32 - n + k)"
      using False assms bit_imp_le_length [of x "32 - n + k"] by auto
    ultimately show ?thesis
      using False k assms by (simp add: rotl32_def bit_simps bit_word_rotl_iff)
  qed
qed

lemma md5_apply_rfc:
  "md5_apply FF x y z = (x AND y) OR (NOT x AND z)"
  "md5_apply FG x y z = (x AND z) OR (y AND NOT z)"
  by (rule bit_word_eqI; auto simp: bit_simps)+

lemma md5_apply_entry: "md5_apply (fst (md5_entry i)) = rfc1321_fun i"
proof (intro ext)
  fix x y z
  show "md5_apply (fst (md5_entry i)) x y z = rfc1321_fun i x y z"
    using md5_apply_rfc [of x y z] by (simp add: md5_entry_def rfc1321_fun_def del: md5_apply.simps(1, 2))
qed

lemma P_array_rfc: "\<forall>i \<in> set [0..<64]. P_array ! i = rfc1321_word i"
  by code_simp

lemma S_array_rfc: "\<forall>i \<in> set [0..<64]. S_array ! (4 * (i div 16) + (i AND 3)) = rfc1321_shift i"
  by code_simp

lemma rfc1321_shift_range: "\<forall>i \<in> set [0..<64]. 0 < rfc1321_shift i \<and> rfc1321_shift i < 32"
  by code_simp

lemma md5_fun_small_3: "\<forall>i \<in> set [0..<64]. (if drop_bit 4 i = 0 then FF else if drop_bit 4 i = 1 then FG
    else if drop_bit 4 i = 2 then FH else FI) = fst (md5_entry i)"
  by code_simp

lemma md5_turn_rfc:
  assumes "i < 64"
  shows "md5_turn (fst (md5_entry i)) (x ! rfc1321_word i) (C_array ! i) (rfc1321_shift i) = rfc1321_step x i"
  using rfc1321_shift_range assms
  by (intro ext) (auto simp: md5_turn_def rfc1321_step_def md5_apply_entry rotl32_word_rotl add_ac)

lemma fold_upt_cong: "(\<And>i. i < n \<Longrightarrow> f i = g i) \<Longrightarrow> fold f [0..<n] s = fold g [0..<n] s"
  by (rule fold_cong) auto

lemma md5_small_3_rfc: "md5_small_3 b h = rfc1321_block b h"
proof -
  have "md5_turn (if drop_bit 4 i = 0 then FF else if drop_bit 4 i = 1 then FG
      else if drop_bit 4 i = 2 then FH else FI) (words_of b ! (P_array ! i)) (C_array ! i)
      (S_array ! (4 * (i div 16) + (i AND 3))) = rfc1321_step (words_of b) i" if "i < 64" for i
    using that P_array_rfc S_array_rfc md5_fun_small_3 md5_turn_rfc [OF that, of "words_of b"] by simp
  then show ?thesis
    unfolding md5_small_3_def rfc1321_block_def Let_def by (subst fold_upt_cong) auto
qed

lemma fold_upt_shift: "fold f [k..<k + n] s = fold (\<lambda>i. f (k + i)) [0..<n] s"
proof -
  have "[k..<k + n] = map (\<lambda>i. k + i) [0..<n]"
    using map_add_upt [of k n] by (simp add: add.commute)
  then show ?thesis by (simp add: fold_map comp_def)
qed

lemma md5_rounds_2: "\<forall>i \<in> set [0..<16]. \<forall>r \<in> set [0..<4].
    P_array ! (4 * (4 * r) + i) = rfc1321_word (16 * r + i) \<and>
    S_array ! (4 * r + (i AND 3)) = rfc1321_shift (16 * r + i) \<and>
    [FF, FG, FH, FI] ! r = fst (md5_entry (16 * r + i))"
  by code_simp

lemma md5_round_2:
  assumes "r < 4" "f = [FF, FG, FH, FI] ! r"
  shows "fold (\<lambda>i. md5_turn f (x ! (P_array ! (4 * (4 * r) + i))) (C_array ! (4 * (4 * r) + i))
      (S_array ! (4 * r + (i AND 3)))) [0..<16] s = fold (rfc1321_step x) [16 * r..<16 * r + 16] s"
proof -
  have "md5_turn f (x ! (P_array ! (4 * (4 * r) + i))) (C_array ! (4 * (4 * r) + i))
      (S_array ! (4 * r + (i AND 3))) = rfc1321_step x (16 * r + i)" if "i < 16" for i
  proof -
    have "16 * r + i < 64" using assms that by simp
    moreover have "P_array ! (4 * (4 * r) + i) = rfc1321_word (16 * r + i) \<and>
        S_array ! (4 * r + (i AND 3)) = rfc1321_shift (16 * r + i) \<and>
        [FF, FG, FH, FI] ! r = fst (md5_entry (16 * r + i))"
      using md5_rounds_2 assms(1) that by simp
    ultimately show ?thesis
      using md5_turn_rfc [of "16 * r + i" x] assms(2) by simp
  qed
  then show ?thesis
    unfolding fold_upt_shift by (rule fold_upt_cong)
qed

lemma md5_small_2_rfc: "md5_small_2 b h = rfc1321_block b h"
proof -
  have "[0..<64] = [0..<16] @ [16..<32] @ [32..<48] @ [48..<64 :: nat]"
    by code_simp
  then show ?thesis
    using md5_round_2 [of 0 FF] md5_round_2 [of 1 FG] md5_round_2 [of 2 FH] md5_round_2 [of 3 FI]
    by (simp add: md5_small_2_def rfc1321_block_def Let_def)
qed

text \<open>An operation on named registers is a turn, read with the names moved by one place.\<close>

definition md5_view :: "nat \<Rightarrow> (md5_reg \<Rightarrow> u32) \<Rightarrow> u32 \<times> u32 \<times> u32 \<times> u32" where
  "md5_view i r = (r ([RA, RD, RC, RB] ! (i mod 4)), r ([RB, RA, RD, RC] ! (i mod 4)),
     r ([RC, RB, RA, RD] ! (i mod 4)), r ([RD, RC, RB, RA] ! (i mod 4)))"

lemma md5_view_OP:
  assumes "i < 64"
  shows "md5_view (Suc i) (md5_OP x (md5_entry i) r) = rfc1321_step x i (md5_view i r)"
proof -
  obtain f where f: "f = fst (md5_entry i)" by simp
  have e: "md5_entry i = (f, [RA, RD, RC, RB] ! (i mod 4), [RB, RA, RD, RC] ! (i mod 4),
      [RC, RB, RA, RD] ! (i mod 4), [RD, RC, RB, RA] ! (i mod 4), rfc1321_word i, rfc1321_shift i, C_array ! i)"
    by (simp add: md5_entry_def f)
  have step: "rfc1321_step x i = md5_turn f (x ! rfc1321_word i) (C_array ! i) (rfc1321_shift i)"
    using md5_turn_rfc [OF assms] f by simp
  have "i mod 4 < 4" by simp
  then consider "i mod 4 = 0" | "i mod 4 = 1" | "i mod 4 = 2" | "i mod 4 = 3" by linarith
  then show ?thesis
    unfolding step e
    by cases (simp_all add: mod_Suc md5_view_def md5_turn_def add_ac Let_def)
qed

lemma md5_view_fold: "n \<le> 64 \<Longrightarrow>
    md5_view n (fold (md5_OP x) (map md5_entry [0..<n]) r) = fold (rfc1321_step x) [0..<n] (md5_view 0 r)"
  by (induction n) (simp_all add: md5_view_OP)

lemma md5_unrolled_entries: "md5_unrolled = map md5_entry [0..<64]"
  by code_simp

lemma md5_ops_rfc:
  assumes "r = fold (md5_OP (words_of b)) (map md5_entry [0..<64]) (md5_regs h)"
  shows "md5_add h (r RA, r RB, r RC, r RD) = rfc1321_block b h"
  using md5_view_fold [of 64 "words_of b" "md5_regs h"] assms
  by (simp add: md5_view_def md5_regs_def rfc1321_block_def)

lemma md5_small_0_rfc: "md5_small_0 b h = rfc1321_block b h"
  unfolding md5_small_0_def Let_def by (rule md5_ops_rfc) (simp only: md5_unrolled_entries)

lemma fold_fold_concat: "fold (\<lambda>i. fold f (g i)) xs s = fold f (concat (map g xs)) s"
  by (induction xs arbitrary: s) simp_all

lemma md5_quads_entries:
  "concat (map (\<lambda>i. md5_quad FF (\<lambda>k. k) (4 * i) 7 12 17 22) [0..<4]) @
   concat (map (\<lambda>i. md5_quad FG (\<lambda>k. drop 16 P_array ! (k - 16)) (16 + 4 * i) 5 9 14 20) [0..<4]) @
   concat (map (\<lambda>i. md5_quad FH (\<lambda>k. drop 16 P_array ! (k - 16)) (32 + 4 * i) 4 11 16 23) [0..<4]) @
   concat (map (\<lambda>i. md5_quad FI (\<lambda>k. drop 16 P_array ! (k - 16)) (48 + 4 * i) 6 10 15 21) [0..<4]) =
   map md5_entry [0..<64]"
  by code_simp

lemma fold_append4: "fold f d (fold f c (fold f b (fold f a s))) = fold f (a @ b @ c @ d) s"
  by simp

lemma md5_small_1_rfc: "md5_small_1 b h = rfc1321_block b h"
  unfolding md5_small_1_def Let_def fold_fold_concat fold_append4 md5_quads_entries
  by (rule md5_ops_rfc) (rule refl)

lemma md5_process_block64_rfc: "md5_process_block64 small = rfc1321_block"
  by (intro ext) (simp add: md5_process_block64_def Let_def md5_small_0_rfc md5_small_1_rfc md5_small_2_rfc
    md5_small_3_rfc)

end
