(* ===== verification/Bb_Sha.thy ===== *)
theory Bb_Sha
  imports Bb_Md5
begin

text \<open>
  The block functions of SHA-1, SHA-256 and SHA-512 in \<open>src/busybox/libbb/hash_md5_sha.c\<close> for a
  little-endian host: SHA-1 in the three versions in C between which \<open>SHA1_SMALL\<close> chooses. The versions in
  assembler for processors with SHA instructions are not modelled. The functions are compared with those of
  FIPS 180-2, and the constants with the roots of primes they are taken from.
\<close>

section \<open>Definitions\<close>

subsection \<open>SHA-1\<close>

definition be_words_of :: "bytes \<Rightarrow> nat \<Rightarrow> u32" where
  "be_words_of wbuffer i = bswap_32 (words_of wbuffer ! i)"

definition rconsts :: "u32 list" where
  "rconsts = [0x5A827999, 0x6ED9EBA1, 0x8F1BBCDC, 0xCA62C1D6]"

text \<open>The last statements of every version.\<close>

definition sha1_add :: "u32 list \<Rightarrow> u32 \<times> u32 \<times> u32 \<times> u32 \<times> u32 \<Rightarrow> u32 list" where
  "sha1_add hash r = (case r of (a, b, c, d, e) \<Rightarrow>
     hash[0 := hash ! 0 + a, 1 := hash ! 1 + b, 2 := hash ! 2 + c, 3 := hash ! 3 + d, 4 := hash ! 4 + e])"

text \<open>
  Version 0 keeps the last sixteen words in a ring and renames the registers. An array on the stack is a
  function; \<open>W0\<close> is what was there before.
\<close>

datatype sha1_reg = Sa | Sb | Sc | Sd | Se

fun sha1_OP :: "(u32 \<Rightarrow> u32 \<Rightarrow> u32 \<Rightarrow> u32) \<Rightarrow> bytes \<Rightarrow> sha1_reg \<times> sha1_reg \<times> sha1_reg \<times> sha1_reg \<times> sha1_reg \<times> nat \<Rightarrow>
    (nat \<Rightarrow> u32) \<times> (sha1_reg \<Rightarrow> u32) \<Rightarrow> (nat \<Rightarrow> u32) \<times> (sha1_reg \<Rightarrow> u32)" where
  "sha1_OP EXPR wbuffer (A, B, C, D, E, n) (W, r) =
     (let work = EXPR (r B) (r C) (r D);
          W = (if n \<le> 15 then W(n AND 15 := be_words_of wbuffer n)
               else W(n AND 15 := rotl32 (W ((n + 13) AND 15) XOR W ((n + 8) AND 15)
                       XOR W ((n + 2) AND 15) XOR W (n AND 15)) 1));
          work = work + W (n AND 15);
          r = r(E := r E + (work + rotl32 (r A) 5 + rconsts ! (n div 20)))
      in (W, r(B := rotl32 (r B) 30)))"

definition sha1_OP20 :: "nat \<Rightarrow> (sha1_reg \<times> sha1_reg \<times> sha1_reg \<times> sha1_reg \<times> sha1_reg \<times> nat) list" where
  "sha1_OP20 n =
    [(Sa, Sb, Sc, Sd, Se, n + 0), (Se, Sa, Sb, Sc, Sd, n + 1), (Sd, Se, Sa, Sb, Sc, n + 2), (Sc, Sd, Se, Sa, Sb, n + 3),
     (Sb, Sc, Sd, Se, Sa, n + 4), (Sa, Sb, Sc, Sd, Se, n + 5), (Se, Sa, Sb, Sc, Sd, n + 6), (Sd, Se, Sa, Sb, Sc, n + 7),
     (Sc, Sd, Se, Sa, Sb, n + 8), (Sb, Sc, Sd, Se, Sa, n + 9), (Sa, Sb, Sc, Sd, Se, n + 10), (Se, Sa, Sb, Sc, Sd, n + 11),
     (Sd, Se, Sa, Sb, Sc, n + 12), (Sc, Sd, Se, Sa, Sb, n + 13), (Sb, Sc, Sd, Se, Sa, n + 14), (Sa, Sb, Sc, Sd, Se, n + 15),
     (Se, Sa, Sb, Sc, Sd, n + 16), (Sd, Se, Sa, Sb, Sc, n + 17), (Sc, Sd, Se, Sa, Sb, n + 18), (Sb, Sc, Sd, Se, Sa, n + 19)]"

definition sha1_regs :: "u32 list \<Rightarrow> sha1_reg \<Rightarrow> u32" where
  "sha1_regs hash r = (case r of Sa \<Rightarrow> hash ! 0 | Sb \<Rightarrow> hash ! 1 | Sc \<Rightarrow> hash ! 2 | Sd \<Rightarrow> hash ! 3 | Se \<Rightarrow> hash ! 4)"

definition sha1_small_0 :: "(nat \<Rightarrow> u32) \<Rightarrow> bytes \<Rightarrow> u32 list \<Rightarrow> u32 list" where
  "sha1_small_0 W0 wbuffer hash =
     (let s = (W0, sha1_regs hash);
          s = fold (sha1_OP (\<lambda>b c d. ((c XOR d) AND b) XOR d) wbuffer) (sha1_OP20 0) s;
          s = fold (sha1_OP (\<lambda>b c d. c XOR d XOR b) wbuffer) (sha1_OP20 20) s;
          s = fold (sha1_OP (\<lambda>b c d. ((b OR c) AND d) OR (b AND c)) wbuffer) (sha1_OP20 40) s;
          (W, r) = fold (sha1_OP (\<lambda>b c d. c XOR d XOR b) wbuffer) (sha1_OP20 60) s
      in sha1_add hash (r Sa, r Sb, r Sc, r Sd, r Se))"

text \<open>Versions 1 and 2 store every word twice, so that no index is reduced.\<close>

definition sha1_put :: "u32 \<Rightarrow> (nat \<Rightarrow> u32) \<Rightarrow> nat \<Rightarrow> nat \<Rightarrow> u32" where
  "sha1_put v W n = W(n + 16 := v, n := v)"

definition sha1_mix :: "(nat \<Rightarrow> u32) \<Rightarrow> nat \<Rightarrow> nat \<Rightarrow> u32" where
  "sha1_mix W n = sha1_put (rotl32 (W (n + 13) XOR W (n + 8) XOR W (n + 2) XOR W n) 1) W n"

definition sha1_turn :: "u32 \<Rightarrow> u32 \<Rightarrow> u32 \<Rightarrow> u32 \<times> u32 \<times> u32 \<times> u32 \<times> u32 \<Rightarrow> u32 \<times> u32 \<times> u32 \<times> u32 \<times> u32" where
  "sha1_turn work w k r = (case r of (a, b, c, d, e) \<Rightarrow>
     let work = work + w; work = work + (e + rotl32 a 5 + k) in (work, a, rotl32 b 30, c, d))"

type_synonym sha1_state = "(nat \<Rightarrow> u32) \<times> nat \<times> u32 \<times> u32 \<times> u32 \<times> u32 \<times> u32"

definition sha1_load_turn :: "bytes \<Rightarrow> sha1_state \<Rightarrow> sha1_state" where
  "sha1_load_turn wbuffer s = (case s of (W, n, a, b, c, d, e) \<Rightarrow>
     let work = ((c XOR d) AND b) XOR d; W = sha1_put (be_words_of wbuffer n) W n
     in (W, (n + 1) AND 15, sha1_turn work (W n) (rconsts ! 0) (a, b, c, d, e)))"

definition sha1_mix_turn :: "(u32 \<Rightarrow> u32 \<Rightarrow> u32 \<Rightarrow> u32) \<Rightarrow> nat \<Rightarrow> sha1_state \<Rightarrow> sha1_state" where
  "sha1_mix_turn f i s = (case s of (W, n, a, b, c, d, e) \<Rightarrow>
     let work = f b c d; W = sha1_mix W n
     in (W, (n + 1) AND 15, sha1_turn work (W n) (rconsts ! i) (a, b, c, d, e)))"

definition sha1_small_1 :: "(nat \<Rightarrow> u32) \<Rightarrow> bytes \<Rightarrow> u32 list \<Rightarrow> u32 list" where
  "sha1_small_1 W0 wbuffer hash =
     (let s = (W0, 0, hash ! 0, hash ! 1, hash ! 2, hash ! 3, hash ! 4);
          s = (sha1_load_turn wbuffer ^^ 16) s;
          s = (sha1_mix_turn (\<lambda>b c d. ((c XOR d) AND b) XOR d) 0 ^^ 4) s;
          s = (sha1_mix_turn (\<lambda>b c d. c XOR d XOR b) 1 ^^ 20) s;
          s = (sha1_mix_turn (\<lambda>b c d. ((b OR c) AND d) OR (b AND c)) 2 ^^ 20) s;
          (W, n, r) = (sha1_mix_turn (\<lambda>b c d. c XOR d XOR b) 3 ^^ 20) s
      in sha1_add hash r)"

definition sha1_small_body :: "nat \<Rightarrow> nat \<Rightarrow> sha1_state \<Rightarrow> sha1_state" where
  "sha1_small_body i j s = (case s of (W, n, a, b, c, d, e) \<Rightarrow>
     let work = c XOR d;
         (work, W) =
           (if i = 0 then
              (let work = (work AND b) XOR d
               in if j \<le> 3 then (work, sha1_mix W n) else (work, W))
            else if i = 2 then (((b OR c) AND d) OR (b AND c), sha1_mix W n)
            else (work XOR b, sha1_mix W n))
     in (W, (n + 1) AND 15, sha1_turn work (W n) (rconsts ! i) (a, b, c, d, e)))"

definition sha1_small_2 :: "(nat \<Rightarrow> u32) \<Rightarrow> bytes \<Rightarrow> u32 list \<Rightarrow> u32 list" where
  "sha1_small_2 W0 wbuffer hash =
     (let W = fold (\<lambda>i W. sha1_put (be_words_of wbuffer i) W i) [0..<16] W0;
          s = (W, 0, hash ! 0, hash ! 1, hash ! 2, hash ! 3, hash ! 4);
          (W, n, r) = fold (\<lambda>i. fold (sha1_small_body i) (rev [0..<20])) [0..<4] s
      in sha1_add hash r)"

definition sha1_process_block64 :: "int \<Rightarrow> (nat \<Rightarrow> u32) \<Rightarrow> bytes \<Rightarrow> u32 list \<Rightarrow> u32 list" where
  "sha1_process_block64 config_sha1_small =
     (if config_sha1_small = 0 then sha1_small_0 else if config_sha1_small = 1 then sha1_small_1
      else sha1_small_2)"

subsection \<open>SHA-256 and SHA-512\<close>

definition sha_K :: "u64 list" where
  "sha_K =
    [0x428a2f98d728ae22, 0x7137449123ef65cd, 0xb5c0fbcfec4d3b2f, 0xe9b5dba58189dbbc,
     0x3956c25bf348b538, 0x59f111f1b605d019, 0x923f82a4af194f9b, 0xab1c5ed5da6d8118,
     0xd807aa98a3030242, 0x12835b0145706fbe, 0x243185be4ee4b28c, 0x550c7dc3d5ffb4e2,
     0x72be5d74f27b896f, 0x80deb1fe3b1696b1, 0x9bdc06a725c71235, 0xc19bf174cf692694,
     0xe49b69c19ef14ad2, 0xefbe4786384f25e3, 0x0fc19dc68b8cd5b5, 0x240ca1cc77ac9c65,
     0x2de92c6f592b0275, 0x4a7484aa6ea6e483, 0x5cb0a9dcbd41fbd4, 0x76f988da831153b5,
     0x983e5152ee66dfab, 0xa831c66d2db43210, 0xb00327c898fb213f, 0xbf597fc7beef0ee4,
     0xc6e00bf33da88fc2, 0xd5a79147930aa725, 0x06ca6351e003826f, 0x142929670a0e6e70,
     0x27b70a8546d22ffc, 0x2e1b21385c26c926, 0x4d2c6dfc5ac42aed, 0x53380d139d95b3df,
     0x650a73548baf63de, 0x766a0abb3c77b2a8, 0x81c2c92e47edaee6, 0x92722c851482353b,
     0xa2bfe8a14cf10364, 0xa81a664bbc423001, 0xc24b8b70d0f89791, 0xc76c51a30654be30,
     0xd192e819d6ef5218, 0xd69906245565a910, 0xf40e35855771202a, 0x106aa07032bbd1b8,
     0x19a4c116b8d2d0c8, 0x1e376c085141ab53, 0x2748774cdf8eeb99, 0x34b0bcb5e19b48a8,
     0x391c0cb3c5c95a63, 0x4ed8aa4ae3418acb, 0x5b9cca4f7763e373, 0x682e6ff3d6b2b8a3,
     0x748f82ee5defb2fc, 0x78a5636f43172f60, 0x84c87814a1f0ab72, 0x8cc702081a6439ec,
     0x90befffa23631e28, 0xa4506cebde82bde9, 0xbef9a3f7b2c67915, 0xc67178f2e372532b,
     0xca273eceea26619c, 0xd186b8c721c0c207, 0xeada7dd6cde0eb1e, 0xf57d4f7fee6ed178,
     0x06f067aa72176fba, 0x0a637dc5a2c898a6, 0x113f9804bef90dae, 0x1b710b35131c471b,
     0x28db77f523047d84, 0x32caab7b40c72493, 0x3c9ebe0a15c9bebc, 0x431d67c49c100d4c,
     0x4cc5d4becb3e42b6, 0x597f299cfc657e2a, 0x5fcb6fab3ad6faec, 0x6c44198c4a475817]"

definition rotr32 :: "u32 \<Rightarrow> nat \<Rightarrow> u32" where
  "rotr32 x n = drop_bit n x OR push_bit (32 - n) x"

definition rotr64 :: "u64 \<Rightarrow> nat \<Rightarrow> u64" where
  "rotr64 x n = drop_bit n x OR push_bit (64 - n) x"

text \<open>The macros and the two loops have the same text for both widths.\<close>

definition Ch :: "'a::len word \<Rightarrow> 'a word \<Rightarrow> 'a word \<Rightarrow> 'a word" where
  "Ch x y z = (x AND y) XOR (NOT x AND z)"

definition Maj :: "'a::len word \<Rightarrow> 'a word \<Rightarrow> 'a word \<Rightarrow> 'a word" where
  "Maj x y z = (x AND y) XOR (x AND z) XOR (y AND z)"

definition sha2_schedule :: "('a::len word \<Rightarrow> 'a word) \<Rightarrow> ('a word \<Rightarrow> 'a word) \<Rightarrow> nat \<Rightarrow> 'a word list \<Rightarrow> 'a word list" where
  "sha2_schedule R0 R1 n W =
     fold (\<lambda>t W. W @ [R1 (W ! (t - 2)) + W ! (t - 7) + R0 (W ! (t - 15)) + W ! (t - 16)]) [16..<n] W"

fun sha2_turn :: "('a::len word \<Rightarrow> 'a word) \<Rightarrow> ('a word \<Rightarrow> 'a word) \<Rightarrow> 'a word \<Rightarrow> 'a word \<Rightarrow> 'a word list \<Rightarrow> 'a word list" where
  "sha2_turn S0 S1 k w [a, b, c, d, e, f, g, h] =
     (let T1 = h + S1 e + Ch e f g + k + w; T2 = S0 a + Maj a b c
      in [T1 + T2, a, b, c, d + T1, e, f, g])"
| "sha2_turn S0 S1 k w r = r"

definition sha256_S0 :: "u32 \<Rightarrow> u32" where
  "sha256_S0 x = rotr32 x 2 XOR rotr32 x 13 XOR rotr32 x 22"

definition sha256_S1 :: "u32 \<Rightarrow> u32" where
  "sha256_S1 x = rotr32 x 6 XOR rotr32 x 11 XOR rotr32 x 25"

definition sha256_R0 :: "u32 \<Rightarrow> u32" where
  "sha256_R0 x = rotr32 x 7 XOR rotr32 x 18 XOR drop_bit 3 x"

definition sha256_R1 :: "u32 \<Rightarrow> u32" where
  "sha256_R1 x = rotr32 x 17 XOR rotr32 x 19 XOR drop_bit 10 x"

definition sha256_process_block64 :: "bytes \<Rightarrow> u32 list \<Rightarrow> u32 list" where
  "sha256_process_block64 wbuffer hash =
     (let W = map (be_words_of wbuffer) [0..<16];
          W = sha2_schedule sha256_R0 sha256_R1 64 W;
          r = fold (\<lambda>t. sha2_turn sha256_S0 sha256_S1 (ucast (drop_bit 32 (sha_K ! t))) (W ! t)) [0..<64] hash
      in map2 (+) hash r)"

definition sha512_S0 :: "u64 \<Rightarrow> u64" where
  "sha512_S0 x = rotr64 x 28 XOR rotr64 x 34 XOR rotr64 x 39"

definition sha512_S1 :: "u64 \<Rightarrow> u64" where
  "sha512_S1 x = rotr64 x 14 XOR rotr64 x 18 XOR rotr64 x 41"

definition sha512_R0 :: "u64 \<Rightarrow> u64" where
  "sha512_R0 x = rotr64 x 1 XOR rotr64 x 8 XOR drop_bit 7 x"

definition sha512_R1 :: "u64 \<Rightarrow> u64" where
  "sha512_R1 x = rotr64 x 19 XOR rotr64 x 61 XOR drop_bit 6 x"

definition be_words64_of :: "bytes \<Rightarrow> nat \<Rightarrow> u64" where
  "be_words64_of wbuffer i = bb_bswap_64 (un_le64 (take 8 (drop (8 * i) wbuffer)))"

definition sha512_process_block128 :: "bytes \<Rightarrow> u64 list \<Rightarrow> u64 list" where
  "sha512_process_block128 wbuffer hash =
     (let W = map (be_words64_of wbuffer) [0..<16];
          W = sha2_schedule sha512_R0 sha512_R1 80 W;
          r = fold (\<lambda>t. sha2_turn sha512_S0 sha512_S1 (sha_K ! t) (W ! t)) [0..<80] hash
      in map2 (+) hash r)"

definition init256 :: "u32 list" where
  "init256 = [0, 0, 0x6a09e667, 0xbb67ae85, 0x3c6ef372, 0xa54ff53a, 0x510e527f, 0x9b05688c, 0x1f83d9ab, 0x5be0cd19]"

definition init512_lo :: "u32 list" where
  "init512_lo = [0, 0, 0xf3bcc908, 0x84caa73b, 0xfe94f82b, 0x5f1d36f1, 0xade682d1, 0x2b3e6c1f, 0xfb41bd6b, 0x137e2179]"

subsection \<open>FIPS 180-2\<close>

text \<open>Words are read from the message with the most significant byte first.\<close>

definition be_word :: "nat \<Rightarrow> bytes \<Rightarrow> nat \<Rightarrow> 'a::len word" where
  "be_word n m i = foldl (\<lambda>w b. push_bit 8 w OR ucast b) 0 (take n (drop (n * i) m))"

definition fips_sha1_fun :: "nat \<Rightarrow> u32 \<Rightarrow> u32 \<Rightarrow> u32 \<Rightarrow> u32" where
  "fips_sha1_fun t x y z =
     (if t < 20 then (x AND y) XOR (NOT x AND z) else if t < 40 then x XOR y XOR z
      else if t < 60 then (x AND y) XOR (x AND z) XOR (y AND z) else x XOR y XOR z)"

definition fips_sha1_K :: "nat \<Rightarrow> u32" where
  "fips_sha1_K t =
     (if t < 20 then 0x5a827999 else if t < 40 then 0x6ed9eba1 else if t < 60 then 0x8f1bbcdc else 0xca62c1d6)"

fun fips_sha1_W :: "bytes \<Rightarrow> nat \<Rightarrow> u32" where
  "fips_sha1_W m t =
     (if t < 16 then be_word 4 m t
      else word_rotl 1 (fips_sha1_W m (t - 3) XOR fips_sha1_W m (t - 8) XOR fips_sha1_W m (t - 14)
             XOR fips_sha1_W m (t - 16)))"

definition fips_sha1_step :: "bytes \<Rightarrow> nat \<Rightarrow> u32 \<times> u32 \<times> u32 \<times> u32 \<times> u32 \<Rightarrow> u32 \<times> u32 \<times> u32 \<times> u32 \<times> u32" where
  "fips_sha1_step m t r = (case r of (a, b, c, d, e) \<Rightarrow>
     (word_rotl 5 a + fips_sha1_fun t b c d + e + fips_sha1_K t + fips_sha1_W m t, a, word_rotl 30 b, c, d))"

definition fips_sha1_block :: "bytes \<Rightarrow> u32 list \<Rightarrow> u32 list" where
  "fips_sha1_block m h =
     sha1_add h (fold (fips_sha1_step m) [0..<80] (h ! 0, h ! 1, h ! 2, h ! 3, h ! 4))"

text \<open>The two hash functions of the second family differ in widths and shifts only.\<close>

definition fips_sigma :: "nat \<Rightarrow> nat \<Rightarrow> nat \<Rightarrow> 'a::len word \<Rightarrow> 'a word" where
  "fips_sigma i j k x = word_rotr i x XOR word_rotr j x XOR drop_bit k x"

definition fips_Sigma :: "nat \<Rightarrow> nat \<Rightarrow> nat \<Rightarrow> 'a::len word \<Rightarrow> 'a word" where
  "fips_Sigma i j k x = word_rotr i x XOR word_rotr j x XOR word_rotr k x"

function fips_W :: "('a::len word \<Rightarrow> 'a word) \<Rightarrow> ('a word \<Rightarrow> 'a word) \<Rightarrow> (nat \<Rightarrow> 'a word) \<Rightarrow> nat \<Rightarrow> 'a word" where
  "fips_W s0 s1 m t =
     (if t < 16 then m t
      else s1 (fips_W s0 s1 m (t - 2)) + fips_W s0 s1 m (t - 7) + s0 (fips_W s0 s1 m (t - 15)) + fips_W s0 s1 m (t - 16))"
  by pat_completeness auto
termination
  by (relation "measure (\<lambda>(s0, s1, m, t). t)") auto

definition fips_block :: "nat \<Rightarrow> (nat \<Rightarrow> 'a::len word) \<Rightarrow> (nat \<Rightarrow> 'a word) \<Rightarrow> ('a word \<Rightarrow> 'a word) \<Rightarrow> ('a word \<Rightarrow> 'a word) \<Rightarrow>
    'a word list \<Rightarrow> 'a word list" where
  "fips_block n K W S0 S1 h = map2 (+) h (fold (\<lambda>t. sha2_turn S0 S1 (K t) (W t)) [0..<n] h)"

definition fips_sha256_block :: "bytes \<Rightarrow> u32 list \<Rightarrow> u32 list" where
  "fips_sha256_block m = fips_block 64 (\<lambda>t. ucast (drop_bit 32 (sha_K ! t)))
     (fips_W (fips_sigma 7 18 3) (fips_sigma 17 19 10) (be_word 4 m)) (fips_Sigma 2 13 22) (fips_Sigma 6 11 25)"

definition fips_sha512_block :: "bytes \<Rightarrow> u64 list \<Rightarrow> u64 list" where
  "fips_sha512_block m = fips_block 80 (\<lambda>t. sha_K ! t)
     (fips_W (fips_sigma 1 8 7) (fips_sigma 19 61 6) (be_word 8 m)) (fips_Sigma 28 34 39) (fips_Sigma 14 18 41)"

section \<open>Bytes and words\<close>

lemma bit_ucast_u8: "bit (ucast (b :: u8) :: 'a::len word) k \<longleftrightarrow> k < LENGTH('a) \<and> k < 8 \<and> bit b k"
  using bit_imp_le_length [of b k] by (auto simp: bit_simps)

lemma bit_gather:
  "bit (foldr (\<lambda>i w. push_bit (8 * i) (ucast (bs ! i :: u8)) OR w) xs (0 :: 'a::len word)) k \<longleftrightarrow>
     k < LENGTH('a) \<and> (\<exists>i \<in> set xs. 8 * i \<le> k \<and> k - 8 * i < 8 \<and> bit (bs ! i) (k - 8 * i))"
proof (induction xs)
  case (Cons i xs)
  have "k - 8 * i < LENGTH('a)" if "k < LENGTH('a)" using that by simp
  then show ?case using Cons by (auto simp: bit_or_iff bit_push_bit_iff bit_ucast_u8)
qed simp

lemma byte_index: "8 * i \<le> k \<and> k - 8 * i < 8 \<longleftrightarrow> i = k div (8 :: nat)"
  by auto

lemma bit_gather_upt:
  "bit (foldr (\<lambda>i w. push_bit (8 * i) (ucast (bs ! i :: u8)) OR w) [0..<n] (0 :: 'a::len word)) k \<longleftrightarrow>
     k < LENGTH('a) \<and> k div 8 < n \<and> bit (bs ! (k div 8)) (k mod 8)"
proof -
  have "(8 * i \<le> k \<and> k - 8 * i < 8 \<and> bit (bs ! i) (k - 8 * i)) \<longleftrightarrow> i = k div 8 \<and> bit (bs ! i) (k mod 8)" for i
    using byte_index [of i k] minus_mult_div_eq_mod [of k 8] by metis
  then show ?thesis by (auto simp: bit_gather)
qed

lemma bit_un_le64: "bit (un_le64 bs) k \<longleftrightarrow> k < 64 \<and> bit (bs ! (k div 8)) (k mod 8)"
  by (auto simp: un_le64_def bit_gather_upt)

lemma upt_4: "[0..<4] = [0, 1, 2, 3 :: nat]"
  by code_simp

lemma bit_un_le32: "bit (un_le32 bs) k \<longleftrightarrow> k < 32 \<and> bit (bs ! (k div 8)) (k mod 8)"
proof -
  have "un_le32 bs = foldr (\<lambda>i w. push_bit (8 * i) (ucast (bs ! i)) OR w) [0..<4] 0"
    by (simp add: un_le32_def upt_4 or.assoc)
  then show ?thesis by (auto simp: bit_gather_upt)
qed

lemma image_of_word:
  fixes w :: "'a::len word"
  assumes "length bs = n" "\<And>k. bit w k \<longleftrightarrow> k < 8 * n \<and> bit (bs ! (k div 8)) (k mod 8)"
  shows "map (\<lambda>i. ucast (drop_bit (8 * i) w)) [0..<n] = (bs :: bytes)"
proof (rule nth_equalityI)
  fix i
  assume "i < length (map (\<lambda>i. ucast (drop_bit (8 * i) w)) [0..<n] :: bytes)"
  then have i: "i < n" by simp
  have "bit (ucast (drop_bit (8 * i) w) :: u8) k = bit (bs ! i) k" if "k < 8" for k
  proof -
    have "8 * i + k < 8 * n" using i that by simp
    then show ?thesis using that assms(2) [of "8 * i + k"] by (simp add: bit_simps)
  qed
  then have "ucast (drop_bit (8 * i) w) = bs ! i" by (intro bit_word_eqI) simp
  then show "map (\<lambda>i. ucast (drop_bit (8 * i) w)) [0..<n] ! i = bs ! i" using i by simp
qed (use assms in simp)

lemma le64_un_le64: "length bs = 8 \<Longrightarrow> le64 (un_le64 bs) = bs"
  unfolding le64_def by (rule image_of_word) (simp_all add: bit_un_le64)

lemma le32_un_le32: "length bs = 4 \<Longrightarrow> le32 (un_le32 bs) = bs"
  using image_of_word [of bs 4 "un_le32 bs"] by (simp add: bit_un_le32 le32_def upt_4)

lemma bit_horner:
  "bit (foldl (\<lambda>w (b :: u8). push_bit 8 w OR ucast b) (w :: 'a::len word) bs) k \<longleftrightarrow> k < LENGTH('a) \<and>
     (if k div 8 < length bs then bit (rev bs ! (k div 8)) (k mod 8) else bit w (k - 8 * length bs))"
proof (induction bs arbitrary: k rule: rev_induct)
  case Nil
  show ?case using bit_imp_le_length [of w k] by auto
next
  case (snoc b bs)
  show ?case
  proof (cases "k < 8")
    case True
    then show ?thesis by (simp add: bit_simps bit_ucast_u8)
  next
    case False
    define j where "j = k - 8"
    have j: "k = 8 + j" using False by (simp add: j_def)
    then have "k div 8 = Suc (j div 8)" "k mod 8 = j mod 8" by simp_all
    then show ?thesis
      using j snoc.IH [of j] bit_imp_le_length [of b "8 + j"] by (auto simp: bit_simps bit_ucast_u8)
  qed
qed

lemma be_words_of_eq:
  assumes "length m = 64" "i < 16"
  shows "be_words_of m i = be_word 4 m i"
proof -
  let ?bs = "take 4 (drop (4 * i) m)"
  have bs: "length ?bs = 4" using assms by simp
  have "be_words_of m i = un_le32 (rev ?bs)"
    using assms bs by (simp add: be_words_of_def words_of_def bswap_32_def le32_un_le32)
  also have "\<dots> = be_word 4 m i"
  proof (rule bit_word_eqI)
    fix k
    assume "k < LENGTH(32)"
    then have "k < 32" "k div 8 < 4" by auto
    then show "bit (un_le32 (rev ?bs)) k = bit (be_word 4 m i :: u32) k"
      using bs by (simp add: bit_un_le32 be_word_def bit_horner del: length_take length_drop)
  qed
  finally show ?thesis .
qed

lemma be_words64_of_eq:
  assumes "length m = 128" "i < 16"
  shows "be_words64_of m i = be_word 8 m i"
proof -
  let ?bs = "take 8 (drop (8 * i) m)"
  have bs: "length ?bs = 8" using assms by simp
  have "be_words64_of m i = un_le64 (rev ?bs)"
    using bs by (simp add: be_words64_of_def bb_bswap_64_def le64_un_le64)
  also have "\<dots> = be_word 8 m i"
  proof (rule bit_word_eqI)
    fix k
    assume "k < LENGTH(64)"
    then have "k < 64" "k div 8 < 8" by auto
    then show "bit (un_le64 (rev ?bs)) k = bit (be_word 8 m i :: u64) k"
      using bs by (simp add: bit_un_le64 be_word_def bit_horner del: length_take length_drop)
  qed
  finally show ?thesis .
qed
section \<open>SHA-256 and SHA-512 are those of the standard\<close>

lemma rotr_word_rotr:
  fixes x :: "'a::len word"
  assumes "0 < n" "n < LENGTH('a)"
  shows "drop_bit n x OR push_bit (LENGTH('a) - n) x = word_rotr n x"
proof (rule bit_word_eqI)
  fix k
  assume k: "k < LENGTH('a)"
  show "bit (drop_bit n x OR push_bit (LENGTH('a) - n) x) k = bit (word_rotr n x) k"
  proof (cases "k + n < LENGTH('a)")
    case True
    then have "\<not> LENGTH('a) - n \<le> k" by simp
    then show ?thesis
      using True k assms by (simp add: bit_or_iff bit_drop_bit_eq bit_push_bit_iff bit_word_rotr_iff add.commute)
  next
    case False
    then have "(k + n) mod LENGTH('a) = k - (LENGTH('a) - n)"
      using assms k by (simp add: mod_if)
    moreover have "\<not> bit x (n + k)"
      using False bit_imp_le_length [of x "n + k"] by auto
    moreover have "LENGTH('a) - n \<le> k" using False by simp
    ultimately show ?thesis
      using k by (simp add: bit_or_iff bit_drop_bit_eq bit_push_bit_iff bit_word_rotr_iff)
  qed
qed

lemma rotr32_word_rotr: "0 < n \<Longrightarrow> n < 32 \<Longrightarrow> rotr32 x n = word_rotr n x"
  using rotr_word_rotr [of n x] by (simp add: rotr32_def)

lemma rotr64_word_rotr: "0 < n \<Longrightarrow> n < 64 \<Longrightarrow> rotr64 x n = word_rotr n x"
  using rotr_word_rotr [of n x] by (simp add: rotr64_def)

lemma sha2_macros:
  "sha256_R0 = fips_sigma 7 18 3" "sha256_R1 = fips_sigma 17 19 10"
  "sha256_S0 = fips_Sigma 2 13 22" "sha256_S1 = fips_Sigma 6 11 25"
  "sha512_R0 = fips_sigma 1 8 7" "sha512_R1 = fips_sigma 19 61 6"
  "sha512_S0 = fips_Sigma 28 34 39" "sha512_S1 = fips_Sigma 14 18 41"
  by (intro ext; simp add: sha256_R0_def sha256_R1_def sha256_S0_def sha256_S1_def sha512_R0_def
    sha512_R1_def sha512_S0_def sha512_S1_def fips_sigma_def fips_Sigma_def rotr32_word_rotr rotr64_word_rotr)+

declare fips_W.simps [simp del]

lemma fips_W_start: "t < 16 \<Longrightarrow> fips_W s0 s1 m t = m t"
  by (simp add: fips_W.simps)

lemma sha2_schedule_fips:
  "sha2_schedule s0 s1 (16 + k) (map m [0..<16]) = map (fips_W s0 s1 m) [0..<16 + k]"
proof (induction k)
  case 0
  show ?case by (simp add: sha2_schedule_def fips_W_start)
next
  case (Suc k)
  have upt: "[16..<16 + Suc k] = [16..<16 + k] @ [16 + k]" "[0..<16 + Suc k] = [0..<16 + k] @ [16 + k]"
    unfolding add_Suc_right by (rule upt_Suc_append; simp)+
  have "sha2_schedule s0 s1 (16 + Suc k) (map m [0..<16]) =
      (let W = map (fips_W s0 s1 m) [0..<16 + k] in
       W @ [s1 (W ! (16 + k - 2)) + W ! (16 + k - 7) + s0 (W ! (16 + k - 15)) + W ! (16 + k - 16)])"
    unfolding Suc.IH [symmetric] Let_def sha2_schedule_def upt by simp
  also have "\<dots> = map (fips_W s0 s1 m) [0..<16 + k] @ [fips_W s0 s1 m (16 + k)]"
    by (simp add: Let_def fips_W.simps [of s0 s1 m "16 + k"])
  finally show ?case unfolding upt by simp
qed

lemma fips_W_cong: "(\<And>t. t < 16 \<Longrightarrow> m t = m' t) \<Longrightarrow> fips_W s0 s1 m t = fips_W s0 s1 m' t"
proof (induction s0 s1 m t rule: fips_W.induct)
  case (1 s0 s1 m t)
  then show ?case
    by (cases "t < 16") (simp_all add: fips_W_start fips_W.simps [of s0 s1 m t] fips_W.simps [of s0 s1 m' t])
qed

lemma sha256_process_block64_fips:
  assumes "length m = 64"
  shows "sha256_process_block64 m h = fips_sha256_block m h"
proof -
  let ?W = "fips_W sha256_R0 sha256_R1 (be_word 4 m)"
  have "sha2_schedule sha256_R0 sha256_R1 64 (map (be_words_of m) [0..<16]) = map ?W [0..<64]"
    using sha2_schedule_fips [of sha256_R0 sha256_R1 48 "be_words_of m"] fips_W_cong [OF be_words_of_eq [OF assms]]
    by simp
  then show ?thesis
    unfolding sha256_process_block64_def fips_sha256_block_def fips_block_def Let_def sha2_macros
    by (intro arg_cong [where f = "map2 (+) h"] fold_upt_cong) simp
qed

lemma sha512_process_block128_fips:
  assumes "length m = 128"
  shows "sha512_process_block128 m h = fips_sha512_block m h"
proof -
  let ?W = "fips_W sha512_R0 sha512_R1 (be_word 8 m)"
  have "sha2_schedule sha512_R0 sha512_R1 80 (map (be_words64_of m) [0..<16]) = map ?W [0..<80]"
    using sha2_schedule_fips [of sha512_R0 sha512_R1 64 "be_words64_of m"] fips_W_cong [OF be_words64_of_eq [OF assms]]
    by simp
  then show ?thesis
    unfolding sha512_process_block128_def fips_sha512_block_def fips_block_def Let_def sha2_macros
    by (intro arg_cong [where f = "map2 (+) h"] fold_upt_cong) simp
qed
section \<open>The versions of SHA-1 are that of the standard\<close>

declare fips_sha1_W.simps [simp del]

lemma nat_and_15: "x AND 15 = x mod (16 :: nat)"
proof -
  have "mask 4 = (15 :: nat)" by (simp add: mask_eq_exp_minus_1)
  then show ?thesis using take_bit_eq_mask [of 4 x] by (simp add: take_bit_eq_mod)
qed

text \<open>The register step with the source's expressions.\<close>

lemma sha1_choose: "((c XOR d) AND b) XOR d = (b AND c) XOR (NOT b AND d)" for b c d :: u32
  by (rule bit_word_eqI) (auto simp: bit_simps)

lemma sha1_majority: "((b OR c) AND d) OR (b AND c) = (b AND c) XOR (b AND d) XOR (c AND d)" for b c d :: u32
  by (rule bit_word_eqI) (auto simp: bit_simps)

lemma sha1_parity: "c XOR d XOR b = b XOR c XOR (d :: u32)"
  by (simp add: xor.assoc xor.commute xor.left_commute)

lemma fips_sha1_fun_cases:
  "t < 20 \<Longrightarrow> fips_sha1_fun t b c d = ((c XOR d) AND b) XOR d"
  "20 \<le> t \<Longrightarrow> t < 40 \<Longrightarrow> fips_sha1_fun t b c d = c XOR d XOR b"
  "40 \<le> t \<Longrightarrow> t < 60 \<Longrightarrow> fips_sha1_fun t b c d = ((b OR c) AND d) OR (b AND c)"
  "60 \<le> t \<Longrightarrow> fips_sha1_fun t b c d = c XOR d XOR b"
  by (simp_all add: fips_sha1_fun_def sha1_choose sha1_majority sha1_parity)

lemma rconsts_fips: "t < 80 \<Longrightarrow> rconsts ! (t div 20) = fips_sha1_K t"
proof -
  assume "t < 80"
  then consider "t < 20" | "20 \<le> t" "t < 40" | "40 \<le> t" "t < 60" | "60 \<le> t" "t < 80" by linarith
  then show ?thesis
  proof cases
    case 2
    then have "t div 20 = 1" by simp
    with 2 show ?thesis by (simp add: rconsts_def fips_sha1_K_def)
  next
    case 3
    then have "t div 20 = 2" by simp
    with 3 show ?thesis by (simp add: rconsts_def fips_sha1_K_def)
  next
    case 4
    then have "t div 20 = 3" by simp
    with 4 show ?thesis by (simp add: rconsts_def fips_sha1_K_def)
  qed (simp add: rconsts_def fips_sha1_K_def)
qed

lemma sha1_turn_fips:
  "sha1_turn (fips_sha1_fun t b c d) (fips_sha1_W m t) (fips_sha1_K t) (a, b, c, d, e) =
     fips_sha1_step m t (a, b, c, d, e)"
  by (simp add: sha1_turn_def fips_sha1_step_def rotl32_word_rotl add_ac)

text \<open>The window of the last sixteen words, stored twice.\<close>

definition sha1_window :: "bytes \<Rightarrow> nat \<Rightarrow> (nat \<Rightarrow> u32) \<Rightarrow> bool" where
  "sha1_window m t W \<longleftrightarrow> (\<forall>s. s < t \<and> t \<le> s + 16 \<longrightarrow>
     W (s mod 16) = fips_sha1_W m s \<and> W (s mod 16 + 16) = fips_sha1_W m s)"

lemma mod_16_ring:
  assumes "16 \<le> t" "d \<le> (16 :: nat)"
  shows "(t + (16 - d)) mod 16 = (t - d) mod 16"
proof -
  have "t + (16 - d) = (t - d) + 16" using assms by simp
  then show ?thesis by (simp only: mod_add_self2)
qed

lemma mod_16_twice: "x < 32 \<Longrightarrow> x = x mod 16 \<or> x = x mod 16 + (16 :: nat)"
  by (cases "x < 16") (simp_all add: le_mod_geq)

lemma mod_16_back:
  assumes "16 \<le> t" "0 < d" "d \<le> (16 :: nat)"
  shows "t mod 16 + (16 - d) = (t - d) mod 16 \<or> t mod 16 + (16 - d) = (t - d) mod 16 + 16"
proof -
  let ?x = "t mod 16 + (16 - d)"
  have "?x mod 16 = (t - d) mod 16"
    using mod_16_ring [OF assms(1, 3)] by (simp only: mod_add_left_eq)
  moreover have "?x < 32" using assms(2) mod_less_divisor [of 16 t] by linarith
  ultimately show ?thesis using mod_16_twice [of ?x] by (simp only:)
qed

lemma mod_16_other:
  assumes "s < t" "t < s + (16 :: nat)"
  shows "s mod 16 \<noteq> t mod 16"
proof
  assume "s mod 16 = t mod 16"
  then have "16 dvd t - s" using assms by (metis mod_eq_dvd_iff_nat less_imp_le_nat)
  then show False using assms by (auto dest: dvd_imp_le)
qed

lemma sha1_window_get:
  assumes "sha1_window m t W" "16 \<le> t" "0 < d" "d \<le> 16"
  shows "W (t mod 16 + (16 - d)) = fips_sha1_W m (t - d)"
  using assms mod_16_back [OF assms(2-4)] unfolding sha1_window_def by (auto dest!: spec [of _ "t - d"])

lemma sha1_window_put:
  assumes "sha1_window m t W"
  shows "sha1_window m (Suc t) (sha1_put (fips_sha1_W m t) W (t mod 16))"
  unfolding sha1_window_def
proof (intro allI impI)
  fix s
  assume s: "s < Suc t \<and> Suc t \<le> s + 16"
  show "sha1_put (fips_sha1_W m t) W (t mod 16) (s mod 16) = fips_sha1_W m s \<and>
      sha1_put (fips_sha1_W m t) W (t mod 16) (s mod 16 + 16) = fips_sha1_W m s"
  proof (cases "s = t")
    case False
    then have "s mod 16 \<noteq> t mod 16" using s by (intro mod_16_other) auto
    moreover have "s mod 16 < 16" "t mod 16 < 16" by simp_all
    ultimately show ?thesis
      using s False assms by (auto simp: sha1_put_def sha1_window_def)
  qed (simp add: sha1_put_def)
qed

lemma sha1_window_mix:
  assumes "sha1_window m t W" "16 \<le> t"
  shows "sha1_mix W (t mod 16) = sha1_put (fips_sha1_W m t) W (t mod 16)"
  using sha1_window_get [OF assms, of 3] sha1_window_get [OF assms, of 8]
    sha1_window_get [OF assms, of 14] sha1_window_get [OF assms, of 16] assms(2)
  by (simp add: sha1_mix_def fips_sha1_W.simps [of m t] rotl32_word_rotl del: One_nat_def)

lemma sha1_put_same: "sha1_put v W n n = v"
  by (simp add: sha1_put_def)

subsection \<open>Version 1\<close>

fun sha1_at :: "bytes \<Rightarrow> u32 \<times> u32 \<times> u32 \<times> u32 \<times> u32 \<Rightarrow> nat \<Rightarrow> sha1_state \<Rightarrow> bool" where
  "sha1_at m r0 t (W, n, r) \<longleftrightarrow> sha1_window m t W \<and> n = t mod 16 \<and> r = fold (fips_sha1_step m) [0..<t] r0"

lemma funpow_stages:
  "(\<And>j s. j < k \<Longrightarrow> P (t + j) s \<Longrightarrow> P (Suc (t + j)) (g s)) \<Longrightarrow> P t s \<Longrightarrow> P (t + k) ((g ^^ k) s)"
  by (induction k) simp_all

lemma next_index: "(t mod 16 + 1) AND 15 = Suc t mod (16 :: nat)"
  unfolding nat_and_15 by (simp add: mod_Suc_eq)

lemma sha1_load_turn_at:
  assumes "length m = 64" "t < 16" "sha1_at m r0 t s"
  shows "sha1_at m r0 (Suc t) (sha1_load_turn m s)"
proof -
  obtain W n a b c d e where s: "s = (W, n, a, b, c, d, e)" by (cases s)
  have at: "sha1_window m t W" "n = t" "(a, b, c, d, e) = fold (fips_sha1_step m) [0..<t] r0"
    using assms(2, 3) s by auto
  have "be_words_of m t = fips_sha1_W m t"
    using assms by (simp add: be_words_of_eq fips_sha1_W.simps [of m t])
  moreover have "rconsts ! 0 = fips_sha1_K t" using rconsts_fips [of t] assms by simp
  ultimately show ?thesis
    using sha1_window_put [OF at(1)] at assms(2) next_index [of t]
    by (simp add: s sha1_load_turn_def Let_def sha1_put_same sha1_turn_fips
      fips_sha1_fun_cases(1) [of t, symmetric] del: One_nat_def)
qed

lemma sha1_mix_turn_at:
  assumes "16 \<le> t" "t < 80" "sha1_at m r0 t s" "i = t div 20" "\<And>b c d. f b c d = fips_sha1_fun t b c d"
  shows "sha1_at m r0 (Suc t) (sha1_mix_turn f i s)"
proof -
  obtain W n a b c d e where s: "s = (W, n, a, b, c, d, e)" by (cases s)
  have at: "sha1_window m t W" "n = t mod 16" "(a, b, c, d, e) = fold (fips_sha1_step m) [0..<t] r0"
    using assms(3) s by auto
  show ?thesis
    using sha1_window_put [OF at(1)] sha1_window_mix [OF at(1) assms(1)] at(2, 3) next_index [of t]
      rconsts_fips [OF assms(2)] sha1_turn_fips
    by (simp add: s sha1_mix_turn_def Let_def sha1_put_same assms(4, 5) del: One_nat_def)
qed

lemma sha1_mix_stage:
  assumes "sha1_at m r0 t s" "16 \<le> t" "20 * i \<le> t" "t + k \<le> 20 * i + 20" "i < 4"
    and f: "\<And>u b c d. t \<le> u \<Longrightarrow> u < t + k \<Longrightarrow> f b c d = fips_sha1_fun u b c d"
  shows "sha1_at m r0 (t + k) ((sha1_mix_turn f i ^^ k) s)"
proof (rule funpow_stages)
  fix j s
  assume j: "j < k" and at: "sha1_at m r0 (t + j) s"
  have "i = (t + j) div 20"
    using assms(3, 4) j by (intro div_nat_eqI [symmetric]) simp_all
  with j at assms show "sha1_at m r0 (Suc (t + j)) (sha1_mix_turn f i s)"
    by (intro sha1_mix_turn_at) simp_all
qed (rule assms(1))

lemma sha1_small_1_fips:
  assumes "length m = 64"
  shows "sha1_small_1 W0 m h = fips_sha1_block m h"
proof -
  let ?at = "sha1_at m (h ! 0, h ! 1, h ! 2, h ! 3, h ! 4)"
  define s0 :: sha1_state where "s0 = (W0, 0, h ! 0, h ! 1, h ! 2, h ! 3, h ! 4)"
  define s1 where "s1 = (sha1_load_turn m ^^ 16) s0"
  define s2 where "s2 = (sha1_mix_turn (\<lambda>b c d. ((c XOR d) AND b) XOR d) 0 ^^ 4) s1"
  define s3 where "s3 = (sha1_mix_turn (\<lambda>b c d. c XOR d XOR b) 1 ^^ 20) s2"
  define s4 where "s4 = (sha1_mix_turn (\<lambda>b c d. ((b OR c) AND d) OR (b AND c)) 2 ^^ 20) s3"
  define s5 where "s5 = (sha1_mix_turn (\<lambda>b c d. c XOR d XOR b) 3 ^^ 20) s4"
  have "?at 0 s0" by (simp add: s0_def sha1_window_def)
  then have "?at (0 + 16) s1"
    unfolding s1_def by (rule funpow_stages [rotated]) (simp add: sha1_load_turn_at assms)
  then have "?at (16 + 4) s2"
    unfolding s2_def by (intro sha1_mix_stage) (simp_all add: fips_sha1_fun_cases)
  then have "?at (20 + 20) s3"
    unfolding s3_def by (intro sha1_mix_stage) (simp_all add: fips_sha1_fun_cases)
  then have "?at (40 + 20) s4"
    unfolding s4_def by (intro sha1_mix_stage) (simp_all add: fips_sha1_fun_cases)
  then have "?at (60 + 20) s5"
    unfolding s5_def by (intro sha1_mix_stage) (simp_all add: fips_sha1_fun_cases)
  moreover have "sha1_small_1 W0 m h = sha1_add h (snd (snd s5))"
    unfolding sha1_small_1_def Let_def s5_def s4_def s3_def s2_def s1_def s0_def by (simp only: case_prod_beta)
  ultimately show ?thesis by (cases s5) (simp add: fips_sha1_block_def)
qed
subsection \<open>Version 2\<close>

lemma sha1_preload:
  assumes "length m = 64" "k \<le> 16"
  shows "sha1_window m k (fold (\<lambda>i W. sha1_put (be_words_of m i) W i) [0..<k] W0)"
  using assms(2)
proof (induction k)
  case (Suc k)
  then have "be_words_of m k = fips_sha1_W m k" "k mod 16 = k"
    using assms(1) by (simp_all add: be_words_of_eq fips_sha1_W.simps [of m k])
  then show ?case using sha1_window_put [of m k] Suc by simp
qed (simp add: sha1_window_def)

lemma sha1_small_body_at:
  assumes "t < 80" "sha1_window m (max 16 t) W" "n = t mod 16" "r = fold (fips_sha1_step m) [0..<t] r0"
    "sha1_small_body (t div 20) (19 - t mod 20) (W, n, r) = (W', n', r')"
  shows "sha1_window m (max 16 (Suc t)) W' \<and> n' = Suc t mod 16 \<and> r' = fold (fips_sha1_step m) [0..<Suc t] r0"
proof -
  obtain a b c d e where r: "r = (a, b, c, d, e)" by (cases r)
  have k: "rconsts ! (t div 20) = fips_sha1_K t" using rconsts_fips assms(1) .
  have step: "fold (fips_sha1_step m) [0..<Suc t] r0 = fips_sha1_step m t (a, b, c, d, e)"
    using assms(4) r by simp
  show ?thesis
  proof (cases "t < 16")
    case True
    then have "t div 20 = 0" "t mod 20 = t" "t mod 16 = t" "\<not> 19 - t \<le> 3" by simp_all
    moreover have "sha1_turn (((c XOR d) AND b) XOR d) (fips_sha1_W m t) (fips_sha1_K t) (a, b, c, d, e) =
        fips_sha1_step m t (a, b, c, d, e)"
      using sha1_turn_fips [of t b c d m a e] True by (simp add: fips_sha1_fun_cases)
    moreover have "W t = fips_sha1_W m t"
      using assms(2) True by (auto simp: sha1_window_def dest: spec [of _ t])
    ultimately show ?thesis
      using True assms(2, 3, 5) r k step next_index [of t]
      by (auto simp: sha1_small_body_def Let_def simp del: One_nat_def)
  next
    case False
    then have w: "sha1_window m t W" "16 \<le> t" using assms(2) by (simp_all add: max_def)
    let ?W = "sha1_put (fips_sha1_W m t) W (t mod 16)"
    have "sha1_small_body (t div 20) (19 - t mod 20) (W, n, r) =
        (?W, Suc t mod 16, sha1_turn (fips_sha1_fun t b c d) (fips_sha1_W m t) (fips_sha1_K t) (a, b, c, d, e))"
    proof -
      consider "t < 20" | "20 \<le> t" "t < 40" | "40 \<le> t" "t < 60" | "60 \<le> t" using assms(1) by linarith
      then show ?thesis
      proof cases
        case 1
        then have "t div 20 = 0" "19 - t mod 20 \<le> 3" using w by simp_all
        with 1 show ?thesis
          using k r assms(3) sha1_window_mix [OF w] next_index [of t]
          by (simp add: sha1_small_body_def sha1_put_same fips_sha1_fun_cases xor.assoc del: One_nat_def)
      next
        case 2
        then have "t div 20 = 1" by simp
        with 2 show ?thesis
          using k r assms(3) sha1_window_mix [OF w] next_index [of t]
          by (simp add: sha1_small_body_def sha1_put_same fips_sha1_fun_cases xor.assoc del: One_nat_def)
      next
        case 3
        then have "t div 20 = 2" by simp
        with 3 show ?thesis
          using k r assms(3) sha1_window_mix [OF w] next_index [of t]
          by (simp add: sha1_small_body_def sha1_put_same fips_sha1_fun_cases xor.assoc del: One_nat_def)
      next
        case 4
        then have "t div 20 = 3" using assms(1) by simp
        with 4 show ?thesis
          using k r assms(3) sha1_window_mix [OF w] next_index [of t]
          by (simp add: sha1_small_body_def sha1_put_same fips_sha1_fun_cases xor.assoc del: One_nat_def)
      qed
    qed
    then show ?thesis
      using assms(5) sha1_window_put [OF w(1)] w(2) step by (simp add: sha1_turn_fips max_def)
  qed
qed

lemma sha1_loops:
  "fold (\<lambda>i. fold (g i) (rev [0..<20])) [0..<4] s = fold (\<lambda>t. g (t div 20) (19 - t mod 20)) [0..<80] s"
proof -
  have "concat (map (\<lambda>i. map (Pair i) (rev [0..<20])) [0..<4]) =
      map (\<lambda>t. (t div 20, 19 - t mod 20)) [0..<80 :: nat]"
    by code_simp
  then have "fold (case_prod g) (concat (map (\<lambda>i. map (Pair i) (rev [0..<20])) [0..<4])) s =
      fold (case_prod g) (map (\<lambda>t. (t div 20, 19 - t mod 20)) [0..<80]) s"
    by (rule arg_cong)
  then show ?thesis
    by (simp only: fold_fold_concat [symmetric] fold_map comp_def case_prod_conv)
qed

lemma sha1_small_2_fips:
  assumes "length m = 64"
  shows "sha1_small_2 W0 m h = fips_sha1_block m h"
proof -
  let ?r0 = "(h ! 0, h ! 1, h ! 2, h ! 3, h ! 4)"
  define W where "W = fold (\<lambda>i W. sha1_put (be_words_of m i) W i) [0..<16] W0"
  let ?run = "\<lambda>t. fold (\<lambda>t. sha1_small_body (t div 20) (19 - t mod 20)) [0..<t] (W, 0, ?r0)"
  have "case ?run t of (W', n, r) \<Rightarrow> sha1_window m (max 16 t) W' \<and> n = t mod 16 \<and>
      r = fold (fips_sha1_step m) [0..<t] ?r0" if "t \<le> 80" for t
    using that
  proof (induction t)
    case 0
    show ?case using sha1_preload [OF assms, of 16 W0] by (simp add: W_def)
  next
    case (Suc t)
    obtain W1 n1 r1 where run: "?run t = (W1, n1, r1)" by (cases "?run t")
    obtain W2 n2 r2 where body: "sha1_small_body (t div 20) (19 - t mod 20) (W1, n1, r1) = (W2, n2, r2)"
      by (cases "sha1_small_body (t div 20) (19 - t mod 20) (W1, n1, r1)")
    show ?case
      using Suc run body sha1_small_body_at [of t m W1 n1 r1 ?r0 W2 n2 r2] by simp
  qed
  from this [of 80] show ?thesis
    unfolding sha1_small_2_def Let_def sha1_loops W_def [symmetric] fips_sha1_block_def
    by (auto simp: case_prod_beta)
qed

subsection \<open>Version 0\<close>

definition sha1_ring :: "bytes \<Rightarrow> nat \<Rightarrow> (nat \<Rightarrow> u32) \<Rightarrow> bool" where
  "sha1_ring m t W \<longleftrightarrow> (\<forall>s. s < t \<and> t \<le> s + 16 \<longrightarrow> W (s mod 16) = fips_sha1_W m s)"

definition sha1_entry :: "nat \<Rightarrow> sha1_reg \<times> sha1_reg \<times> sha1_reg \<times> sha1_reg \<times> sha1_reg \<times> nat" where
  "sha1_entry t = ([Sa, Se, Sd, Sc, Sb] ! (t mod 5), [Sb, Sa, Se, Sd, Sc] ! (t mod 5),
     [Sc, Sb, Sa, Se, Sd] ! (t mod 5), [Sd, Sc, Sb, Sa, Se] ! (t mod 5), [Se, Sd, Sc, Sb, Sa] ! (t mod 5), t)"

definition sha1_view :: "nat \<Rightarrow> (sha1_reg \<Rightarrow> u32) \<Rightarrow> u32 \<times> u32 \<times> u32 \<times> u32 \<times> u32" where
  "sha1_view t r = (r ([Sa, Se, Sd, Sc, Sb] ! (t mod 5)), r ([Sb, Sa, Se, Sd, Sc] ! (t mod 5)),
     r ([Sc, Sb, Sa, Se, Sd] ! (t mod 5)), r ([Sd, Sc, Sb, Sa, Se] ! (t mod 5)), r ([Se, Sd, Sc, Sb, Sa] ! (t mod 5)))"

lemma sha1_ring_step:
  assumes "length m = 64" "sha1_ring m t W"
  shows "(if t \<le> 15 then W(t AND 15 := be_words_of m t)
      else W(t AND 15 := rotl32 (W ((t + 13) AND 15) XOR W ((t + 8) AND 15) XOR W ((t + 2) AND 15) XOR W (t AND 15)) 1))
    = W(t mod 16 := fips_sha1_W m t)"
proof (cases "t \<le> 15")
  case True
  then show ?thesis
    using assms by (simp add: nat_and_15 be_words_of_eq fips_sha1_W.simps [of m t])
next
  case False
  then have get: "0 < d \<Longrightarrow> d \<le> 16 \<Longrightarrow> W ((t + (16 - d)) mod 16) = fips_sha1_W m (t - d)" for d
    using assms(2) mod_16_ring [of t d] by (simp add: sha1_ring_def)
  show ?thesis
    using False get [of 3] get [of 8] get [of 14] get [of 16]
    by (simp add: nat_and_15 fips_sha1_W.simps [of m t] rotl32_word_rotl del: One_nat_def)
qed

lemma sha1_ring_put: "sha1_ring m t W \<Longrightarrow> sha1_ring m (Suc t) (W(t mod 16 := fips_sha1_W m t))"
  unfolding sha1_ring_def using mod_16_other [of _ t] by (auto simp: less_Suc_eq)

lemma sha1_view_OP:
  assumes "t < 80" "length m = 64" "sha1_ring m t W" "\<And>b c d. f b c d = fips_sha1_fun t b c d"
    "sha1_OP f m (sha1_entry t) (W, r) = (W', r')"
  shows "sha1_ring m (Suc t) W' \<and> sha1_view (Suc t) r' = fips_sha1_step m t (sha1_view t r)"
proof -
  obtain A B C D E where e: "sha1_entry t = (A, B, C, D, E, t)" by (simp add: sha1_entry_def)
  let ?r = "r(E := r E + (f (r B) (r C) (r D) + fips_sha1_W m t + rotl32 (r A) 5 + rconsts ! (t div 20)))"
  have W': "W' = W(t mod 16 := fips_sha1_W m t)" and r': "r' = ?r(B := rotl32 (?r B) 30)"
    using assms(5) unfolding e sha1_OP.simps sha1_ring_step [OF assms(2, 3)]
    unfolding nat_and_15 Let_def fun_upd_same by (simp_all only: prod.inject)
  have "t mod 5 < 5" by simp
  then consider "t mod 5 = 0" | "t mod 5 = 1" | "t mod 5 = 2" | "t mod 5 = 3" | "t mod 5 = 4" by linarith
  then have "sha1_view (Suc t) r' = fips_sha1_step m t (sha1_view t r)"
    using e unfolding r' rconsts_fips [OF assms(1)] assms(4)
    by cases (auto simp: sha1_entry_def sha1_view_def fips_sha1_step_def mod_Suc rotl32_word_rotl add_ac)
  then show ?thesis using W' sha1_ring_put [OF assms(3)] by simp
qed

lemma sha1_view_fold:
  assumes "length m = 64" "t + k \<le> 80" "sha1_ring m t W"
    "\<And>u b c d. t \<le> u \<Longrightarrow> u < t + k \<Longrightarrow> f b c d = fips_sha1_fun u b c d"
    "fold (sha1_OP f m) (map sha1_entry [t..<t + k]) (W, r) = (W', r')"
  shows "sha1_ring m (t + k) W' \<and> sha1_view (t + k) r' = fold (fips_sha1_step m) [t..<t + k] (sha1_view t r)"
  using assms(2, 4, 5)
proof (induction k arbitrary: W' r')
  case (Suc k)
  obtain W1 r1 where run: "fold (sha1_OP f m) (map sha1_entry [t..<t + k]) (W, r) = (W1, r1)"
    by (cases "fold (sha1_OP f m) (map sha1_entry [t..<t + k]) (W, r)")
  have IH: "sha1_ring m (t + k) W1 \<and> sha1_view (t + k) r1 = fold (fips_sha1_step m) [t..<t + k] (sha1_view t r)"
    using Suc.prems(1, 2) by (intro Suc.IH [OF _ _ run]) simp_all
  have "sha1_OP f m (sha1_entry (t + k)) (W1, r1) = (W', r')"
    using Suc.prems(3) run by simp
  then have "sha1_ring m (Suc (t + k)) W' \<and> sha1_view (Suc (t + k)) r' = fips_sha1_step m (t + k) (sha1_view (t + k) r1)"
    using Suc.prems(1, 2) IH assms(1) by (intro sha1_view_OP [of _ _ W1 f r1]) simp_all
  then show ?case using IH by simp
qed (use assms(3) in simp)

lemma sha1_OP20_entries:
  "sha1_OP20 0 = map sha1_entry [0..<0 + 20]" "sha1_OP20 20 = map sha1_entry [20..<20 + 20]"
  "sha1_OP20 40 = map sha1_entry [40..<40 + 20]" "sha1_OP20 60 = map sha1_entry [60..<60 + 20]"
  by code_simp+

lemma sha1_small_0_fips:
  assumes "length m = 64"
  shows "sha1_small_0 W0 m h = fips_sha1_block m h"
proof -
  let ?r0 = "(h ! 0, h ! 1, h ! 2, h ! 3, h ! 4)"
  obtain W1 r1 where s1: "fold (sha1_OP (\<lambda>b c d. ((c XOR d) AND b) XOR d) m) (sha1_OP20 0) (W0, sha1_regs h) = (W1, r1)"
    by (meson surj_pair)
  obtain W2 r2 where s2: "fold (sha1_OP (\<lambda>b c d. c XOR d XOR b) m) (sha1_OP20 20) (W1, r1) = (W2, r2)"
    by (meson surj_pair)
  obtain W3 r3 where s3: "fold (sha1_OP (\<lambda>b c d. ((b OR c) AND d) OR (b AND c)) m) (sha1_OP20 40) (W2, r2) = (W3, r3)"
    by (meson surj_pair)
  obtain W4 r4 where s4: "fold (sha1_OP (\<lambda>b c d. c XOR d XOR b) m) (sha1_OP20 60) (W3, r3) = (W4, r4)"
    by (meson surj_pair)
  have ring: "sha1_ring m 0 W0" by (simp add: sha1_ring_def)
  have v1: "sha1_ring m (0 + 20) W1 \<and> sha1_view (0 + 20) r1 = fold (fips_sha1_step m) [0..<0 + 20] (sha1_view 0 (sha1_regs h))"
    using s1 by (intro sha1_view_fold [OF assms _ ring]) (simp_all add: fips_sha1_fun_cases sha1_OP20_entries)
  then have ring: "sha1_ring m 20 W1" by simp
  have v2: "sha1_ring m (20 + 20) W2 \<and> sha1_view (20 + 20) r2 = fold (fips_sha1_step m) [20..<20 + 20] (sha1_view 20 r1)"
    using s2 by (intro sha1_view_fold [OF assms _ ring]) (simp_all add: fips_sha1_fun_cases sha1_OP20_entries)
  then have ring: "sha1_ring m 40 W2" by simp
  have v3: "sha1_ring m (40 + 20) W3 \<and> sha1_view (40 + 20) r3 = fold (fips_sha1_step m) [40..<40 + 20] (sha1_view 40 r2)"
    using s3 by (intro sha1_view_fold [OF assms _ ring]) (simp_all add: fips_sha1_fun_cases sha1_OP20_entries)
  then have ring: "sha1_ring m 60 W3" by simp
  have v4: "sha1_ring m (60 + 20) W4 \<and> sha1_view (60 + 20) r4 = fold (fips_sha1_step m) [60..<60 + 20] (sha1_view 60 r3)"
    using s4 by (intro sha1_view_fold [OF assms _ ring]) (simp_all add: fips_sha1_fun_cases sha1_OP20_entries)
  have "[0..<80] = [0..<20] @ [20..<40] @ [40..<60] @ [60..<80 :: nat]" by code_simp
  then have "sha1_view 80 r4 = fold (fips_sha1_step m) [0..<80] ?r0"
    using v1 v2 v3 v4 by (simp add: sha1_view_def sha1_regs_def)
  then show ?thesis
    unfolding sha1_small_0_def Let_def s1 s2 s3 s4 fips_sha1_block_def by (simp add: sha1_view_def)
qed

lemma sha1_process_block64_fips:
  "length m = 64 \<Longrightarrow> sha1_process_block64 small W0 m h = fips_sha1_block m h"
  by (simp add: sha1_process_block64_def sha1_small_0_fips sha1_small_1_fips sha1_small_2_fips)
section \<open>Where the constants come from\<close>

text \<open>
  \<open>c\<close> is the \<open>e\<close>-th root of \<open>p\<close>, cut off after \<open>k\<close> binary places, where \<open>s\<close> is \<open>2 ^ (k * e)\<close>.
\<close>

definition root_bits :: "nat \<Rightarrow> int \<Rightarrow> int \<Rightarrow> int \<Rightarrow> bool" where
  "root_bits e s p c \<longleftrightarrow> c ^ e \<le> p * s \<and> p * s < (c + 1) ^ e"

text \<open>A number below 23 * 23 without a smaller divisor among the primes up to 19 is a prime.\<close>

definition first_primes :: "int \<Rightarrow> int list" where
  "first_primes n = filter (\<lambda>p. \<forall>d \<in> set [2, 3, 5, 7, 11, 13, 17, 19]. d < p \<longrightarrow> p mod d \<noteq> 0) [2..n]"

definition cube_root_floor :: "int \<Rightarrow> int" where
  "cube_root_floor p = (if p < 8 then 1 else if p < 27 then 2 else if p < 64 then 3 else if p < 125 then 4
     else if p < 216 then 5 else if p < 343 then 6 else 7)"

lemma sha_K_cube_roots:
  "list_all2 (\<lambda>p c. root_bits 3 0x1000000000000000000000000000000000000000000000000 p (cube_root_floor p * 0x10000000000000000 + uint c))
     (first_primes 409) sha_K"
  by code_simp

lemma sha2_initial_square_roots:
  "list_all2 (\<lambda>p c. \<exists>q \<in> set [1..4]. root_bits 2 0x100000000000000000000000000000000 p (q * 0x10000000000000000 + uint c)) (first_primes 19)
     (map2 (\<lambda>hi lo. push_bit 32 (ucast hi :: u64) + ucast lo) (drop 2 init256) (drop 2 init512_lo))"
  by code_simp

lemma sha1_rconsts_square_roots:
  "list_all2 (\<lambda>p c. root_bits 2 0x1000000000000000 p (uint c)) [2, 3, 5, 10] rconsts"
  by code_simp

end
