(* ===== verification/Bb_Sha3.thy ===== *)
theory Bb_Sha3
  imports Bb_Sha
begin

text \<open>
  SHA-3 in \<open>src/busybox/libbb/hash_md5_sha.c\<close> for a 64-bit little-endian host, with both values of
  \<open>SHA3_SMALL\<close>: the permutation of the state and the absorption of data. The permutation is compared with
  Keccak-f[1600] of FIPS 202 on its five by five lanes, the absorption with the sponge that takes whole blocks.
\<close>

section \<open>Definitions\<close>

definition rotl64 :: "u64 \<Rightarrow> nat \<Rightarrow> u64" where
  "rotl64 x n = push_bit n x OR drop_bit (64 - n) x"

definition IOTA_CONST :: "u16 list" where
  "IOTA_CONST =
    [0x0001, 0x8082, 0x808a, 0x8000, 0x808b, 0x0001, 0x8081, 0x8009, 0x008a, 0x0088, 0x8009, 0x000a,
     0x808b, 0x008b, 0x8089, 0x8003, 0x8002, 0x0080, 0x800a, 0x000a, 0x8081, 0x8080, 0x0001, 0x8008]"

definition IOTA_CONST_bit63 :: u32 where
  "IOTA_CONST_bit63 = 0x3307dd00"

definition IOTA_CONST_bit31 :: u32 where
  "IOTA_CONST_bit31 = 0x16381b00"

definition ROT_CONST :: "nat list" where
  "ROT_CONST =
    [1, 3, 6, 10, 15, 21, 28, 36, 45, 55, 2, 14,
     27, 41, 56, 8, 25, 43, 62, 18, 39, 61, 20, 44]"

definition PI_LANE :: "nat list" where
  "PI_LANE =
    [10, 7, 11, 17, 18, 3, 5, 16, 8, 21, 24, 4,
     15, 23, 19, 13, 12, 2, 20, 14, 22, 9, 6, 1]"

definition sha3_theta :: "u64 list \<Rightarrow> u64 list" where
  "sha3_theta state =
     (let BC = map (\<lambda>x. state ! x XOR state ! (x + 5) XOR state ! (x + 10) XOR state ! (x + 15) XOR state ! (x + 20))
                 [0, 1, 2, 3, 4];
          BC = BC @ BC
      in fold (\<lambda>x st. let temp = BC ! (x + 4) XOR rotl64 (BC ! (x + 1)) 1 in
           st[x := st ! x XOR temp, x + 5 := st ! (x + 5) XOR temp, x + 10 := st ! (x + 10) XOR temp,
              x + 15 := st ! (x + 15) XOR temp, x + 20 := st ! (x + 20) XOR temp]) [0, 1, 2, 3, 4] state)"

definition RhoPi_once :: "nat \<Rightarrow> u64 list \<times> u64 \<Rightarrow> u64 list \<times> u64" where
  "RhoPi_once x s = (case s of (state, t1) \<Rightarrow>
     let t0 = state ! (PI_LANE ! x) in (state[PI_LANE ! x := rotl64 t1 (ROT_CONST ! x)], t0))"

definition RhoPi_twice :: "nat \<Rightarrow> u64 list \<times> u64 \<Rightarrow> u64 list \<times> u64" where
  "RhoPi_twice x s = (case s of (state, t1) \<Rightarrow>
     let t0 = state ! (PI_LANE ! x);
         state = state[PI_LANE ! x := rotl64 t1 (ROT_CONST ! x)];
         t1 = state ! (PI_LANE ! (x + 1));
         state = state[PI_LANE ! (x + 1) := rotl64 t0 (ROT_CONST ! (x + 1))]
     in (state, t1))"

definition sha3_rho_pi :: "bool \<Rightarrow> u64 list \<Rightarrow> u64 list" where
  "sha3_rho_pi SHA3_SMALL state =
     (if SHA3_SMALL then fst (fold RhoPi_once [0..<24] (state, state ! 1))
      else fst (fold RhoPi_twice [0, 2, 4, 6, 8, 10, 12, 14, 16, 18, 20, 22] (state, state ! 1)))"

definition sha3_chi :: "u64 list \<Rightarrow> u64 list" where
  "sha3_chi state = fold (\<lambda>x st.
     let BC0 = st ! (x + 0); BC1 = st ! (x + 1); BC2 = st ! (x + 2);
         st = st[x + 0 := BC0 XOR (NOT BC1 AND BC2)];
         BC3 = st ! (x + 3);
         st = st[x + 1 := BC1 XOR (NOT BC2 AND BC3)];
         BC4 = st ! (x + 4);
         st = st[x + 2 := BC2 XOR (NOT BC3 AND BC4)];
         st = st[x + 3 := BC3 XOR (NOT BC4 AND BC0)]
     in st[x + 4 := BC4 XOR (NOT BC0 AND BC1)]) [0, 5, 10, 15, 20] state"

definition sha3_iota_word :: "nat \<Rightarrow> u64" where
  "sha3_iota_word round = ucast (IOTA_CONST ! round)
     OR ucast (push_bit round IOTA_CONST_bit31 AND 0x80000000)
     OR push_bit 32 (ucast (push_bit round IOTA_CONST_bit63 AND 0x80000000))"

definition sha3_iota :: "nat \<Rightarrow> u64 list \<Rightarrow> u64 list" where
  "sha3_iota round state = state[0 := state ! 0 XOR sha3_iota_word round]"

definition sha3_process_block72 :: "bool \<Rightarrow> u64 list \<Rightarrow> u64 list" where
  "sha3_process_block72 SHA3_SMALL state =
     fold (\<lambda>round st. sha3_iota round (sha3_chi (sha3_rho_pi SHA3_SMALL (sha3_theta st)))) [0..<24] state"

record sha3_ctx =
  state :: "u64 list"
  bytes_queued :: nat
  input_block_bytes :: nat

definition sha3_begin :: sha3_ctx where
  "sha3_begin = \<lparr>state = replicate 25 0, bytes_queued = 0, input_block_bytes = (1600 - 512 * 2) div 8\<rparr>"

text \<open>The statement \<open>buf[i] ^= b\<close> on the bytes of the state.\<close>

definition xor_byte :: "u64 list \<Rightarrow> nat \<Rightarrow> u8 \<Rightarrow> u64 list" where
  "xor_byte st i b = st[i div 8 := st ! (i div 8) XOR push_bit (8 * (i mod 8)) (ucast b)]"

fun xor_bytes :: "u64 list \<Rightarrow> nat \<Rightarrow> bytes \<Rightarrow> u64 list" where
  "xor_bytes st i [] = st"
| "xor_bytes st i (b # bs) = xor_bytes (xor_byte st i b) (Suc i) bs"

text \<open>
  The loop of the small version. Its bound is the size of a block, which is positive in every context.
\<close>

function sha3_small_loop :: "nat \<Rightarrow> nat \<Rightarrow> bytes \<Rightarrow> u64 list \<Rightarrow> u64 list \<times> nat" where
  "sha3_small_loop n bufpos data st =
     (let remaining = min (n - bufpos) (length data);
          st = xor_bytes st bufpos (take remaining data)
      in if n = 0 \<or> bufpos + remaining \<noteq> n then (st, bufpos + remaining)
         else sha3_small_loop n 0 (drop remaining data) (sha3_process_block72 True st))"
  by pat_completeness auto
termination
  by (relation "measures [\<lambda>(n, bufpos, data, st). length data, \<lambda>(n, bufpos, data, st). bufpos]") auto

text \<open>The three loops of the fast version.\<close>

fun sha3_queue_loop :: "nat \<Rightarrow> nat \<Rightarrow> bytes \<Rightarrow> u64 list \<Rightarrow> u64 list \<times> nat \<times> bytes" where
  "sha3_queue_loop n bufpos [] st = (st, bufpos, [])"
| "sha3_queue_loop n bufpos (b # data) st =
     (let st = xor_byte st bufpos b in
      if Suc bufpos = n then (sha3_process_block72 False st, 0, data)
      else sha3_queue_loop n (Suc bufpos) data st)"

definition xor_longs :: "u64 list \<Rightarrow> nat \<Rightarrow> bytes \<Rightarrow> u64 list" where
  "xor_longs st count data =
     fold (\<lambda>i st. st[i := st ! i XOR un_le64 (take 8 (drop (8 * i) data))]) [0..<count] st"

function sha3_block_loop :: "nat \<Rightarrow> bytes \<Rightarrow> u64 list \<Rightarrow> u64 list \<times> bytes" where
  "sha3_block_loop n data st =
     (if n = 0 \<or> length data < n then (st, data)
      else sha3_block_loop n (drop n data) (sha3_process_block72 False (xor_longs st (n div 8) data)))"
  by pat_completeness auto
termination
  by (relation "measure (\<lambda>(n, data, st). length data)") auto

definition sha3_hash :: "bool \<Rightarrow> sha3_ctx \<Rightarrow> bytes \<Rightarrow> sha3_ctx" where
  "sha3_hash SHA3_SMALL ctx data =
     (if SHA3_SMALL then
        (let (st, bufpos) = sha3_small_loop (input_block_bytes ctx) (bytes_queued ctx) data (state ctx)
         in ctx\<lparr>state := st, bytes_queued := bufpos\<rparr>)
      else
        (let (st, bufpos, data) =
               (if bytes_queued ctx \<noteq> 0 then sha3_queue_loop (input_block_bytes ctx) (bytes_queued ctx) data (state ctx)
                else (state ctx, bytes_queued ctx, data));
             (st, data) = sha3_block_loop (input_block_bytes ctx) data st
         in ctx\<lparr>state := xor_bytes st bufpos data, bytes_queued := bufpos + length data\<rparr>))"

definition sha3_end :: "bool \<Rightarrow> sha3_ctx \<Rightarrow> bytes" where
  "sha3_end SHA3_SMALL ctx =
     (let st = xor_byte (state ctx) (bytes_queued ctx) 6;
          st = xor_byte st (input_block_bytes ctx - 1) 0x80
      in take 64 (concat (map le64 (sha3_process_block72 SHA3_SMALL st))))"

subsection \<open>FIPS 202\<close>

type_synonym lanes = "nat \<Rightarrow> nat \<Rightarrow> u64"

definition lanes_of :: "u64 list \<Rightarrow> lanes" where
  "lanes_of st x y = st ! (5 * y + x)"

definition of_lanes :: "lanes \<Rightarrow> u64 list" where
  "of_lanes A = concat (map (\<lambda>y. map (\<lambda>x. A x y) [0, 1, 2, 3, 4]) [0, 1, 2, 3, 4])"

definition fips_theta :: "lanes \<Rightarrow> lanes" where
  "fips_theta A x y =
     (let C = (\<lambda>x. A x 0 XOR A x 1 XOR A x 2 XOR A x 3 XOR A x 4)
      in A x y XOR (C ((x + 4) mod 5) XOR word_rotl 1 (C ((x + 1) mod 5))))"

text \<open>The offsets are found by the walk of the standard; a lane that is not met is not turned.\<close>

fun rho_walk :: "nat \<Rightarrow> nat \<Rightarrow> nat \<Rightarrow> nat \<Rightarrow> ((nat \<times> nat) \<times> nat) list" where
  "rho_walk 0 t x y = []"
| "rho_walk (Suc k) t x y = ((x, y), (t + 1) * (t + 2) div 2 mod 64) # rho_walk k (Suc t) y ((2 * x + 3 * y) mod 5)"

definition rho_offset :: "nat \<Rightarrow> nat \<Rightarrow> nat" where
  "rho_offset x y = (case map_of (rho_walk 24 0 1 0) (x, y) of None \<Rightarrow> 0 | Some n \<Rightarrow> n)"

definition fips_rho :: "lanes \<Rightarrow> lanes" where
  "fips_rho A x y = word_rotl (rho_offset x y) (A x y)"

definition fips_pi :: "lanes \<Rightarrow> lanes" where
  "fips_pi A x y = A ((x + 3 * y) mod 5) x"

definition fips_chi :: "lanes \<Rightarrow> lanes" where
  "fips_chi A x y = A x y XOR (NOT (A ((x + 1) mod 5) y) AND A ((x + 2) mod 5) y)"

text \<open>The round constants come from a shift register of eight bits.\<close>

definition rc_step :: "bool list \<Rightarrow> bool list" where
  "rc_step R = (let R = False # R; r = R ! 8 in
     take 8 (R[0 := (R ! 0 \<noteq> r), 4 := (R ! 4 \<noteq> r), 5 := (R ! 5 \<noteq> r), 6 := (R ! 6 \<noteq> r)]))"

definition fips_rc :: "nat \<Rightarrow> bool" where
  "fips_rc t = ((rc_step ^^ (t mod 255)) [True, False, False, False, False, False, False, False]) ! 0"

definition fips_RC :: "nat \<Rightarrow> u64" where
  "fips_RC ir = fold (\<lambda>j w. if fips_rc (j + 7 * ir) then set_bit (2 ^ j - 1) w else w) [0..<7] 0"

definition fips_iota :: "nat \<Rightarrow> lanes \<Rightarrow> lanes" where
  "fips_iota ir A x y = (if x = 0 \<and> y = 0 then A x y XOR fips_RC ir else A x y)"

definition keccak_round :: "nat \<Rightarrow> u64 list \<Rightarrow> u64 list" where
  "keccak_round ir st = of_lanes (fips_iota ir (fips_chi (fips_pi (fips_rho (fips_theta (lanes_of st))))))"

definition keccak_f :: "u64 list \<Rightarrow> u64 list" where
  "keccak_f st = fold keccak_round [0..<24] st"

text \<open>The sponge: whole blocks are added to the state and the state is permuted.\<close>

definition keccak_absorb :: "bytes \<Rightarrow> u64 list \<Rightarrow> u64 list" where
  "keccak_absorb block st = keccak_f (xor_longs st (length block div 8) block)"

definition sha3_padded :: "nat \<Rightarrow> bytes \<Rightarrow> bytes" where
  "sha3_padded n m =
     (let k = n - length m mod n
      in if k = 1 then m @ [0x86] else m @ [6] @ replicate (k - 2) 0 @ [0x80])"

definition fips_sha3 :: "nat \<Rightarrow> bytes \<Rightarrow> bytes" where
  "fips_sha3 n m = concat (map le64 (hash_blocks n keccak_absorb (sha3_padded n m) (replicate 25 0)))"

section \<open>The permutation is Keccak-f[1600]\<close>

lemma rotl64_word_rotl: "0 < n \<Longrightarrow> n < 64 \<Longrightarrow> rotl64 x n = word_rotl n x"
proof -
  assume n: "0 < n" "n < 64"
  then have "rotl64 x n = word_rotr (64 - n) x"
    using rotr_word_rotr [of "64 - n" x] by (simp add: rotl64_def or.commute)
  also have "\<dots> = word_rotl n x"
    using n by (intro bit_word_eqI) (simp add: bit_word_rotr_iff bit_word_rotl_iff)
  finally show ?thesis .
qed

lemma list_length_25:
  assumes "length xs = 25"
  obtains a0 a1 a2 a3 a4 a5 a6 a7 a8 a9 a10 a11 a12 a13 a14 a15 a16 a17 a18 a19 a20 a21 a22 a23 a24 where "xs = [a0, a1, a2, a3, a4, a5, a6, a7, a8, a9, a10, a11, a12, a13, a14, a15, a16, a17, a18, a19, a20, a21, a22, a23, a24]"
proof -
  have "xs = map ((!) xs) [0..<25]" using map_nth [of xs] assms by simp
  also have "[0..<25] = [0, 1, 2, 3, 4, 5, 6, 7, 8, 9, 10, 11, 12, 13, 14, 15, 16, 17, 18, 19, 20, 21, 22, 23, 24 :: nat]"
    by code_simp
  finally show ?thesis unfolding list.map by (rule that)
qed

lemma length_of_lanes [simp]: "length (of_lanes A) = 25"
  by (simp add: of_lanes_def)

lemma sha3_theta_fips: "length st = 25 \<Longrightarrow> sha3_theta st = of_lanes (fips_theta (lanes_of st))"
  by (erule list_length_25)
    (simp add: sha3_theta_def of_lanes_def fips_theta_def lanes_of_def Let_def rotl64_word_rotl)

lemma rotl_0: "word_rotl 0 (x :: u64) = x"
  by (rule bit_word_eqI) (simp add: bit_word_rotl_iff)

lemma rho_walk_table: "rho_walk 24 0 1 0 =
    [((1, 0), 1), ((0, 2), 3), ((2, 1), 6), ((1, 2), 10), ((2, 3), 15), ((3, 3), 21),
     ((3, 0), 28), ((0, 1), 36), ((1, 3), 45), ((3, 1), 55), ((1, 4), 2), ((4, 4), 14),
     ((4, 0), 27), ((0, 3), 41), ((3, 4), 56), ((4, 3), 8), ((3, 2), 25), ((2, 2), 43),
     ((2, 0), 62), ((0, 4), 18), ((4, 2), 39), ((2, 4), 61), ((4, 1), 20), ((1, 1), 44)]"
  by code_simp

lemma rho_offsets:
  "rho_offset 0 0 = 0" "rho_offset 1 0 = 1" "rho_offset 2 0 = 62" "rho_offset 3 0 = 28" "rho_offset 4 0 = 27"
  "rho_offset 0 1 = 36" "rho_offset 1 1 = 44" "rho_offset 2 1 = 6" "rho_offset 3 1 = 55" "rho_offset 4 1 = 20"
  "rho_offset 0 2 = 3" "rho_offset 1 2 = 10" "rho_offset 2 2 = 43" "rho_offset 3 2 = 25" "rho_offset 4 2 = 39"
  "rho_offset 0 3 = 41" "rho_offset 1 3 = 45" "rho_offset 2 3 = 15" "rho_offset 3 3 = 21" "rho_offset 4 3 = 8"
  "rho_offset 0 4 = 18" "rho_offset 1 4 = 2" "rho_offset 2 4 = 61" "rho_offset 3 4 = 56" "rho_offset 4 4 = 14"
  unfolding rho_offset_def rho_walk_table by simp_all

lemma RhoPi_twice_once: "RhoPi_twice x = RhoPi_once (Suc x) \<circ> RhoPi_once x"
  by (rule ext) (simp add: RhoPi_twice_def RhoPi_once_def Let_def split: prod.split)

lemma sha3_rho_pi_versions: "sha3_rho_pi small st = sha3_rho_pi True st"
proof -
  have "[0..<24] = [0, Suc 0, 2, Suc 2, 4, Suc 4, 6, Suc 6, 8, Suc 8, 10, Suc 10, 12, Suc 12, 14, Suc 14,
      16, Suc 16, 18, Suc 18, 20, Suc 20, 22, Suc 22]"
    by code_simp
  then have "fold RhoPi_once [0..<24] s = fold RhoPi_twice [0, 2, 4, 6, 8, 10, 12, 14, 16, 18, 20, 22] s" for s
    by (simp only: fold_simps RhoPi_twice_once comp_apply)
  then show ?thesis by (simp add: sha3_rho_pi_def)
qed

lemma sha3_rho_pi_fips:
  assumes "length st = 25"
  shows "sha3_rho_pi small st = of_lanes (fips_pi (fips_rho (lanes_of st)))"
proof -
  have upt: "[0..<24] = [0, 1, 2, 3, 4, 5, 6, 7, 8, 9, 10, 11, 12, 13, 14, 15, 16, 17, 18, 19, 20, 21, 22, 23 :: nat]"
    by code_simp
  show ?thesis
    unfolding sha3_rho_pi_versions [of small]
    by (rule list_length_25 [OF assms])
      (simp add: sha3_rho_pi_def upt RhoPi_once_def PI_LANE_def ROT_CONST_def of_lanes_def fips_pi_def fips_rho_def
        lanes_of_def rho_offsets [unfolded One_nat_def] rotl64_word_rotl rotl_0
        numeral_2_eq_2 [symmetric])
qed

lemma sha3_chi_fips: "length st = 25 \<Longrightarrow> sha3_chi st = of_lanes (fips_chi (lanes_of st))"
  by (erule list_length_25)
    (simp add: sha3_chi_def of_lanes_def fips_chi_def lanes_of_def Let_def)

text \<open>The output of the shift register, computed once.\<close>

fun rc_outputs :: "nat \<Rightarrow> bool list \<Rightarrow> bool list" where
  "rc_outputs 0 R = []"
| "rc_outputs (Suc n) R = R ! 0 # rc_outputs n (rc_step R)"

lemma rc_outputs_nth: "t < n \<Longrightarrow> rc_outputs n R ! t = (rc_step ^^ t) R ! 0"
  by (induction n R arbitrary: t rule: rc_outputs.induct) (auto simp: nth_Cons funpow_swap1 split: nat.split)

definition rc_table :: "bool list" where
  "rc_table =
    [True, False, False, False, False, False, False, False, True, False, True, True, False, False,
     False, True, True, True, True, False, True, False, False, False, False, True, True, True,
     True, True, True, True, True, False, False, True, False, False, False, False, True, False,
     True, False, False, True, True, True, True, True, False, True, False, True, False, True,
     False, True, True, True, False, False, False, False, False, True, True, False, False, False,
     True, False, True, False, True, True, False, False, True, True, False, False, True, False,
     True, True, True, True, True, True, False, True, True, True, True, False, False, True,
     True, False, True, True, True, False, True, True, True, False, False, True, False, True,
     False, True, False, False, True, False, True, False, False, False, True, False, False, True,
     False, True, True, False, True, False, False, False, True, True, False, False, True, True,
     True, False, False, True, True, True, True, False, False, False, True, True, False, True,
     True, False, False, False, False, True, False, False, False, True, False, True, True, True]"

lemma rc_table_outputs: "rc_outputs 168 [True, False, False, False, False, False, False, False] = rc_table"
  by code_simp

lemma fips_rc_table: "t < 168 \<Longrightarrow> fips_rc t = rc_table ! t"
  unfolding rc_table_outputs [symmetric] by (simp add: fips_rc_def rc_outputs_nth)

lemma iota_words_table:
  "\<forall>i \<in> set [0..<24]. sha3_iota_word i =
     fold (\<lambda>j w. if rc_table ! (j + 7 * i) then set_bit (2 ^ j - 1) w else w) [0..<7] 0"
  by code_simp

lemma sha3_iota_words: "i < 24 \<Longrightarrow> sha3_iota_word i = fips_RC i"
proof -
  assume i: "i < 24"
  then have "fips_RC i = fold (\<lambda>j w. if rc_table ! (j + 7 * i) then set_bit (2 ^ j - 1) w else w) [0..<7] 0"
    unfolding fips_RC_def by (intro fold_upt_cong) (simp add: fips_rc_table)
  then show ?thesis using iota_words_table i by simp
qed

lemma sha3_iota_fips:
  "length st = 25 \<Longrightarrow> i < 24 \<Longrightarrow> sha3_iota i st = of_lanes (fips_iota i (lanes_of st))"
  using sha3_iota_words
  by (elim list_length_25) (simp add: sha3_iota_def of_lanes_def fips_iota_def lanes_of_def)

text \<open>Each step looks at lanes with coordinates below five only.\<close>

lemma lanes_roundtrip:
  "of_lanes (fips_pi (fips_rho (lanes_of (of_lanes A)))) = of_lanes (fips_pi (fips_rho A))"
  "of_lanes (fips_chi (lanes_of (of_lanes A))) = of_lanes (fips_chi A)"
  "of_lanes (fips_iota i (lanes_of (of_lanes A))) = of_lanes (fips_iota i A)"
  by (simp_all add: of_lanes_def lanes_of_def fips_pi_def fips_rho_def fips_chi_def fips_iota_def
    numeral_2_eq_2 [symmetric])

lemma sha3_round_fips:
  assumes "length st = 25" "i < 24"
  shows "sha3_iota i (sha3_chi (sha3_rho_pi small (sha3_theta st))) = keccak_round i st"
  by (simp only: keccak_round_def sha3_theta_fips assms sha3_rho_pi_fips sha3_chi_fips sha3_iota_fips
    length_of_lanes lanes_roundtrip)

lemma length_keccak_round [simp]: "length (keccak_round i st) = 25"
  by (simp add: keccak_round_def)

lemma sha3_rounds_fips:
  "length st = 25 \<Longrightarrow> n \<le> 24 \<Longrightarrow>
     fold (\<lambda>i st. sha3_iota i (sha3_chi (sha3_rho_pi small (sha3_theta st)))) [0..<n] st = fold keccak_round [0..<n] st \<and>
     length (fold keccak_round [0..<n] st) = 25"
  by (induction n) (simp_all add: sha3_round_fips)

lemma sha3_process_block72_fips: "length st = 25 \<Longrightarrow> sha3_process_block72 small st = keccak_f st"
  using sha3_rounds_fips [of st 24 small] by (simp add: sha3_process_block72_def keccak_f_def)

lemma length_keccak_f [simp]: "length st = 25 \<Longrightarrow> length (keccak_f st) = 25"
  using sha3_rounds_fips [of st 24] by (simp add: keccak_f_def)
section \<open>Absorption\<close>

lemma length_xor_byte [simp]: "length (xor_byte st i b) = length st"
  by (simp add: xor_byte_def)

lemma length_xor_bytes [simp]: "length (xor_bytes st i bs) = length st"
  by (induction st i bs rule: xor_bytes.induct) simp_all

lemma xor_bytes_append: "xor_bytes st i (as @ bs) = xor_bytes (xor_bytes st i as) (i + length as) bs"
  by (induction st i as rule: xor_bytes.induct) simp_all

lemma xor_bytes_zeros: "xor_bytes st i (replicate k 0) = st"
  by (induction k arbitrary: i) (simp_all add: xor_byte_def)

lemma xor_byte_twice:
  assumes "i div 8 < length st"
  shows "xor_byte (xor_byte st i a) i b = xor_byte st i (a XOR b)"
proof -
  have "(ucast (a XOR b) :: u64) = ucast a XOR ucast b"
    by (rule bit_word_eqI) (auto simp: bit_simps)
  then show ?thesis
    using assms by (simp add: xor_byte_def push_bit_xor xor.assoc)
qed

text \<open>One byte at a time.\<close>

definition absorb_byte :: "nat \<Rightarrow> (u64 list \<Rightarrow> u64 list) \<Rightarrow> u8 \<Rightarrow> u64 list \<times> nat \<Rightarrow> u64 list \<times> nat" where
  "absorb_byte n f b s = (case s of (st, q) \<Rightarrow>
     let st = xor_byte st q b in if Suc q = n then (f st, 0) else (st, Suc q))"

lemma absorb_partial:
  "q + length bs < n \<Longrightarrow> fold (absorb_byte n f) bs (st, q) = (xor_bytes st q bs, q + length bs)"
  by (induction bs arbitrary: st q) (simp_all add: absorb_byte_def)

lemma absorb_full:
  assumes "q + length bs = n" "bs \<noteq> []"
  shows "fold (absorb_byte n f) bs (st, q) = (f (xor_bytes st q bs), 0)"
proof -
  obtain as b where bs: "bs = as @ [b]" using assms(2) by (metis append_butlast_last_id)
  then have "fold (absorb_byte n f) as (st, q) = (xor_bytes st q as, q + length as)"
    using assms(1) by (intro absorb_partial) simp
  then show ?thesis using bs assms(1) by (simp add: absorb_byte_def xor_bytes_append)
qed

lemma sha3_small_loop_absorb:
  "q < n \<Longrightarrow> sha3_small_loop n q data st = fold (absorb_byte n (sha3_process_block72 True)) data (st, q)"
proof (induction n q data st rule: sha3_small_loop.induct)
  case (1 n q data st)
  let ?r = "min (n - q) (length data)"
  show ?case
  proof (cases "q + ?r = n")
    case False
    then have "length data \<le> n - q" "q + length data < n" using "1.prems" by auto
    then show ?thesis
      using absorb_partial [of q data n "sha3_process_block72 True" st]
      by (subst sha3_small_loop.simps) (simp add: Let_def)
  next
    case True
    have n: "0 < n" "take ?r data \<noteq> []" using True "1.prems" by auto
    have full: "fold (absorb_byte n (sha3_process_block72 True)) (take ?r data) (st, q) =
        (sha3_process_block72 True (xor_bytes st q (take ?r data)), 0)"
      using True n by (intro absorb_full) simp_all
    have "fold (absorb_byte n (sha3_process_block72 True)) (take ?r data @ drop ?r data) (st, q) =
        fold (absorb_byte n (sha3_process_block72 True)) (drop ?r data)
          (sha3_process_block72 True (xor_bytes st q (take ?r data)), 0)"
      by (simp only: fold_append comp_apply full)
    moreover have "sha3_small_loop n q data st =
        sha3_small_loop n 0 (drop ?r data) (sha3_process_block72 True (xor_bytes st q (take ?r data)))"
      using True n by (subst sha3_small_loop.simps) (simp add: Let_def)
    ultimately show ?thesis
      using "1.IH" [OF refl refl _ n(1)] True n by (simp only: append_take_drop_id) simp
  qed
qed

lemma sha3_queue_loop_absorb:
  "sha3_queue_loop n q data st = (st', q', rest) \<Longrightarrow> q < n \<Longrightarrow>
     fold (absorb_byte n (sha3_process_block72 False)) data (st, q) =
       fold (absorb_byte n (sha3_process_block72 False)) rest (st', q') \<and> q' < n \<and> (rest = [] \<or> q' = 0)"
  by (induction n q data st rule: sha3_queue_loop.induct)
    (auto simp: absorb_byte_def Let_def split: if_splits)

text \<open>Eight bytes that are added one by one are added as a word.\<close>

lemma bit_xor_bytes_word:
  assumes "length bs \<le> 8" "i + length bs \<le> 8" "j < length st"
  shows "bit (xor_bytes st (8 * j + i) bs ! j) k \<longleftrightarrow>
    (bit (st ! j) k \<noteq> (i \<le> k div 8 \<and> k div 8 < i + length bs \<and> bit (bs ! (k div 8 - i)) (k mod 8)))"
  using assms
proof (induction bs arbitrary: st i)
  case (Cons b bs)
  have i: "i < 8" using Cons.prems by simp
  have j: "(8 * j + i) div 8 = j" "(8 * j + i) mod 8 = i" using i by simp_all
  have one: "bit (xor_byte st (8 * j + i) b ! j) k \<longleftrightarrow> (bit (st ! j) k \<noteq> (k div 8 = i \<and> bit b (k mod 8)))"
  proof -
    have "bit (push_bit (8 * i) (ucast b) :: u64) k \<longleftrightarrow> k < 64 \<and> 8 * i \<le> k \<and> k - 8 * i < 8 \<and> bit b (k - 8 * i)"
      using i by (auto simp: bit_push_bit_iff bit_ucast_u8)
    also have "\<dots> \<longleftrightarrow> k div 8 = i \<and> bit b (k mod 8)"
      using byte_index [of i k] i minus_mult_div_eq_mod [of k 8] by auto
    finally show ?thesis using Cons.prems j by (simp add: xor_byte_def bit_xor_iff)
  qed
  have "bit (xor_bytes (xor_byte st (8 * j + i) b) (8 * j + Suc i) bs ! j) k \<longleftrightarrow>
      (bit (xor_byte st (8 * j + i) b ! j) k \<noteq>
        (Suc i \<le> k div 8 \<and> k div 8 < Suc i + length bs \<and> bit (bs ! (k div 8 - Suc i)) (k mod 8)))"
    using Cons.prems by (intro Cons.IH) simp_all
  then show ?case
    using one by (cases "k div 8 = i") (auto simp: nth_Cons')
qed simp
lemma xor_bytes_other:
  "i + length bs \<le> 8 \<Longrightarrow> l \<noteq> j \<Longrightarrow> xor_bytes st (8 * j + i) bs ! l = st ! l"
proof (induction bs arbitrary: st i)
  case (Cons b bs)
  then have "(8 * j + i) div 8 = j" by simp
  then have "xor_byte st (8 * j + i) b ! l = st ! l"
    using Cons.prems by (simp add: xor_byte_def)
  then show ?case using Cons.IH [of "Suc i" "xor_byte st (8 * j + i) b"] Cons.prems by simp
qed simp

lemma xor_bytes_word:
  assumes "length bs = 8" "j < length st"
  shows "xor_bytes st (8 * j) bs = st[j := st ! j XOR un_le64 bs]"
proof (rule nth_equalityI)
  fix l
  assume "l < length (xor_bytes st (8 * j) bs)"
  show "xor_bytes st (8 * j) bs ! l = st[j := st ! j XOR un_le64 bs] ! l"
  proof (cases "l = j")
    case True
    have "xor_bytes st (8 * j) bs ! j = st ! j XOR un_le64 bs"
    proof (rule bit_word_eqI)
      fix k
      assume "k < LENGTH(64)"
      then have "k < 64" "k div 8 < 8" by auto
      then show "bit (xor_bytes st (8 * j) bs ! j) k = bit (st ! j XOR un_le64 bs) k"
        using bit_xor_bytes_word [of bs 0 j st k] assms by (simp add: bit_xor_iff bit_un_le64)
    qed
    then show ?thesis using True assms by simp
  next
    case False
    then show ?thesis using xor_bytes_other [of 0 bs l j st] assms by simp
  qed
qed simp

lemma xor_longs_bytes:
  "8 * c \<le> length data \<Longrightarrow> c \<le> length st \<Longrightarrow> xor_longs st c data = xor_bytes st 0 (take (8 * c) data)"
proof (induction c)
  case (Suc c)
  have "take (8 * Suc c) data = take (8 * c) data @ take 8 (drop (8 * c) data)"
    using take_add [of "8 * c" 8 data] by (simp add: add.commute)
  moreover have "xor_longs st (Suc c) data =
      (xor_longs st c data)[c := xor_longs st c data ! c XOR un_le64 (take 8 (drop (8 * c) data))]"
    by (simp add: xor_longs_def)
  moreover have "xor_bytes (xor_longs st c data) (8 * c) (take 8 (drop (8 * c) data)) =
      (xor_longs st c data)[c := xor_longs st c data ! c XOR un_le64 (take 8 (drop (8 * c) data))]"
    using Suc by (intro xor_bytes_word) simp_all
  ultimately show ?case using Suc by (simp add: xor_bytes_append)
qed (simp add: xor_longs_def)

lemma absorb_block:
  assumes "8 dvd n" "0 < n" "n \<le> 8 * length st" "n \<le> length data"
  shows "fold (absorb_byte n f) (take n data) (st, 0) = (f (xor_longs st (n div 8) data), 0)"
proof -
  have "8 * (n div 8) = n" using assms(1) by simp
  then have "xor_longs st (n div 8) data = xor_bytes st 0 (take n data)"
    using xor_longs_bytes [of "n div 8" data st] assms by simp
  moreover have "fold (absorb_byte n f) (take n data) (st, 0) = (f (xor_bytes st 0 (take n data)), 0)"
    using assms by (intro absorb_full) auto
  ultimately show ?thesis by simp
qed

lemma length_xor_longs [simp]: "length (xor_longs st c data) = length st"
proof -
  have "length (fold (\<lambda>i st. st[i := st ! i XOR un_le64 (take 8 (drop (8 * i) data))]) is st) = length st" for "is"
    by (induction "is" arbitrary: st) simp_all
  then show ?thesis by (simp add: xor_longs_def)
qed

lemma length_process [simp]: "length st = 25 \<Longrightarrow> length (sha3_process_block72 small st) = 25"
  by (simp add: sha3_process_block72_fips)

lemma sha3_block_loop_absorb:
  assumes "8 dvd n" "0 < n" "n \<le> 200"
  shows "length st = 25 \<Longrightarrow> sha3_block_loop n data st = (st', rest) \<Longrightarrow>
    fold (absorb_byte n (sha3_process_block72 False)) data (st, 0) =
      fold (absorb_byte n (sha3_process_block72 False)) rest (st', 0) \<and> length rest < n"
  using assms
proof (induction n data st rule: sha3_block_loop.induct)
  case (1 n data st)
  show ?case
  proof (cases "length data < n")
    case True
    then show ?thesis using "1.prems" by (subst (asm) sha3_block_loop.simps) simp
  next
    case False
    let ?st = "sha3_process_block72 False (xor_longs st (n div 8) data)"
    have "sha3_block_loop n (drop n data) ?st = (st', rest)"
      using "1.prems" False by (subst (asm) sha3_block_loop.simps) simp
    then have IH: "fold (absorb_byte n (sha3_process_block72 False)) (drop n data) (?st, 0) =
        fold (absorb_byte n (sha3_process_block72 False)) rest (st', 0) \<and> length rest < n"
      using "1.IH" False "1.prems" by simp
    have "fold (absorb_byte n (sha3_process_block72 False)) (take n data) (st, 0) = (?st, 0)"
      using False "1.prems" by (intro absorb_block) simp_all
    then have "fold (absorb_byte n (sha3_process_block72 False)) (take n data @ drop n data) (st, 0) =
        fold (absorb_byte n (sha3_process_block72 False)) (drop n data) (?st, 0)"
      by (simp only: fold_append comp_apply)
    then show ?thesis using IH by (simp only: append_take_drop_id)
  qed
qed

lemma length_sha3_queue_loop:
  "sha3_queue_loop n q data st = (st', q', rest) \<Longrightarrow> length st = 25 \<Longrightarrow> length st' = 25"
  by (induction n q data st rule: sha3_queue_loop.induct) (auto simp: Let_def split: if_splits)

text \<open>The invariant of a context, and the refinement: both versions absorb byte by byte.\<close>

definition sha3_wf :: "sha3_ctx \<Rightarrow> bool" where
  "sha3_wf ctx \<longleftrightarrow> length (state ctx) = 25 \<and> 8 dvd input_block_bytes ctx \<and> 0 < input_block_bytes ctx \<and>
     input_block_bytes ctx \<le> 200 \<and> bytes_queued ctx < input_block_bytes ctx"

definition absorbed :: "sha3_ctx \<Rightarrow> bytes \<Rightarrow> u64 list \<times> nat" where
  "absorbed ctx data = fold (absorb_byte (input_block_bytes ctx) keccak_f) data (state ctx, bytes_queued ctx)"

lemma absorb_byte_keccak:
  assumes "length st = 25"
  shows "fold (absorb_byte n (sha3_process_block72 small)) data (st, q) = fold (absorb_byte n keccak_f) data (st, q)"
  using assms
proof (induction data arbitrary: st q)
  case (Cons b data)
  then show ?case by (simp add: absorb_byte_def Let_def sha3_process_block72_fips)
qed simp

lemma sha3_hash_absorbs:
  assumes "sha3_wf ctx"
  shows "sha3_hash small ctx data =
    ctx\<lparr>state := fst (absorbed ctx data), bytes_queued := snd (absorbed ctx data)\<rparr>"
proof (cases small)
  case True
  then show ?thesis
    using assms sha3_small_loop_absorb [of "bytes_queued ctx" "input_block_bytes ctx" data "state ctx"]
      absorb_byte_keccak [of "state ctx" "input_block_bytes ctx" True data "bytes_queued ctx"]
    by (simp add: sha3_hash_def absorbed_def sha3_wf_def case_prod_beta)
next
  case False
  let ?n = "input_block_bytes ctx" and ?q = "bytes_queued ctx" and ?st = "state ctx"
  let ?fold = "fold (absorb_byte ?n (sha3_process_block72 False))"
  have wf: "length ?st = 25" "8 dvd ?n" "0 < ?n" "?n \<le> 200" "?q < ?n" using assms by (simp_all add: sha3_wf_def)
  obtain st1 q1 d1 where s1: "(if ?q \<noteq> 0 then sha3_queue_loop ?n ?q data ?st else (?st, ?q, data)) = (st1, q1, d1)"
    by (metis prod_cases3)
  have one: "?fold data (?st, ?q) = ?fold d1 (st1, q1) \<and> q1 < ?n \<and> (d1 = [] \<or> q1 = 0) \<and> length st1 = 25"
    using s1 wf sha3_queue_loop_absorb [of ?n ?q data ?st st1 q1 d1] length_sha3_queue_loop [of ?n ?q data ?st st1 q1 d1]
    by (auto split: if_splits)
  obtain st2 d2 where s2: "sha3_block_loop ?n d1 st1 = (st2, d2)" by (meson surj_pair)
  have two: "?fold d1 (st1, q1) = ?fold d2 (st2, q1) \<and> q1 + length d2 < ?n"
  proof (cases "d1 = []")
    case True
    then have "st2 = st1 \<and> d2 = []" using s2 wf by (subst (asm) sha3_block_loop.simps) simp
    then show ?thesis using True one by simp
  next
    case False
    then show ?thesis using one sha3_block_loop_absorb [OF wf(2-4) _ s2] by simp
  qed
  then have "?fold data (?st, ?q) = (xor_bytes st2 q1 d2, q1 + length d2)"
    using one absorb_partial by simp
  then show ?thesis
    using False s1 s2 absorb_byte_keccak [OF wf(1), of ?n False data ?q]
    by (simp add: sha3_hash_def absorbed_def del: if_not_P)
qed
section \<open>The sponge\<close>

lemma length_keccak_absorb [simp]: "length st = 25 \<Longrightarrow> length (keccak_absorb b st) = 25"
  by (simp add: keccak_absorb_def)

lemma length_hash_blocks_keccak [simp]: "length st = 25 \<Longrightarrow> length (hash_blocks n keccak_absorb m st) = 25"
proof (induction n "keccak_absorb" m st rule: hash_blocks.induct)
  case (1 n m h)
  then show ?case by (subst hash_blocks.simps) simp
qed

lemma keccak_absorb_bytes:
  assumes "length b = n" "8 dvd n" "n \<le> 200" "length st = 25"
  shows "keccak_absorb b st = keccak_f (xor_bytes st 0 b)"
proof -
  have "8 * (n div 8) = n" using assms(2) by simp
  then show ?thesis using xor_longs_bytes [of "n div 8" b st] assms by (simp add: keccak_absorb_def)
qed

lemma absorb_message:
  assumes "8 dvd n" "0 < n" "n \<le> 200" "length st = 25"
  shows "fold (absorb_byte n keccak_f) m (st, 0) =
    (xor_bytes (hash_blocks n keccak_absorb m st) 0 (drop (length m - length m mod n) m), length m mod n)"
  using assms
proof (induction n "keccak_absorb" m st rule: hash_blocks.induct)
  case (1 n m st)
  show ?case
  proof (cases "length m < n")
    case True
    then show ?thesis using absorb_partial [of 0 m n keccak_f st] by simp
  next
    case False
    have b: "length (take n m) = n" using False by simp
    have full: "fold (absorb_byte n keccak_f) (take n m) (st, 0) = (keccak_absorb (take n m) st, 0)"
      using "1.prems" b keccak_absorb_bytes [OF b] absorb_full [of 0 "take n m" n keccak_f st] by fastforce
    have "fold (absorb_byte n keccak_f) (take n m @ drop n m) (st, 0) =
        fold (absorb_byte n keccak_f) (drop n m) (keccak_absorb (take n m) st, 0)"
      by (simp only: fold_append comp_apply full)
    also have "\<dots> = (xor_bytes (hash_blocks n keccak_absorb (drop n m) (keccak_absorb (take n m) st)) 0
        (drop (length (drop n m) - length (drop n m) mod n) (drop n m)), length (drop n m) mod n)"
      using False "1.prems" by (intro "1.hyps") simp_all
    also have "hash_blocks n keccak_absorb (drop n m) (keccak_absorb (take n m) st) = hash_blocks n keccak_absorb m st"
      using False "1.prems" by (subst (2) hash_blocks.simps) simp
    finally have "fold (absorb_byte n keccak_f) m (st, 0) = (xor_bytes (hash_blocks n keccak_absorb m st) 0
        (drop (length (drop n m) - length (drop n m) mod n) (drop n m)), length (drop n m) mod n)"
      by (simp only: append_take_drop_id)
    moreover have "length (drop n m) mod n = length m mod n"
      using False by (simp add: le_mod_geq)
    moreover have "length m mod n \<le> length m - n"
      using False mod_less_eq_dividend [of "length m - n" n] by (simp add: le_mod_geq)
    ultimately show ?thesis using False by simp
  qed
qed

lemma sha3_pad_xor:
  assumes "q < n" "n \<le> 8 * length st" "length t = q"
    and pad: "p = (if n - q = 1 then [0x86] else [6] @ replicate (n - q - 2) 0 @ [0x80])"
  shows "xor_byte (xor_byte (xor_bytes st 0 t) q 6) (n - 1) 0x80 = xor_bytes st 0 (t @ p)"
proof (cases "n - q = 1")
  case True
  then have "n - 1 = q" "q div 8 < length st" using assms(1, 2) by auto
  then show ?thesis using True pad assms(3) by (simp add: xor_bytes_append xor_byte_twice)
next
  case False
  then have "Suc q + (n - q - 2) = n - 1" "Suc (n - 2) = n - 1" using assms(1) by simp_all
  then show ?thesis using False pad assms(3) by (simp add: xor_bytes_append xor_bytes_zeros)
qed

lemma sha3_padded_hash:
  assumes "8 dvd n" "0 < n" "n \<le> 200" "length st = 25"
  shows "hash_blocks n keccak_absorb (sha3_padded n m) st =
    keccak_f (xor_byte (xor_byte (fst (fold (absorb_byte n keccak_f) m (st, 0))) (length m mod n) 6) (n - 1) 0x80)"
proof -
  let ?q = "length m mod n" and ?t = "drop (length m - length m mod n) m"
  define p :: bytes where "p = (if n - ?q = 1 then [0x86] else [6] @ replicate (n - ?q - 2) 0 @ [0x80])"
  let ?h = "hash_blocks n keccak_absorb m st"
  have q: "?q < n" using assms(2) by simp
  have len: "length (?t @ p) = n" using q by (simp add: p_def) linarith
  have "sha3_padded n m = m @ p" by (simp add: sha3_padded_def p_def Let_def)
  then have "hash_blocks n keccak_absorb (sha3_padded n m) st = hash_blocks n keccak_absorb ((?t @ p) @ []) ?h"
    using hash_blocks_tail [OF assms(2), of keccak_absorb m p st] by simp
  also have "\<dots> = keccak_absorb (?t @ p) ?h"
    unfolding hash_blocks_block [OF assms(2) len] using assms(2) by simp
  also have "\<dots> = keccak_f (xor_bytes ?h 0 (?t @ p))"
    using len assms by (intro keccak_absorb_bytes) simp_all
  also have "xor_bytes ?h 0 (?t @ p) = xor_byte (xor_byte (xor_bytes ?h 0 ?t) ?q 6) (n - 1) 0x80"
    using q assms by (intro sha3_pad_xor [symmetric]) (simp_all add: p_def)
  finally show ?thesis using absorb_message [OF assms] by simp
qed

lemma sha3_digest:
  assumes "sha3_wf ctx" "bytes_queued ctx = 0" "state ctx = replicate 25 0"
  shows "sha3_end small (fold (\<lambda>d ctx. sha3_hash small ctx d) ds ctx) =
    take 64 (fips_sha3 (input_block_bytes ctx) (concat ds))"
proof -
  let ?n = "input_block_bytes ctx"
  have wf: "length (state ctx) = 25" "8 dvd ?n" "0 < ?n" "?n \<le> 200" using assms by (simp_all add: sha3_wf_def)
  have run: "fold (\<lambda>d ctx. sha3_hash small ctx d) ds ctx =
      ctx\<lparr>state := fst (absorbed ctx (concat ds)), bytes_queued := snd (absorbed ctx (concat ds))\<rparr>" for ds
  proof (induction ds rule: rev_induct)
    case Nil
    show ?case by (simp add: absorbed_def)
  next
    case (snoc d ds)
    let ?c = "ctx\<lparr>state := fst (absorbed ctx (concat ds)), bytes_queued := snd (absorbed ctx (concat ds))\<rparr>"
    have "sha3_wf ?c"
      using wf absorb_message [OF wf(2-4), of "state ctx" "concat ds"] assms(2)
      by (simp add: sha3_wf_def absorbed_def)
    then show ?case using snoc by (simp add: sha3_hash_absorbs absorbed_def)
  qed
  have abs: "absorbed ctx (concat ds) = fold (absorb_byte ?n keccak_f) (concat ds) (replicate 25 0, 0)"
    using assms by (simp add: absorbed_def)
  have "snd (absorbed ctx (concat ds)) = length (concat ds) mod ?n"
    using abs absorb_message [OF wf(2-4), of "replicate 25 0" "concat ds"] by simp
  moreover have "length (fst (absorbed ctx (concat ds))) = 25"
    using abs absorb_message [OF wf(2-4), of "replicate 25 0" "concat ds"] by simp
  ultimately show ?thesis
    using run [of ds] abs sha3_padded_hash [OF wf(2-4), of "replicate 25 0" "concat ds"]
    by (simp add: sha3_end_def fips_sha3_def sha3_process_block72_fips)
qed

end
