(* ===== verification/Bb_Digest.thy ===== *)
theory Bb_Digest
  imports Bb_Sha3
begin

text \<open>
  Message digests of files: the contexts of \<open>src/busybox/libbb/hash_md5_sha.c\<close> with the functions that begin,
  feed and end them, the hexadecimal texts of \<open>src/busybox/libbb/xfuncs.c\<close>, and the applets \<open>md5sum\<close>,
  \<open>sha1sum\<close>, \<open>sha256sum\<close>, \<open>sha512sum\<close> and \<open>sha3sum\<close> of \<open>src/busybox/coreutils/md5_sha1_sum.c\<close>. Files
  are what successive reads return; the option parser has already run.
\<close>

section \<open>Definitions\<close>

subsection \<open>Contexts\<close>

text \<open>
  The choices of the configuration, and what the stack holds when an array is declared without a value.
\<close>

record digest_config =
  md5_small :: int
  sha1_small :: int
  sha3_small :: bool
  stack_words :: "bytes \<Rightarrow> u32 list \<Rightarrow> nat \<Rightarrow> u32"

datatype block_proc = Md5_block | Sha1_block | Sha256_block

record md5_ctx =
  wbuffer :: bytes
  process_block :: block_proc
  total64 :: u64
  hash :: "u32 list"

definition run_block :: "digest_config \<Rightarrow> block_proc \<Rightarrow> bytes \<Rightarrow> u32 list \<Rightarrow> u32 list" where
  "run_block cfg p w h = (case p of
     Md5_block \<Rightarrow> md5_process_block64 (md5_small cfg) w h
   | Sha1_block \<Rightarrow> sha1_process_block64 (sha1_small cfg) (stack_words cfg w h) w h
   | Sha256_block \<Rightarrow> sha256_process_block64 w h)"

definition md5_begin :: "md5_ctx \<Rightarrow> md5_ctx" where
  "md5_begin ctx = ctx\<lparr>
     hash := (hash ctx)[0 := 0x67452301, 1 := 0xefcdab89, 2 := 0x98badcfe, 3 := 0x10325476],
     total64 := 0, process_block := Md5_block\<rparr>"

definition sha1_begin :: "md5_ctx \<Rightarrow> md5_ctx" where
  "sha1_begin ctx = ctx\<lparr>
     hash := (hash ctx)[0 := 0x67452301, 1 := 0xefcdab89, 2 := 0x98badcfe, 3 := 0x10325476, 4 := 0xc3d2e1f0],
     total64 := 0, process_block := Sha1_block\<rparr>"

definition sha256_begin :: "md5_ctx \<Rightarrow> md5_ctx" where
  "sha256_begin ctx = ctx\<lparr>
     total64 := un_le64 (concat (map le32 (take 2 init256))), hash := drop 2 init256,
     process_block := Sha256_block\<rparr>"

text \<open>
  The loop of \<open>md5_hash\<close>. A position never exceeds 64, so that \<open>bufpos -= 64\<close> is zero exactly at 64.
\<close>

function md5_hash_loop :: "(bytes \<Rightarrow> u32 list \<Rightarrow> u32 list) \<Rightarrow> nat \<Rightarrow> bytes \<Rightarrow> bytes \<Rightarrow> u32 list \<Rightarrow> bytes \<times> u32 list" where
  "md5_hash_loop f bufpos buffer w h =
     (let remaining = min (64 - bufpos) (length buffer);
          w = store_at w bufpos (take remaining buffer)
      in if bufpos + remaining \<noteq> 64 then (w, h)
         else md5_hash_loop f 0 (drop remaining buffer) w (f w h))"
  by pat_completeness auto
termination
  by (relation "measures [\<lambda>(f, bufpos, buffer, w, h). length buffer, \<lambda>(f, bufpos, buffer, w, h). bufpos]") auto

definition md5_hash :: "digest_config \<Rightarrow> md5_ctx \<Rightarrow> bytes \<Rightarrow> md5_ctx" where
  "md5_hash cfg ctx buffer =
     (let bufpos = unat (total64 ctx AND 63);
          (w, h) = md5_hash_loop (run_block cfg (process_block ctx)) bufpos buffer (wbuffer ctx) (hash ctx)
      in ctx\<lparr>total64 := total64 ctx + of_nat (length buffer), wbuffer := w, hash := h\<rparr>)"

function common64_loop :: "(bytes \<Rightarrow> u32 list \<Rightarrow> u32 list) \<Rightarrow> nat \<Rightarrow> bytes \<Rightarrow> bytes \<Rightarrow> u32 list \<Rightarrow> u32 list" where
  "common64_loop f bufpos t w h =
     (let remaining = 64 - bufpos;
          w = store_at w bufpos (replicate remaining 0)
      in if remaining \<ge> 8 then f (store_at w (64 - 8) t) h
         else common64_loop f 0 t w (f w h))"
  by pat_completeness auto
termination
  by (relation "measure (\<lambda>(f, bufpos, t, w, h). bufpos)") auto

definition common64_end :: "digest_config \<Rightarrow> bool \<Rightarrow> md5_ctx \<Rightarrow> u32 list" where
  "common64_end cfg swap_needed ctx =
     (let bufpos = unat (total64 ctx AND 63);
          w = store_at (wbuffer ctx) bufpos [0x80];
          t = push_bit 3 (total64 ctx);
          t = (if swap_needed then bb_bswap_64 t else t)
      in common64_loop (run_block cfg (process_block ctx)) (Suc bufpos) (le64 t) w (hash ctx))"

definition md5_end :: "digest_config \<Rightarrow> md5_ctx \<Rightarrow> bytes" where
  "md5_end cfg ctx = concat (map le32 (take 4 (common64_end cfg False ctx)))"

definition sha1_end :: "digest_config \<Rightarrow> md5_ctx \<Rightarrow> bytes" where
  "sha1_end cfg ctx =
     (let h = common64_end cfg True ctx;
          hash_size = (if process_block ctx = Sha1_block then 5 else 8)
      in concat (map (\<lambda>i. le32 (bswap_32 (h ! i))) [0..<hash_size]))"

record sha512_ctx =
  total_lo :: u64
  total_hi :: u64
  hash64 :: "u64 list"
  wbuffer128 :: bytes

definition sha512_begin :: "sha512_ctx \<Rightarrow> sha512_ctx" where
  "sha512_begin ctx =
     (let tp = map2 (\<lambda>hi lo. push_bit 32 (ucast hi) + ucast lo) init256 init512_lo
      in ctx\<lparr>total_lo := tp ! 0, total_hi := tp ! 1, hash64 := drop 2 tp\<rparr>)"

function sha512_hash_loop :: "nat \<Rightarrow> bytes \<Rightarrow> bytes \<Rightarrow> u64 list \<Rightarrow> bytes \<times> u64 list" where
  "sha512_hash_loop bufpos buffer w h =
     (let remaining = min (128 - bufpos) (length buffer);
          w = store_at w bufpos (take remaining buffer)
      in if bufpos + remaining \<noteq> 128 then (w, h)
         else sha512_hash_loop 0 (drop remaining buffer) w (sha512_process_block128 w h))"
  by pat_completeness auto
termination
  by (relation "measures [\<lambda>(bufpos, buffer, w, h). length buffer, \<lambda>(bufpos, buffer, w, h). bufpos]") auto

definition sha512_hash :: "sha512_ctx \<Rightarrow> bytes \<Rightarrow> sha512_ctx" where
  "sha512_hash ctx buffer =
     (let bufpos = unat (total_lo ctx AND 127);
          len = of_nat (length buffer);
          lo = total_lo ctx + len;
          hi = (if lo < len then total_hi ctx + 1 else total_hi ctx);
          (w, h) = sha512_hash_loop bufpos buffer (wbuffer128 ctx) (hash64 ctx)
      in ctx\<lparr>total_lo := lo, total_hi := hi, wbuffer128 := w, hash64 := h\<rparr>)"

text \<open>The counter \<open>t\<close> is stored in two halves, the low one first.\<close>

function sha512_end_loop :: "nat \<Rightarrow> bytes \<Rightarrow> bytes \<Rightarrow> u64 list \<Rightarrow> u64 list" where
  "sha512_end_loop bufpos t w h =
     (let remaining = 128 - bufpos;
          w = store_at w bufpos (replicate remaining 0)
      in if remaining \<ge> 16
         then sha512_process_block128 (store_at (store_at w (128 - 8) (drop 8 t)) (128 - 16) (take 8 t)) h
         else sha512_end_loop 0 t w (sha512_process_block128 w h))"
  by pat_completeness auto
termination
  by (relation "measure (\<lambda>(bufpos, t, w, h). bufpos)") auto

definition sha512_end :: "sha512_ctx \<Rightarrow> bytes" where
  "sha512_end ctx =
     (let bufpos = unat (total_lo ctx AND 127);
          w = store_at (wbuffer128 ctx) bufpos [0x80];
          lo = bb_bswap_64 (push_bit 3 (total_lo ctx));
          hi = bb_bswap_64 (push_bit 3 (total_hi ctx) OR drop_bit 61 (total_lo ctx));
          h = sha512_end_loop (Suc bufpos) (le64 hi @ le64 lo) w (hash64 ctx)
      in concat (map (\<lambda>i. le64 (bb_bswap_64 (h ! i))) [0..<8]))"

subsection \<open>Hexadecimal text\<close>

definition bb_hexdigits_upcase :: string where
  "bb_hexdigits_upcase = ''0123456789ABCDEF''"

definition hex_digit :: "u8 \<Rightarrow> char" where
  "hex_digit n = char_of_byte (0x20 OR byte_of_char (bb_hexdigits_upcase ! unat n))"

definition bin2hex :: "bytes \<Rightarrow> string" where
  "bin2hex bs = concat (map (\<lambda>c. [hex_digit (drop_bit 4 c), hex_digit (c AND 0xf)]) bs)"

definition hex_value :: "u8 \<Rightarrow> u8 option" where
  "hex_value c =
     (if 0x30 \<le> c \<and> c \<le> 0x39 then Some (c - 0x30)
      else if 0x61 \<le> (c OR 0x20) \<and> (c OR 0x20) \<le> 0x66 then Some ((c OR 0x20) - (0x61 - 10))
      else None)"

text \<open>The result is the bytes and whether text is left (\<open>ERANGE\<close>), or nothing (\<open>EINVAL\<close>).\<close>

function hex2bin :: "bytes \<Rightarrow> nat \<Rightarrow> (bytes \<times> bool) option" where
  "hex2bin str count =
     (if str = [] \<or> count = 0 then Some ([], str \<noteq> [])
      else case hex_value (hd str) of None \<Rightarrow> None
        | Some v \<Rightarrow>
           (let str = tl str; val = push_bit 4 v;
                c = (if str = [] then 0 else hd str);
                val = (case hex_value c of Some d \<Rightarrow> Some (val OR d)
                       | None \<Rightarrow> if c = 0x3a \<or> c = 0 then Some (drop_bit 4 val) else None)
            in case val of None \<Rightarrow> None
                 | Some val \<Rightarrow>
                    (let str = (if c \<noteq> 0 then tl str else str);
                         str = (if str \<noteq> [] \<and> hd str = 0x3a then tl str else str)
                     in map_option (\<lambda>(bs, more). (val # bs, more)) (hex2bin str (count - 1)))))"
  by pat_completeness auto
termination
  by (relation "measure snd") auto

subsection \<open>The applets\<close>

datatype hash_ctx = Ctx_md5 md5_ctx | Ctx_sha512 sha512_ctx | Ctx_sha3 sha3_ctx

definition BUFSZ :: nat where
  "BUFSZ = 4096"

text \<open>
  The choice of the algorithm by the fourth letter of the name of the applet. \<open>None\<close> ends the process;
  \<open>g\<close> and \<open>g512\<close> are the contents of the context before.
\<close>

definition hash_select :: "md5_ctx \<Rightarrow> sha512_ctx \<Rightarrow> char \<Rightarrow> nat \<Rightarrow> (hash_ctx \<times> nat) option" where
  "hash_select g g512 hash_algo sha3_width =
     (if hash_algo = CHR ''s'' then Some (Ctx_md5 (md5_begin g), 16)
      else if hash_algo = CHR ''1'' then Some (Ctx_md5 (sha1_begin g), 20)
      else if hash_algo = CHR ''2'' then Some (Ctx_md5 (sha256_begin g), 32)
      else if hash_algo = CHR ''5'' then Some (Ctx_sha512 (sha512_begin g512), 64)
      else if hash_algo = CHR ''3'' then
        (if sha3_width \<ge> 1600 div 2 \<or> sha3_width = 0 \<or> sha3_width AND 0x1f \<noteq> 0 then None
         else let sha3_width = sha3_width div 4
              in Some (Ctx_sha3 (sha3_begin\<lparr>input_block_bytes := 1600 div 8 - sha3_width\<rparr>), sha3_width div 2))
      else None)"

fun hash_update :: "digest_config \<Rightarrow> hash_ctx \<Rightarrow> bytes \<Rightarrow> hash_ctx" where
  "hash_update cfg (Ctx_md5 c) b = Ctx_md5 (md5_hash cfg c b)"
| "hash_update cfg (Ctx_sha512 c) b = Ctx_sha512 (sha512_hash c b)"
| "hash_update cfg (Ctx_sha3 c) b = Ctx_sha3 (sha3_hash (sha3_small cfg) c b)"

fun hash_final :: "digest_config \<Rightarrow> char \<Rightarrow> hash_ctx \<Rightarrow> bytes" where
  "hash_final cfg hash_algo (Ctx_md5 c) = (if hash_algo = CHR ''s'' then md5_end cfg c else sha1_end cfg c)"
| "hash_final cfg hash_algo (Ctx_sha512 c) = sha512_end c"
| "hash_final cfg hash_algo (Ctx_sha3 c) = sha3_end (sha3_small cfg) c"

text \<open>
  The read loop: a read returns the next bytes, no bytes at the end of the file, or an error (\<open>None\<close>). The
  buffer \<open>in_buf\<close> keeps what the reads have put there.
\<close>

fun hash_reads :: "digest_config \<Rightarrow> bytes option list \<Rightarrow> hash_ctx \<Rightarrow> bytes \<Rightarrow> hash_ctx option \<times> bytes" where
  "hash_reads cfg [] ctx in_buf = (Some ctx, in_buf)"
| "hash_reads cfg (None # reads) ctx in_buf = (None, in_buf)"
| "hash_reads cfg (Some b # reads) ctx in_buf =
     (if b = [] then (Some ctx, in_buf)
      else hash_reads cfg reads (hash_update cfg ctx b) (store_at in_buf 0 b))"

type_synonym files = "string \<Rightarrow> bytes option list option"

definition hash_file :: "digest_config \<Rightarrow> md5_ctx \<Rightarrow> sha512_ctx \<Rightarrow> files \<Rightarrow> string \<Rightarrow> nat \<Rightarrow> bytes \<Rightarrow> string \<Rightarrow>
    (string option \<times> bytes) option" where
  "hash_file cfg g g512 files applet_name sha3_width in_buf filename =
     (case files filename of None \<Rightarrow> Some (None, in_buf)
      | Some reads \<Rightarrow>
         (let hash_algo = applet_name ! 3 in
          case hash_select g g512 hash_algo sha3_width of None \<Rightarrow> None
          | Some (ctx, hash_len) \<Rightarrow>
             (case hash_reads cfg reads ctx in_buf of
                (None, in_buf) \<Rightarrow> Some (None, in_buf)
              | (Some ctx, in_buf) \<Rightarrow>
                 (let in_buf = store_at in_buf 0 (hash_final cfg hash_algo ctx)
                  in Some (Some (bin2hex (take hash_len in_buf)), in_buf)))))"

text \<open>\<open>xmalloc_fgetline\<close> reads up to a newline or a NUL byte; a NUL ends the string.\<close>

definition bb_get_chunk_from_file :: "string \<Rightarrow> (string \<times> string) option" where
  "bb_get_chunk_from_file s =
     (if s = [] then None
      else let go = (\<lambda>ch. ch \<noteq> CHR 0x00 \<and> ch \<noteq> CHR 0x0A);
               n = length (takeWhile go s) + 1
           in Some (take n s, drop n s))"

definition xmalloc_fgetline :: "string \<Rightarrow> (string \<times> string) option" where
  "xmalloc_fgetline s = (case bb_get_chunk_from_file s of None \<Rightarrow> None
     | Some (c, rest) \<Rightarrow> Some (c_str (if last c = CHR 0x0A then butlast c else c), rest))"

record sum_state =
  sum_out :: string
  sum_err :: "string list"
  return_value :: nat
  sum_buf :: bytes

definition strcasecmp_eq :: "string \<Rightarrow> string \<Rightarrow> bool" where
  "strcasecmp_eq s t \<longleftrightarrow> (let lower = map (\<lambda>c. if CHR ''A'' \<le> c \<and> c \<le> CHR ''Z'' then char_of (of_char c + 32 :: nat) else c)
     in lower s = lower t)"

record sum_flags =
  flag_silent :: bool
  flag_check :: bool
  flag_warn :: bool

type_synonym hasher = "bytes \<Rightarrow> string \<Rightarrow> (string option \<times> bytes) option"

text \<open>One line of a list of checksums; \<open>hf\<close> is \<open>hash_file\<close> with its other arguments.\<close>

definition check_line :: "hasher \<Rightarrow> sum_flags \<Rightarrow> string \<Rightarrow> sum_state \<times> nat \<times> nat \<Rightarrow> (sum_state \<times> nat \<times> nat) option" where
  "check_line hf flags line t = (case t of (s, count_total, count_failed) \<Rightarrow>
     if CHR '' '' \<notin> set line then
       Some (s\<lparr>sum_err := (if flag_warn flags then sum_err s @ [''invalid format''] else sum_err s), return_value := 1\<rparr>,
             count_total + 1, count_failed + 1)
     else
       (let h = takeWhile (\<lambda>c. c \<noteq> CHR '' '') line;
            filename = drop (length h + 1) line;
            filename = (case filename of [] \<Rightarrow> [] | c # r \<Rightarrow> if c = CHR '' '' \<or> c = CHR ''*'' then r else filename)
        in case hf (sum_buf s) filename of None \<Rightarrow> None
           | Some (hash_value, buf) \<Rightarrow>
              if (case hash_value of None \<Rightarrow> False | Some v \<Rightarrow> strcasecmp_eq v h) then
                Some (s\<lparr>sum_buf := buf,
                        sum_out := (if flag_silent flags then sum_out s else sum_out s @ filename @ '': OK'' @ [CHR 0x0A])\<rparr>,
                      count_total + 1, count_failed)
              else
                Some (s\<lparr>sum_buf := buf, return_value := 1,
                        sum_out := (if flag_silent flags then sum_out s else sum_out s @ filename @ '': FAILED'' @ [CHR 0x0A])\<rparr>,
                      count_total + 1, count_failed + 1)))"

lemma xmalloc_fgetline_shorter: "xmalloc_fgetline s = Some (line, rest) \<Longrightarrow> length rest < length s"
  by (auto simp: xmalloc_fgetline_def bb_get_chunk_from_file_def Let_def split: option.splits if_splits)

function check_lines :: "hasher \<Rightarrow> sum_flags \<Rightarrow> string \<Rightarrow> sum_state \<times> nat \<times> nat \<Rightarrow> (sum_state \<times> nat \<times> nat) option" where
  "check_lines hf flags stream t = (case xmalloc_fgetline stream of None \<Rightarrow> Some t
     | Some (line, rest) \<Rightarrow>
        (case check_line hf flags line t of None \<Rightarrow> None | Some t \<Rightarrow> check_lines hf flags rest t))"
  by pat_completeness auto
termination
  by (relation "measure (\<lambda>(hf, flags, stream, t). length stream)") (auto simp: xmalloc_fgetline_shorter)

text \<open>
  One argument, and the loop over the arguments. \<open>streams\<close> gives the text of a list of checksums; one that
  cannot be opened ends the process.
\<close>

definition sum_arg :: "hasher \<Rightarrow> (string \<Rightarrow> string option) \<Rightarrow> sum_flags \<Rightarrow> string \<Rightarrow> sum_state \<Rightarrow> sum_state option" where
  "sum_arg hf streams flags arg s =
     (if flag_check flags then
        (case streams arg of None \<Rightarrow> None
         | Some stream \<Rightarrow>
            (case check_lines hf flags stream (s, 0, 0) of None \<Rightarrow> None
             | Some (s, count_total, count_failed) \<Rightarrow>
                (let s = (if count_failed \<noteq> 0 \<and> \<not> flag_silent flags
                          then s\<lparr>sum_err := sum_err s @ [''WARNING: '' @ show_nat count_failed @ '' of '' @ show_nat count_total
                                  @ '' computed checksums did NOT match'']\<rparr> else s)
                 in Some (if count_total = 0
                          then s\<lparr>return_value := 1, sum_err := sum_err s @ [arg @ '': no checksum lines found'']\<rparr> else s))))
      else
        (case hf (sum_buf s) arg of None \<Rightarrow> None
         | Some (None, buf) \<Rightarrow> Some (s\<lparr>return_value := 1, sum_buf := buf\<rparr>)
         | Some (Some hash_value, buf) \<Rightarrow>
             Some (s\<lparr>sum_out := sum_out s @ hash_value @ ''  '' @ arg @ [CHR 0x0A], sum_buf := buf\<rparr>)))"

fun sum_args :: "hasher \<Rightarrow> (string \<Rightarrow> string option) \<Rightarrow> sum_flags \<Rightarrow> string list \<Rightarrow> sum_state \<Rightarrow> sum_state option" where
  "sum_args hf streams flags [] s = Some s"
| "sum_args hf streams flags (arg # args) s =
     (case sum_arg hf streams flags arg s of None \<Rightarrow> None | Some s \<Rightarrow> sum_args hf streams flags args s)"

definition md5_sha1_sum_main :: "hasher \<Rightarrow> (string \<Rightarrow> string option) \<Rightarrow> sum_flags \<Rightarrow> bytes \<Rightarrow> string list \<Rightarrow> sum_state option" where
  "md5_sha1_sum_main hf streams flags in_buf argv =
     sum_args hf streams flags (if argv = [] then [''-''] else argv)
       \<lparr>sum_out = [], sum_err = [], return_value = 0, sum_buf = in_buf\<rparr>"

subsection \<open>The digests of the standards\<close>

definition be_bytes :: "nat \<Rightarrow> nat \<Rightarrow> bytes" where
  "be_bytes k n = rev (map (\<lambda>i. of_nat (n div 256 ^ i)) [0..<k])"

definition md5_digest :: "bytes \<Rightarrow> bytes" where
  "md5_digest m = concat (map le32 (hash_blocks 64 rfc1321_block (padded 64 (rev (be_bytes 8 (8 * length m))) m)
     [0x67452301, 0xefcdab89, 0x98badcfe, 0x10325476]))"

definition sha1_digest :: "bytes \<Rightarrow> bytes" where
  "sha1_digest m = concat (map (\<lambda>w. rev (le32 w)) (hash_blocks 64 fips_sha1_block (padded 64 (be_bytes 8 (8 * length m)) m)
     [0x67452301, 0xefcdab89, 0x98badcfe, 0x10325476, 0xc3d2e1f0]))"

definition sha256_digest :: "bytes \<Rightarrow> bytes" where
  "sha256_digest m = concat (map (\<lambda>w. rev (le32 w)) (hash_blocks 64 fips_sha256_block (padded 64 (be_bytes 8 (8 * length m)) m)
     (drop 2 init256)))"

definition sha512_digest :: "bytes \<Rightarrow> bytes" where
  "sha512_digest m = concat (map (\<lambda>w. rev (le64 w)) (hash_blocks 128 fips_sha512_block (padded 128 (be_bytes 16 (8 * length m)) m)
     (map2 (\<lambda>hi lo. push_bit 32 (ucast hi) + ucast lo) (drop 2 init256) (drop 2 init512_lo))))"

definition sha3_digest :: "nat \<Rightarrow> bytes \<Rightarrow> bytes" where
  "sha3_digest width m = take (width div 8) (fips_sha3 (200 - 2 * (width div 8)) m)"

definition standard_digest :: "char \<Rightarrow> nat \<Rightarrow> (bytes \<Rightarrow> bytes) option" where
  "standard_digest algo width =
     (if algo = CHR ''s'' then Some md5_digest else if algo = CHR ''1'' then Some sha1_digest
      else if algo = CHR ''2'' then Some sha256_digest else if algo = CHR ''5'' then Some sha512_digest
      else if algo = CHR ''3'' \<and> width \<in> {224, 256, 384, 512} then Some (sha3_digest width) else None)"

section \<open>The loops are block streams\<close>

declare md5_hash_loop.simps [simp del] common64_loop.simps [simp del]
  sha512_hash_loop.simps [simp del] sha512_end_loop.simps [simp del]

interpretation md5_stream: block_stream 64 f 8 "md5_hash_loop f" "common64_loop f" for f
proof
  show "md5_hash_loop f p b w h =
      (let r = min (64 - p) (length b); w1 = store_at w p (take r b)
       in if p + r = 64 then md5_hash_loop f 0 (drop r b) w1 (f w1 h) else (w1, h))" for p b w h
    by (subst md5_hash_loop.simps) (simp add: Let_def)
  show "common64_loop f p t w h =
      (let w1 = store_at w p (replicate (64 - p) 0)
       in if 8 \<le> 64 - p then f (store_at w1 (64 - 8) t) h else common64_loop f 0 t w1 (f w1 h))" for p t w h
    by (subst common64_loop.simps) (simp add: Let_def)
qed simp_all

lemma store_halves:
  assumes "length w = 128" "length t = 16"
  shows "store_at (store_at w (128 - 8) (drop 8 t)) (128 - 16) (take 8 t) = store_at w (128 - 16) t"
proof -
  have "take 112 (take 120 w) = take 112 w" by (simp add: min_def)
  then show ?thesis using assms by (simp add: store_at_def)
qed

interpretation sha512_stream: block_stream 128 sha512_process_block128 16 sha512_hash_loop sha512_end_loop
proof
  show "sha512_hash_loop p b w h =
      (let r = min (128 - p) (length b); w1 = store_at w p (take r b)
       in if p + r = 128 then sha512_hash_loop 0 (drop r b) w1 (sha512_process_block128 w1 h) else (w1, h))" for p b w h
    by (subst sha512_hash_loop.simps) (simp add: Let_def)
  show "sha512_end_loop p t w h =
      (let w1 = store_at w p (replicate (128 - p) 0)
       in if 16 \<le> 128 - p then sha512_process_block128 (store_at w1 (128 - 16) t) h
          else sha512_end_loop 0 t w1 (sha512_process_block128 w1 h))"
    if "length t = 16" "length w = 128" "p \<le> 128" for p t w h
    using that store_halves [of "store_at w p (replicate (128 - p) 0)" t]
    by (subst sha512_end_loop.simps) (simp add: Let_def)
qed simp_all

section \<open>Counters\<close>

lemma unat_and_mask:
  assumes "k \<le> 64"
  shows "unat ((of_nat n :: u64) AND mask k) = n mod 2 ^ k"
proof -
  have "unat (take_bit k (of_nat n :: u64)) = take_bit k (take_bit 64 n)"
    by (simp only: unsigned_take_bit_eq unsigned_of_nat of_nat_id len_num1 len_bit0 len_bit1, simp)
  then show ?thesis using assms by (simp add: take_bit_eq_mask [symmetric] min_def take_bit_eq_mod [symmetric])
qed

lemma bufpos_64: "unat ((of_nat n :: u64) AND 63) = n mod 64"
proof -
  have "mask 6 = (63 :: u64)" by (simp add: mask_eq_exp_minus_1)
  then show ?thesis using unat_and_mask [of 6 n] by simp
qed

lemma bufpos_128: "unat ((of_nat n :: u64) AND 127) = n mod 128"
proof -
  have "mask 7 = (127 :: u64)" by (simp add: mask_eq_exp_minus_1)
  then show ?thesis using unat_and_mask [of 7 n] by simp
qed

lemma bit_of_nat_word: "bit (of_nat n :: 'a::len word) k \<longleftrightarrow> k < LENGTH('a) \<and> bit n k"
  by transfer (simp add: bit_take_bit_iff bit_of_nat_iff)

lemma le64_of_nat: "le64 (of_nat n) = rev (be_bytes 8 n)"
proof -
  have "(ucast (drop_bit (8 * i) (of_nat n :: u64)) :: u8) = of_nat (n div 256 ^ i)" if "i < 8" for i
  proof (rule bit_word_eqI)
    fix k
    assume "k < LENGTH(8)"
    then have k: "k < 8" by simp
    have "n div 256 ^ i = drop_bit (8 * i) n"
      by (simp add: drop_bit_eq_div power_mult)
    then show "bit (ucast (drop_bit (8 * i) (of_nat n :: u64)) :: u8) k = bit (of_nat (n div 256 ^ i) :: u8) k"
      using that k by (simp add: bit_simps bit_of_nat_word del: of_nat_div)
  qed
  then show ?thesis unfolding le64_def be_bytes_def rev_rev_ident by (intro map_cong) simp_all
qed

lemma le64_bswap: "le64 (bb_bswap_64 w) = rev (le64 w)"
  by (simp add: bb_bswap_64_def le64_un_le64)

lemma le32_bswap: "le32 (bswap_32 w) = rev (le32 w)"
  by (simp add: bswap_32_def le32_un_le32)

lemma bits_count: "push_bit 3 (of_nat n :: u64) = of_nat (8 * n)"
  by (simp add: push_bit_eq_mult)

lemma bits_count_high:
  "push_bit 3 (of_nat (n div 2 ^ 64) :: u64) OR drop_bit 61 (of_nat n) = of_nat (8 * n div 2 ^ 64)"
proof (rule bit_word_eqI)
  fix k
  assume "k < LENGTH(64)"
  then have k: "k < 64" by simp
  have hi: "n div 2 ^ 64 = drop_bit 64 n" "8 * n div 2 ^ 64 = drop_bit 64 (push_bit 3 n)"
    by (simp_all add: drop_bit_eq_div push_bit_eq_mult mult.commute)
  show "bit (push_bit 3 (of_nat (n div 2 ^ 64) :: u64) OR drop_bit 61 (of_nat n)) k =
      bit (of_nat (8 * n div 2 ^ 64) :: u64) k"
    unfolding hi bit_or_iff bit_push_bit_iff bit_drop_bit_eq bit_of_nat_word comp_apply
    using k less_imp_diff_less [OF k, of 3] by (cases "k < 3") (auto simp: add.commute)
qed

lemma be_bytes_16: "be_bytes 16 n = be_bytes 8 (n div 2 ^ 64) @ be_bytes 8 n"
proof -
  have upt: "[0..<16] = [0..<8] @ map (\<lambda>i. 8 + i) [0..<8 :: nat]" by code_simp
  have "n div 256 ^ (8 + i) = n div 2 ^ 64 div 256 ^ i" for i
    by (simp add: div_mult2_eq [symmetric] power_add)
  then show ?thesis
    unfolding be_bytes_def upt map_append map_map rev_append comp_def by (simp only:)
qed
section \<open>Feeding a context\<close>

lemma hash_blocks_cong:
  "(\<And>b h. length b = n \<Longrightarrow> f b h = g b h) \<Longrightarrow> hash_blocks n f m h = hash_blocks n g m h"
proof (induction n f m h rule: hash_blocks.induct)
  case (1 n f m h)
  then show ?case
    by (cases "n = 0 \<or> length m < n") (simp_all add: hash_blocks.simps [of n f m h] hash_blocks.simps [of n g m h])
qed

lemma hash_blocks_image:
  "(\<And>b h. P h \<Longrightarrow> P (f b h) \<and> q (f b h) = f' b (q h)) \<Longrightarrow> P h \<Longrightarrow>
     P (hash_blocks n f m h) \<and> q (hash_blocks n f m h) = hash_blocks n f' m (q h)"
proof (induction n f m h rule: hash_blocks.induct)
  case (1 n f m h)
  then show ?case
    by (cases "n = 0 \<or> length m < n") (simp_all add: hash_blocks.simps [of n f m h] hash_blocks.simps [of n f' m "q h"])
qed

definition md5_holds :: "digest_config \<Rightarrow> block_proc \<Rightarrow> u32 list \<Rightarrow> bytes \<Rightarrow> md5_ctx \<Rightarrow> bool" where
  "md5_holds cfg p h0 m ctx \<longleftrightarrow> process_block ctx = p \<and> total64 ctx = of_nat (length m) \<and>
     holds_message 64 (run_block cfg p) h0 m (wbuffer ctx) (hash ctx)"

lemma md5_hash_holds:
  assumes "md5_holds cfg p h0 m ctx"
  shows "md5_holds cfg p h0 (m @ b) (md5_hash cfg ctx b)"
proof -
  obtain w h where loop: "md5_hash_loop (run_block cfg p) (length m mod 64) b (wbuffer ctx) (hash ctx) = (w, h)"
    by (meson surj_pair)
  then have "holds_message 64 (run_block cfg p) h0 (m @ b) w h"
    using md5_stream.loop_holds [of "run_block cfg p" h0 m "wbuffer ctx" "hash ctx" b w h] assms
    by (simp add: md5_holds_def)
  then show ?thesis
    using assms loop by (simp add: md5_holds_def md5_hash_def bufpos_64)
qed

lemma md5_hashes_hold:
  "md5_holds cfg p h0 m ctx \<Longrightarrow> md5_holds cfg p h0 (m @ concat bs) (fold (\<lambda>b ctx. md5_hash cfg ctx b) bs ctx)"
proof (induction bs arbitrary: m ctx)
  case (Cons b bs)
  then show ?case using Cons.IH [OF md5_hash_holds [OF Cons.prems, of b]] by simp
qed simp

lemma common64_end_pads:
  assumes "md5_holds cfg p h0 m ctx"
  shows "common64_end cfg swap ctx = hash_blocks 64 (run_block cfg p)
    (padded 64 (if swap then be_bytes 8 (8 * length m) else rev (be_bytes 8 (8 * length m))) m) h0"
proof -
  have "length (be_bytes 8 (8 * length m)) = 8" by (simp add: be_bytes_def)
  then show ?thesis
    using assms md5_stream.finish_pads [of "run_block cfg p" h0 m "wbuffer ctx" "hash ctx"]
    by (simp add: common64_end_def md5_holds_def bufpos_64 Let_def bits_count le64_bswap le64_of_nat del: of_nat_mult)
qed

lemma md5_holds_start:
  "length (wbuffer ctx) = 64 \<Longrightarrow> process_block ctx = p \<Longrightarrow> total64 ctx = 0 \<Longrightarrow> md5_holds cfg p (hash ctx) [] ctx"
  by (simp add: md5_holds_def holds_message_def)

definition sha512_holds :: "u64 list \<Rightarrow> bytes \<Rightarrow> sha512_ctx \<Rightarrow> bool" where
  "sha512_holds h0 m ctx \<longleftrightarrow> total_lo ctx = of_nat (length m) \<and> total_hi ctx = of_nat (length m div 2 ^ 64) \<and>
     holds_message 128 sha512_process_block128 h0 m (wbuffer128 ctx) (hash64 ctx)"

lemma carry_div:
  assumes "b < (c :: nat)"
  shows "(a + b) div c = a div c + (if (a + b) mod c < b then 1 else 0)"
proof -
  have d: "(a + b) div c = a div c + (a mod c + b) div c" using div_add1_eq [of a b c] assms by simp
  have m: "(a + b) mod c = (a mod c + b) mod c" by (simp only: mod_add_left_eq)
  have r: "a mod c < c" using assms by simp
  show ?thesis
  proof (cases "a mod c + b < c")
    case True
    then show ?thesis unfolding d m by simp
  next
    case False
    define x where "x = a mod c + b - c"
    have x: "a mod c + b = x + c" "x < b" "x < c" using False r assms unfolding x_def by linarith+
    have "(x + c) div c = 1" "(x + c) mod c = x" using x(3) assms div_add_self2 [of c x] by simp_all
    then show ?thesis unfolding d m x(1) using x(2) by simp
  qed
qed

lemma sha512_carry:
  assumes "k < 2 ^ 64"
  shows "(of_nat n + of_nat k :: u64) < of_nat k \<longleftrightarrow> (n + k) mod 2 ^ 64 < k"
proof -
  have "unat (of_nat n + of_nat k :: u64) = (n + k) mod 2 ^ 64"
    unfolding of_nat_add [symmetric] unat_of_nat by simp
  moreover have "unat (of_nat k :: u64) = k" using assms by (simp add: unat_of_nat)
  ultimately show ?thesis by (simp only: word_less_nat_alt)
qed

lemma sha512_hash_holds:
  assumes "sha512_holds h0 m ctx" "length b < 2 ^ 64"
  shows "sha512_holds h0 (m @ b) (sha512_hash ctx b)"
proof -
  obtain w h where loop: "sha512_hash_loop (length m mod 128) b (wbuffer128 ctx) (hash64 ctx) = (w, h)"
    by (meson surj_pair)
  then have holds: "holds_message 128 sha512_process_block128 h0 (m @ b) w h"
    using sha512_stream.loop_holds [of h0 m "wbuffer128 ctx" "hash64 ctx" b w h] assms
    by (simp add: sha512_holds_def)
  have "(if (of_nat (length m) + of_nat (length b) :: u64) < of_nat (length b)
      then of_nat (length m div 2 ^ 64) + 1 else of_nat (length m div 2 ^ 64) :: u64) =
      of_nat ((length m + length b) div 2 ^ 64)"
    unfolding sha512_carry [OF assms(2)] carry_div [OF assms(2)] by simp
  then show ?thesis
    using assms(1) loop holds by (auto simp: sha512_holds_def sha512_hash_def bufpos_128 Let_def split: if_splits)
qed

lemma sha512_hashes_hold:
  "sha512_holds h0 m ctx \<Longrightarrow> (\<And>b. b \<in> set bs \<Longrightarrow> length b < 2 ^ 64) \<Longrightarrow>
     sha512_holds h0 (m @ concat bs) (fold (\<lambda>b ctx. sha512_hash ctx b) bs ctx)"
proof (induction bs arbitrary: m ctx)
  case (Cons b bs)
  then show ?case using Cons.IH [OF sha512_hash_holds [OF Cons.prems(1), of b]] by simp
qed simp

lemma sha512_end_pads:
  assumes "sha512_holds h0 m ctx"
  shows "sha512_end ctx = concat (map (\<lambda>i. rev (le64
    (hash_blocks 128 sha512_process_block128 (padded 128 (be_bytes 16 (8 * length m)) m) h0 ! i))) [0..<8])"
proof -
  have ctx: "total_lo ctx = of_nat (length m)" "total_hi ctx = of_nat (length m div 2 ^ 64)"
    and holds: "holds_message 128 sha512_process_block128 h0 m (wbuffer128 ctx) (hash64 ctx)"
    using assms by (simp_all add: sha512_holds_def)
  have "le64 (bb_bswap_64 (push_bit 3 (total_hi ctx) OR drop_bit 61 (total_lo ctx))) @
      le64 (bb_bswap_64 (push_bit 3 (total_lo ctx))) = be_bytes 16 (8 * length m)"
    unfolding ctx bits_count_high unfolding bits_count le64_bswap le64_of_nat rev_rev_ident be_bytes_16 ..
  moreover have "length (be_bytes 16 (8 * length m)) = 16" by (simp add: be_bytes_def)
  ultimately show ?thesis
    using sha512_stream.finish_pads [OF holds, of "be_bytes 16 (8 * length m)"]
    unfolding sha512_end_def Let_def ctx(1) bufpos_128 by (simp only: le64_bswap ctx [symmetric])
qed
section \<open>The digests are those of the standards\<close>

lemma rfc1321_take: "length h = 8 \<Longrightarrow> length (rfc1321_block b h) = 8 \<and> take 4 (rfc1321_block b h) = rfc1321_block b (take 4 h)"
proof -
  assume h: "length h = 8"
  obtain x0 x1 x2 x3 where f: "fold (rfc1321_step (words_of b)) [0..<64] (h ! 0, h ! 1, h ! 2, h ! 3) = (x0, x1, x2, x3)"
    by (metis prod_cases4)
  then show ?thesis using h by (simp add: rfc1321_block_def md5_add_def take_update_swap)
qed

lemma fips_sha1_take: "length h = 8 \<Longrightarrow> length (fips_sha1_block b h) = 8 \<and> take 5 (fips_sha1_block b h) = fips_sha1_block b (take 5 h)"
proof -
  assume h: "length h = 8"
  obtain x0 x1 x2 x3 x4 where f: "fold (fips_sha1_step b) [0..<80] (h ! 0, h ! 1, h ! 2, h ! 3, h ! 4) = (x0, x1, x2, x3, x4)"
    by (metis prod_cases5)
  then show ?thesis using h by (simp add: fips_sha1_block_def sha1_add_def take_update_swap)
qed

lemma length_sha2_turn: "length r = 8 \<Longrightarrow> length (sha2_turn S0 S1 k w r) = 8"
  by (cases "(S0, S1, k, w, r)" rule: sha2_turn.cases) (simp_all add: Let_def)

lemma length_fips_block: "length h = 8 \<Longrightarrow> length (fips_block n K W S0 S1 h) = 8"
proof -
  assume h: "length h = 8"
  have "length (fold (\<lambda>t. sha2_turn S0 S1 (K t) (W t)) ts h) = 8" for ts
    using h by (induction ts arbitrary: h) (simp_all add: length_sha2_turn)
  then show ?thesis using h by (simp add: fips_block_def)
qed

lemma length_hash_blocks:
  "(\<And>b h. length h = k \<Longrightarrow> length (f b h) = k) \<Longrightarrow> length h = k \<Longrightarrow> length (hash_blocks n f m h) = k"
  using hash_blocks_image [of "\<lambda>h. length h = k" f length "\<lambda>b l. l" h n m] by simp

lemma md5_file_digest:
  assumes "length (wbuffer g) = 64" "length (hash g) = 8"
  shows "md5_end cfg (fold (\<lambda>b ctx. md5_hash cfg ctx b) bs (md5_begin g)) = md5_digest (concat bs)"
proof -
  let ?start = "hash (md5_begin g)" and ?m = "concat bs"
  let ?p = "padded 64 (rev (be_bytes 8 (8 * length ?m))) ?m"
  have "md5_holds cfg Md5_block ?start [] (md5_begin g)"
    using assms by (intro md5_holds_start) (simp_all add: md5_begin_def)
  from common64_end_pads [OF md5_hashes_hold [OF this, of bs], of False]
  have "md5_end cfg (fold (\<lambda>b ctx. md5_hash cfg ctx b) bs (md5_begin g)) =
      concat (map le32 (take 4 (hash_blocks 64 (run_block cfg Md5_block) ?p ?start)))"
    by (simp add: md5_end_def)
  also have "run_block cfg Md5_block = rfc1321_block"
    by (intro ext) (simp add: run_block_def md5_process_block64_rfc)
  also have "take 4 (hash_blocks 64 rfc1321_block ?p ?start) = hash_blocks 64 rfc1321_block ?p (take 4 ?start)"
    using hash_blocks_image [of "\<lambda>h. length h = 8" rfc1321_block "take 4" rfc1321_block ?start 64 ?p] rfc1321_take assms
    by (simp add: md5_begin_def)
  also have "take 4 ?start = [0x67452301, 0xefcdab89, 0x98badcfe, 0x10325476]"
    using assms by (auto simp: md5_begin_def list_eq_iff_nth_eq nth_list_update less_Suc_eq numeral_eq_Suc)
  finally show ?thesis by (simp add: md5_digest_def)
qed

lemma map_nth_take: "k \<le> length h \<Longrightarrow> map (\<lambda>i. f (h ! i)) [0..<k] = map f (take k h)"
  by (rule nth_equalityI) simp_all

lemma map_nth_upt: "length h = k \<Longrightarrow> map (\<lambda>i. f (h ! i)) [0..<k] = map f h"
  using map_nth_take [of k h f] by simp

lemma sha1_file_digest:
  assumes "length (wbuffer g) = 64" "length (hash g) = 8"
  shows "sha1_end cfg (fold (\<lambda>b ctx. md5_hash cfg ctx b) bs (sha1_begin g)) = sha1_digest (concat bs)"
proof -
  let ?start = "hash (sha1_begin g)" and ?m = "concat bs"
  let ?p = "padded 64 (be_bytes 8 (8 * length ?m)) ?m" and ?c = "fold (\<lambda>b ctx. md5_hash cfg ctx b) bs (sha1_begin g)"
  let ?fin = "hash_blocks 64 fips_sha1_block ?p ?start"
  have "md5_holds cfg Sha1_block ?start [] (sha1_begin g)"
    using assms by (intro md5_holds_start) (simp_all add: sha1_begin_def)
  then have holds: "md5_holds cfg Sha1_block ?start ?m ?c"
    using md5_hashes_hold [of cfg Sha1_block ?start "[]" "sha1_begin g" bs] by simp
  have "common64_end cfg True ?c = ?fin"
    using common64_end_pads [OF holds, of True]
      hash_blocks_cong [of 64 "run_block cfg Sha1_block" fips_sha1_block ?p ?start]
    by (simp add: run_block_def sha1_process_block64_fips)
  moreover have take: "length ?fin = 8 \<and> take 5 ?fin = hash_blocks 64 fips_sha1_block ?p (take 5 ?start)"
    using hash_blocks_image [of "\<lambda>h. length h = 8" fips_sha1_block "take 5" fips_sha1_block ?start 64 ?p] fips_sha1_take assms
    by (simp add: sha1_begin_def)
  moreover have "take 5 ?start = [0x67452301, 0xefcdab89, 0x98badcfe, 0x10325476, 0xc3d2e1f0]"
    using assms by (auto simp: sha1_begin_def list_eq_iff_nth_eq nth_list_update less_Suc_eq numeral_eq_Suc)
  moreover have "map (\<lambda>i. rev (le32 (?fin ! i))) [0..<5] = map (\<lambda>w. rev (le32 w)) (take 5 ?fin)"
    using take by (intro map_nth_take) simp
  ultimately show ?thesis
    using holds by (simp add: sha1_end_def md5_holds_def le32_bswap sha1_digest_def)
qed

lemma sha256_file_digest:
  assumes "length (wbuffer g) = 64"
  shows "sha1_end cfg (fold (\<lambda>b ctx. md5_hash cfg ctx b) bs (sha256_begin g)) = sha256_digest (concat bs)"
proof -
  let ?start = "drop 2 init256" and ?m = "concat bs"
  let ?p = "padded 64 (be_bytes 8 (8 * length ?m)) ?m" and ?c = "fold (\<lambda>b ctx. md5_hash cfg ctx b) bs (sha256_begin g)"
  let ?fin = "hash_blocks 64 fips_sha256_block ?p ?start"
  have "un_le64 (concat (map le32 (take 2 init256))) = 0" by code_simp
  then have "md5_holds cfg Sha256_block (hash (sha256_begin g)) [] (sha256_begin g)"
    using assms by (intro md5_holds_start) (simp_all add: sha256_begin_def)
  then have holds: "md5_holds cfg Sha256_block ?start ?m ?c"
    using md5_hashes_hold [of cfg Sha256_block ?start "[]" "sha256_begin g" bs] by (simp add: sha256_begin_def)
  have "common64_end cfg True ?c = ?fin"
    using common64_end_pads [OF holds, of True]
      hash_blocks_cong [of 64 "run_block cfg Sha256_block" fips_sha256_block ?p ?start]
    by (simp add: run_block_def sha256_process_block64_fips)
  moreover have "length ?fin = 8"
    by (rule length_hash_blocks) (simp_all add: fips_sha256_block_def length_fips_block init256_def)
  ultimately show ?thesis
    using holds map_nth_upt [of ?fin 8 "\<lambda>w. rev (le32 w)"]
    by (simp add: sha1_end_def md5_holds_def le32_bswap sha256_digest_def)
qed

lemma sha512_file_digest:
  assumes "length (wbuffer128 g) = 128" "\<And>b. b \<in> set bs \<Longrightarrow> length b < 2 ^ 64"
  shows "sha512_end (fold (\<lambda>b ctx. sha512_hash ctx b) bs (sha512_begin g)) = sha512_digest (concat bs)"
proof -
  define h0 :: "u64 list" where
    "h0 = map2 (\<lambda>hi lo. push_bit 32 (ucast hi) + ucast lo) (drop 2 init256) (drop 2 init512_lo)"
  let ?m = "concat bs" let ?p = "padded 128 (be_bytes 16 (8 * length ?m)) ?m"
  let ?fin = "hash_blocks 128 fips_sha512_block ?p h0"
  have "sha512_begin g = g\<lparr>total_lo := 0, total_hi := 0, hash64 := h0\<rparr>"
    by (simp add: sha512_begin_def h0_def init256_def init512_lo_def)
  then have "sha512_holds h0 [] (sha512_begin g)"
    using assms by (simp add: sha512_holds_def holds_message_def)
  from sha512_end_pads [OF sha512_hashes_hold [OF this assms(2)]]
  have "sha512_end (fold (\<lambda>b ctx. sha512_hash ctx b) bs (sha512_begin g)) = concat (map (\<lambda>i. rev (le64
      (hash_blocks 128 sha512_process_block128 ?p h0 ! i))) [0..<8])"
    by simp
  also have "hash_blocks 128 sha512_process_block128 ?p h0 = ?fin"
    by (rule hash_blocks_cong) (simp add: sha512_process_block128_fips)
  also have "map (\<lambda>i. rev (le64 (?fin ! i))) [0..<8] = map (\<lambda>w. rev (le64 w)) ?fin"
    by (intro map_nth_upt length_hash_blocks)
      (simp_all add: fips_sha512_block_def length_fips_block h0_def init256_def init512_lo_def)
  finally show ?thesis by (simp add: sha512_digest_def h0_def)
qed
section \<open>The digest of a file\<close>

lemma hash_reads_pieces:
  assumes "\<And>b. b \<in> set bs \<Longrightarrow> b \<noteq> [] \<and> length b \<le> length buf"
  shows "\<exists>buf'. length buf' = length buf \<and>
    hash_reads cfg (map Some bs) ctx buf = (Some (fold (\<lambda>b c. hash_update cfg c b) bs ctx), buf')"
  using assms
proof (induction bs arbitrary: ctx buf)
  case (Cons b bs)
  have "length (store_at buf 0 b) = length buf" using Cons.prems [of b] by simp
  then show ?case using Cons.IH [of "store_at buf 0 b" "hash_update cfg ctx b"] Cons.prems by simp
qed simp

lemma fold_hash_update:
  "fold (\<lambda>b c. hash_update cfg c b) bs (Ctx_md5 c) = Ctx_md5 (fold (\<lambda>b c. md5_hash cfg c b) bs c)"
  "fold (\<lambda>b c. hash_update cfg c b) bs (Ctx_sha512 d) = Ctx_sha512 (fold (\<lambda>b c. sha512_hash c b) bs d)"
  "fold (\<lambda>b c. hash_update cfg c b) bs (Ctx_sha3 e) = Ctx_sha3 (fold (\<lambda>b c. sha3_hash (sha3_small cfg) c b) bs e)"
  by (induction bs arbitrary: c d e) simp_all

lemma length_concat_const: "(\<And>x. length (f x) = k) \<Longrightarrow> length (concat (map f xs)) = k * length xs"
  by (induction xs) simp_all

lemma length_digests:
  "length (md5_digest m) = 16" "length (sha1_digest m) = 20" "length (sha256_digest m) = 32"
  "length (sha512_digest m) = 64" "length (fips_sha3 n m) = 200"
proof -
  have "length (hash_blocks 64 rfc1321_block x [0x67452301, 0xefcdab89, 0x98badcfe, 0x10325476]) = 4" for x
    by (rule length_hash_blocks) (simp_all add: rfc1321_block_def md5_add_def split: prod.split)
  then show "length (md5_digest m) = 16" by (simp add: md5_digest_def length_concat_const)
  have "length (hash_blocks 64 fips_sha1_block x [0x67452301, 0xefcdab89, 0x98badcfe, 0x10325476, 0xc3d2e1f0]) = 5" for x
    by (rule length_hash_blocks) (simp_all add: fips_sha1_block_def sha1_add_def split: prod.split)
  then show "length (sha1_digest m) = 20" by (simp add: sha1_digest_def length_concat_const)
  have "length (hash_blocks 64 fips_sha256_block x (drop 2 init256)) = 8" for x
    by (rule length_hash_blocks) (simp_all add: fips_sha256_block_def length_fips_block init256_def)
  then show "length (sha256_digest m) = 32" by (simp add: sha256_digest_def length_concat_const)
  have "length (hash_blocks 128 fips_sha512_block x
      (map2 (\<lambda>hi lo. push_bit 32 (ucast hi) + ucast lo) (drop 2 init256) (drop 2 init512_lo))) = 8" for x
    by (rule length_hash_blocks) (simp_all add: fips_sha512_block_def length_fips_block init256_def init512_lo_def)
  then show "length (sha512_digest m) = 64" by (simp add: sha512_digest_def length_concat_const)
  show "length (fips_sha3 n m) = 200" by (simp add: fips_sha3_def length_concat_const)
qed

lemma take_store: "length d \<le> length buf \<Longrightarrow> k \<le> length d \<Longrightarrow> take k (store_at buf 0 d) = take k d"
  by (simp add: store_at_def)

text \<open>What the context computes, for every algorithm that \<open>standard_digest\<close> names.\<close>

lemma hash_context_digest:
  assumes g: "length (wbuffer g) = 64" "length (hash g) = 8" "length (wbuffer128 g512) = 128"
    and bs: "\<And>b. b \<in> set bs \<Longrightarrow> length b \<le> BUFSZ"
    and std: "standard_digest algo width = Some d"
  shows "\<exists>ctx k. hash_select g g512 algo width = Some (ctx, k) \<and>
    k \<le> length (hash_final cfg algo (fold (\<lambda>b c. hash_update cfg c b) bs ctx)) \<and>
    length (hash_final cfg algo (fold (\<lambda>b c. hash_update cfg c b) bs ctx)) \<le> 64 \<and>
    take k (hash_final cfg algo (fold (\<lambda>b c. hash_update cfg c b) bs ctx)) = d (concat bs)"
proof -
  have small: "length b < 2 ^ 64" if "b \<in> set bs" for b using bs [OF that] by (simp add: BUFSZ_def)
  consider "algo = CHR ''s''" "d = md5_digest" | "algo = CHR ''1''" "d = sha1_digest"
    | "algo = CHR ''2''" "d = sha256_digest" | "algo = CHR ''5''" "d = sha512_digest"
    | "algo = CHR ''3''" "width \<in> {224, 256, 384, 512}" "d = sha3_digest width"
    using std by (auto simp: standard_digest_def split: if_splits)
  then show ?thesis
  proof cases
    case 1
    then show ?thesis using g by (simp add: hash_select_def fold_hash_update md5_file_digest length_digests)
  next
    case 2
    then show ?thesis using g by (simp add: hash_select_def fold_hash_update sha1_file_digest length_digests)
  next
    case 3
    then show ?thesis using g by (simp add: hash_select_def fold_hash_update sha256_file_digest length_digests)
  next
    case 4
    then show ?thesis using g small by (simp add: hash_select_def fold_hash_update sha512_file_digest length_digests)
  next
    case 5
    let ?n = "1600 div 8 - width div 4" let ?c = "sha3_begin\<lparr>input_block_bytes := ?n\<rparr>"
    have w: "width AND 0x1f = 0" "width < 800" "width \<noteq> 0" "200 - 2 * (width div 8) = ?n" "width div 4 div 2 = width div 8"
      "width div 8 \<le> 64" "8 dvd ?n" "0 < ?n" "?n \<le> 200"
      using 5(2) by auto
    have "sha3_wf ?c" using w by (simp add: sha3_wf_def sha3_begin_def)
    then have "sha3_end (sha3_small cfg) (fold (\<lambda>b c. sha3_hash (sha3_small cfg) c b) bs ?c) = take 64 (fips_sha3 ?n (concat bs))"
      using sha3_digest [of ?c "sha3_small cfg" bs] by (simp add: sha3_begin_def)
    then show ?thesis
      using 5(1, 3) w by (simp add: hash_select_def fold_hash_update sha3_digest_def length_digests min_def)
  qed
qed

lemma hash_file_digest:
  assumes "length (wbuffer g) = 64" "length (hash g) = 8" "length (wbuffer128 g512) = 128"
    and "files name = Some (map Some bs)" "\<And>b. b \<in> set bs \<Longrightarrow> b \<noteq> [] \<and> length b \<le> BUFSZ"
    and "length buf = BUFSZ" "standard_digest (applet ! 3) width = Some d"
  shows "\<exists>buf'. length buf' = BUFSZ \<and>
    hash_file cfg g g512 files applet width buf name = Some (Some (bin2hex (d (concat bs))), buf')"
proof -
  obtain ctx k where sel: "hash_select g g512 (applet ! 3) width = Some (ctx, k)"
    and fin: "k \<le> length (hash_final cfg (applet ! 3) (fold (\<lambda>b c. hash_update cfg c b) bs ctx))"
      "length (hash_final cfg (applet ! 3) (fold (\<lambda>b c. hash_update cfg c b) bs ctx)) \<le> 64"
      "take k (hash_final cfg (applet ! 3) (fold (\<lambda>b c. hash_update cfg c b) bs ctx)) = d (concat bs)"
    using hash_context_digest [OF assms(1-3) _ assms(7), of bs cfg] assms(5) by blast
  obtain buf1 where "length buf1 = BUFSZ"
    "hash_reads cfg (map Some bs) ctx buf = (Some (fold (\<lambda>b c. hash_update cfg c b) bs ctx), buf1)"
    using hash_reads_pieces [of bs buf cfg ctx] assms(5, 6) by auto
  then show ?thesis
    using sel fin assms(4) by (simp add: hash_file_def Let_def take_store BUFSZ_def)
qed

section \<open>Hexadecimal text\<close>

lemma hex_digit_table:
  "hex_digit 0 = CHR ''0''" "hex_digit 1 = CHR ''1''" "hex_digit 2 = CHR ''2''" "hex_digit 3 = CHR ''3''"
  "hex_digit 4 = CHR ''4''" "hex_digit 5 = CHR ''5''" "hex_digit 6 = CHR ''6''" "hex_digit 7 = CHR ''7''"
  "hex_digit 8 = CHR ''8''" "hex_digit 9 = CHR ''9''" "hex_digit 10 = CHR ''a''" "hex_digit 11 = CHR ''b''"
  "hex_digit 12 = CHR ''c''" "hex_digit 13 = CHR ''d''" "hex_digit 14 = CHR ''e''" "hex_digit 15 = CHR ''f''"
  by (simp_all add: hex_digit_def bb_hexdigits_upcase_def char_of_byte_def byte_of_char_def char_of_def bit_0)

lemma hex_value_table:
  "hex_value 48 = Some 0" "hex_value 49 = Some 1" "hex_value 50 = Some 2" "hex_value 51 = Some 3"
  "hex_value 52 = Some 4" "hex_value 53 = Some 5" "hex_value 54 = Some 6" "hex_value 55 = Some 7"
  "hex_value 56 = Some 8" "hex_value 57 = Some 9" "hex_value 97 = Some 10" "hex_value 98 = Some 11"
  "hex_value 99 = Some 12" "hex_value 100 = Some 13" "hex_value 101 = Some 14" "hex_value 102 = Some 15"
  by (simp_all add: hex_value_def)

lemma upt_16: "[0..<16] = [0, 1, 2, 3, 4, 5, 6, 7, 8, 9, 10, 11, 12, 13, 14, 15 :: nat]"
  by code_simp

lemma hex_digits: "\<forall>n \<in> set (map of_nat [0..<16]). hex_value (byte_of_char (hex_digit n)) = Some n \<and>
    hex_digit n \<notin> {CHR '' '', CHR 0x0A, CHR 0x00} \<and> byte_of_char (hex_digit n) \<noteq> 0x3a \<and> byte_of_char (hex_digit n) \<noteq> 0"
  unfolding upt_16 by (simp add: hex_digit_table hex_value_table byte_of_char_def)

lemma nibble:
  assumes "unat (n :: u8) < 16"
  shows "hex_value (byte_of_char (hex_digit n)) = Some n" "hex_digit n \<notin> {CHR '' '', CHR 0x0A, CHR 0x00}"
    "byte_of_char (hex_digit n) \<noteq> 0x3a" "byte_of_char (hex_digit n) \<noteq> 0"
proof -
  have "n = of_nat (unat n)" by simp
  then have "n \<in> set (map of_nat [0..<16])" using assms by (metis atLeastLessThan_iff image_eqI list.set_map set_upt zero_le)
  then show "hex_value (byte_of_char (hex_digit n)) = Some n" "hex_digit n \<notin> {CHR '' '', CHR 0x0A, CHR 0x00}"
    "byte_of_char (hex_digit n) \<noteq> 0x3a" "byte_of_char (hex_digit n) \<noteq> 0"
    using hex_digits by blast+
qed

lemma nibbles: "unat (drop_bit 4 (c :: u8)) < 16" "unat (c AND 0xf) < 16"
proof -
  show "unat (drop_bit 4 c) < 16"
    using unsigned_less [of c, where ?'a = nat] by (simp add: drop_bit_eq_div unat_div)
  have "mask 4 = (0xf :: u8)" by (simp add: mask_eq_exp_minus_1)
  then have "c AND 0xf = take_bit 4 c" using take_bit_eq_mask [of 4 c] by simp
  then show "unat (c AND 0xf) < 16"
    by (simp add: take_bit_eq_mod unat_mod)
qed

lemma nibbles_join: "push_bit 4 (drop_bit 4 c) OR (c AND 0xf) = (c :: u8)"
proof -
  have m: "mask 4 = (0xf :: u8)" by (simp add: mask_eq_exp_minus_1)
  show ?thesis
    unfolding m [symmetric] by (rule bit_word_eqI) (auto simp: bit_simps)
qed

lemma bin2hex_chars: "c \<in> set (bin2hex bs) \<Longrightarrow> c \<notin> {CHR '' '', CHR 0x0A, CHR 0x00}"
  using nibble(2) [OF nibbles(1)] nibble(2) [OF nibbles(2)] by (auto simp: bin2hex_def)

declare hex2bin.simps [simp del]

lemma hex2bin_bin2hex: "hex2bin (bytes_of_string (bin2hex bs)) (length bs) = Some (bs, False)"
proof (induction bs)
  case Nil
  show ?case by (simp add: bin2hex_def bytes_of_string_def hex2bin.simps)
next
  case (Cons b bs)
  let ?rest = "bytes_of_string (bin2hex bs)"
  have start: "?rest = [] \<or> hd ?rest \<noteq> 0x3a"
    using nibble(3) [OF nibbles(1)] by (cases bs) (simp_all add: bin2hex_def bytes_of_string_def)
  have str: "bytes_of_string (bin2hex (b # bs)) =
      byte_of_char (hex_digit (drop_bit 4 b)) # byte_of_char (hex_digit (b AND 0xf)) # ?rest"
    by (simp add: bin2hex_def bytes_of_string_def)
  show ?case
    unfolding str
    using nibble [OF nibbles(1) [of b]] nibble [OF nibbles(2) [of b]] start Cons.IH nibbles_join [of b]
    by (subst hex2bin.simps) (auto simp: Let_def)
qed
section \<open>A list of checksums checks\<close>

lemma fgetline_line:
  assumes "CHR 0x00 \<notin> set line" "CHR 0x0A \<notin> set line"
  shows "xmalloc_fgetline (line @ CHR 0x0A # rest) = Some (line, rest)"
proof -
  have "takeWhile (\<lambda>ch. ch \<noteq> CHR 0x00 \<and> ch \<noteq> CHR 0x0A) (line @ CHR 0x0A # rest) = line"
    using assms by (subst takeWhile_append2) auto
  then show ?thesis using assms by (simp add: xmalloc_fgetline_def bb_get_chunk_from_file_def Let_def)
qed

lemma strcasecmp_eq_refl: "strcasecmp_eq s s"
  by (simp add: strcasecmp_eq_def Let_def)

definition sum_line :: "string \<Rightarrow> string \<Rightarrow> string" where
  "sum_line h name = h @ ''  '' @ name"

lemma check_line_ok:
  assumes "CHR '' '' \<notin> set h" "hf (sum_buf s) name = Some (Some h, buf)"
  shows "check_line hf flags (sum_line h name) (s, n, k) =
    Some (s\<lparr>sum_buf := buf, sum_out := (if flag_silent flags then sum_out s else sum_out s @ name @ '': OK'' @ [CHR 0x0A])\<rparr>,
      n + 1, k)"
proof -
  have "takeWhile (\<lambda>c. c \<noteq> CHR '' '') (sum_line h name) = h"
    using assms(1) unfolding sum_line_def by (subst takeWhile_append2) auto
  then show ?thesis
    using assms(2) by (simp add: check_line_def sum_line_def strcasecmp_eq_refl)
qed

declare check_lines.simps [simp del]

text \<open>What a hasher must do for the names of the list: a fixed text for each name, whatever the buffer holds.\<close>

definition hashes_to :: "hasher \<Rightarrow> (bytes \<Rightarrow> bool) \<Rightarrow> (string \<Rightarrow> string) \<Rightarrow> string \<Rightarrow> bool" where
  "hashes_to hf ok H name \<longleftrightarrow> (\<forall>buf. ok buf \<longrightarrow> (\<exists>buf'. ok buf' \<and> hf buf name = Some (Some (H name), buf'))) \<and>
     (\<forall>c \<in> {CHR '' '', CHR 0x0A, CHR 0x00}. c \<notin> set (H name))"

lemma print_lines:
  assumes "\<And>name. name \<in> set names \<Longrightarrow> hashes_to hf ok H name" "ok (sum_buf s)" "\<not> flag_check flags"
  shows "\<exists>buf. ok buf \<and> sum_args hf streams flags names s = Some (s\<lparr>sum_buf := buf,
    sum_out := sum_out s @ concat (map (\<lambda>name. sum_line (H name) name @ [CHR 0x0A]) names)\<rparr>)"
  using assms(1, 2)
proof (induction names arbitrary: s)
  case Nil
  then show ?case by (intro exI [of _ "sum_buf s"]) simp
next
  case (Cons name names)
  obtain buf where buf: "ok buf" "hf (sum_buf s) name = Some (Some (H name), buf)"
    using Cons.prems by (auto simp: hashes_to_def)
  let ?s = "s\<lparr>sum_out := sum_out s @ H name @ ''  '' @ name @ [CHR 0x0A], sum_buf := buf\<rparr>"
  have "sum_arg hf streams flags name s = Some ?s"
    using buf assms(3) by (simp add: sum_arg_def)
  moreover obtain buf' where "ok buf'" "sum_args hf streams flags names ?s = Some (?s\<lparr>sum_buf := buf',
      sum_out := sum_out ?s @ concat (map (\<lambda>name. sum_line (H name) name @ [CHR 0x0A]) names)\<rparr>)"
    using Cons.IH [of ?s] Cons.prems(1) buf(1) by auto
  ultimately show ?case by (intro exI [of _ buf']) (simp add: sum_line_def)
qed

lemma check_printed_lines:
  assumes "\<And>name. name \<in> set names \<Longrightarrow> hashes_to hf ok H name \<and> CHR 0x0A \<notin> set name \<and> CHR 0x00 \<notin> set name"
    and "ok (sum_buf s)" "\<not> flag_silent flags"
  shows "\<exists>buf. ok buf \<and>
    check_lines hf flags (concat (map (\<lambda>name. sum_line (H name) name @ [CHR 0x0A]) names)) (s, n, k) =
      Some (s\<lparr>sum_buf := buf, sum_out := sum_out s @ concat (map (\<lambda>name. name @ '': OK'' @ [CHR 0x0A]) names)\<rparr>,
        n + length names, k)"
  using assms(1, 2)
proof (induction names arbitrary: s n)
  case Nil
  then show ?case
    by (subst check_lines.simps) (auto simp: xmalloc_fgetline_def bb_get_chunk_from_file_def intro!: exI [of _ "sum_buf s"])
next
  case (Cons name names)
  obtain buf where buf: "ok buf" "hf (sum_buf s) name = Some (Some (H name), buf)"
    using Cons.prems by (auto simp: hashes_to_def)
  have free: "c \<notin> set (H name)" if "c \<in> {CHR '' '', CHR 0x0A, CHR 0x00}" for c
    using Cons.prems(1) [of name] that by (auto simp: hashes_to_def)
  let ?s = "s\<lparr>sum_buf := buf, sum_out := sum_out s @ name @ '': OK'' @ [CHR 0x0A]\<rparr>"
  let ?rest = "concat (map (\<lambda>name. sum_line (H name) name @ [CHR 0x0A]) names)"
  have "check_line hf flags (sum_line (H name) name) (s, n, k) = Some (?s, n + 1, k)"
    using check_line_ok [of "H name" hf s name buf flags n k] free buf assms(3) by simp
  moreover have "xmalloc_fgetline (sum_line (H name) name @ CHR 0x0A # ?rest) = Some (sum_line (H name) name, ?rest)"
    using free Cons.prems(1) [of name] by (intro fgetline_line) (auto simp: sum_line_def)
  moreover obtain buf' where "ok buf'" "check_lines hf flags ?rest (?s, n + 1, k) =
      Some (?s\<lparr>sum_buf := buf', sum_out := sum_out ?s @ concat (map (\<lambda>name. name @ '': OK'' @ [CHR 0x0A]) names)\<rparr>,
        n + 1 + length names, k)"
    using Cons.IH [of ?s "n + 1"] Cons.prems(1) buf(1) by auto
  ultimately show ?case
    by (intro exI [of _ buf']) (subst check_lines.simps, simp)
qed

lemma hash_file_hashes_to:
  assumes "length (wbuffer g) = 64" "length (hash g) = 8" "length (wbuffer128 g512) = 128"
    and "standard_digest (applet ! 3) width = Some d"
    and "files name = Some (map Some bs)" "\<And>b. b \<in> set bs \<Longrightarrow> b \<noteq> [] \<and> length b \<le> BUFSZ"
  shows "hashes_to (hash_file cfg g g512 files applet width) (\<lambda>buf. length buf = BUFSZ)
    (\<lambda>name. bin2hex (d (concat (map the (the (files name)))))) name"
  unfolding hashes_to_def
proof (intro conjI allI impI ballI)
  fix buf :: bytes
  assume "length buf = BUFSZ"
  then have "\<exists>buf'. length buf' = BUFSZ \<and>
      hash_file cfg g g512 files applet width buf name = Some (Some (bin2hex (d (concat bs))), buf')"
    using assms by (intro hash_file_digest) auto
  moreover have "map the (the (files name)) = bs" using assms(5) by (simp add: comp_def)
  ultimately show "\<exists>buf'. length buf' = BUFSZ \<and> hash_file cfg g g512 files applet width buf name =
      Some (Some (bin2hex (d (concat (map the (the (files name)))))), buf')"
    by simp
qed (use bin2hex_chars in blast)

section \<open>Wide digests\<close>

text \<open>
  \<open>hash_file\<close> admits widths up to 768 bits, but \<open>sha3_end\<close> delivers 64 bytes. The bytes that are
  missing are taken from the read buffer: the text ends with a part of the file.
\<close>

lemma sha3_wide_digest_leaks:
  assumes "width \<in> {544, 576, 608, 640, 672, 704, 736, 768}" "applet ! 3 = CHR ''3''"
    and "files name = Some [Some b]" "96 \<le> length b" "length b \<le> length buf"
  shows "\<exists>digest buf'. length digest = 64 \<and>
    hash_file cfg g g512 files applet width buf name =
      Some (Some (bin2hex (digest @ take (width div 8 - 64) (drop 64 b))), buf')"
proof -
  let ?n = "1600 div 8 - width div 4" let ?c = "sha3_begin\<lparr>input_block_bytes := ?n\<rparr>"
  let ?digest = "sha3_end (sha3_small cfg) (sha3_hash (sha3_small cfg) ?c b)"
  have w: "width AND 0x1f = 0" "width < 800" "width \<noteq> 0" "width div 4 div 2 = width div 8" "64 \<le> width div 8"
    "width div 8 \<le> 96" "8 dvd ?n" "0 < ?n" "?n \<le> 200"
    using assms(1) by auto
  have "sha3_wf ?c" using w by (simp add: sha3_wf_def sha3_begin_def)
  then have "?digest = take 64 (fips_sha3 ?n b)"
    using sha3_digest [of ?c "sha3_small cfg" "[b]"] by (simp add: sha3_begin_def)
  then have len: "length ?digest = 64" by (simp add: length_digests)
  have "b \<noteq> []" using assms(4) by auto
  moreover have "take (width div 8) (store_at (store_at buf 0 b) 0 ?digest) = ?digest @ take (width div 8 - 64) (drop 64 b)"
    using len w assms(4, 5) by (simp add: store_at_def)
  ultimately show ?thesis
    using len w assms(2, 3) by - (rule exI [of _ ?digest], simp add: hash_file_def hash_select_def Let_def)
qed

section \<open>Properties\<close>

definition example_ctx :: md5_ctx where
  "example_ctx = \<lparr>wbuffer = replicate 64 0x55, process_block = Sha1_block, total64 = 7, hash = replicate 8 0x77\<rparr>"

definition example_ctx512 :: sha512_ctx where
  "example_ctx512 = \<lparr>total_lo = 3, total_hi = 5, hash64 = replicate 8 0, wbuffer128 = replicate 128 0x33\<rparr>"

definition example_config :: digest_config where
  "example_config = \<lparr>md5_small = 1, sha1_small = 3, sha3_small = True, stack_words = (\<lambda>w h i. 0xdeadbeef)\<rparr>"

definition example_files :: files where
  "example_files name = Some (map Some [[1, 2, 3], [4], replicate 70 9])"


text \<open>C40: What the applets print they accept. When every named file can be read and no name contains a newline
  or a NUL byte, a run over the names succeeds, and a run with option -c on its output reports OK for every name, in
  order, prints no warning and succeeds.\<close>

theorem printed_sums_check:
  assumes "length (wbuffer g) = 64" "length (hash g) = 8" "length (wbuffer128 g512) = 128" "length buf = BUFSZ"
    and "standard_digest (applet ! 3) width = Some d" "names \<noteq> []"
    and "\<And>name. name \<in> set names \<Longrightarrow> files name = Some (map Some (pieces name)) \<and> CHR 0x0A \<notin> set name \<and> CHR 0x00 \<notin> set name"
    and "\<And>name b. name \<in> set names \<Longrightarrow> b \<in> set (pieces name) \<Longrightarrow> b \<noteq> [] \<and> length b \<le> BUFSZ"
    and "\<not> flag_check flags" "flag_check flags'" "\<not> flag_silent flags'"
  shows "\<exists>s. md5_sha1_sum_main (hash_file cfg g g512 files applet width) streams flags buf names = Some s \<and>
    return_value s = 0 \<and>
    (\<exists>s'. md5_sha1_sum_main (hash_file cfg g g512 files applet width) (streams(list \<mapsto> sum_out s)) flags' buf [list] = Some s' \<and>
      return_value s' = 0 \<and> sum_err s' = [] \<and> sum_out s' = concat (map (\<lambda>name. name @ '': OK'' @ [CHR 0x0A]) names))"
proof -
  let ?hf = "hash_file cfg g g512 files applet width" and ?ok = "\<lambda>buf :: bytes. length buf = BUFSZ"
  let ?H = "\<lambda>name. bin2hex (d (concat (map the (the (files name)))))"
  let ?s0 = "\<lparr>sum_out = [], sum_err = [], return_value = 0, sum_buf = buf\<rparr>"
  have hashes: "hashes_to ?hf ?ok ?H name" if "name \<in> set names" for name
    using assms(1-5, 7, 8) that by (intro hash_file_hashes_to) auto
  have buf: "?ok (sum_buf ?s0)" using assms(4) by simp
  obtain b1 where print: "sum_args ?hf streams flags names ?s0 = Some (?s0\<lparr>sum_buf := b1,
      sum_out := concat (map (\<lambda>name. sum_line (?H name) name @ [CHR 0x0A]) names)\<rparr>)"
    using print_lines [OF hashes buf assms(9), of names streams] by auto
  obtain b2 where check: "check_lines ?hf flags' (concat (map (\<lambda>name. sum_line (?H name) name @ [CHR 0x0A]) names)) (?s0, 0, 0) =
      Some (?s0\<lparr>sum_buf := b2, sum_out := concat (map (\<lambda>name. name @ '': OK'' @ [CHR 0x0A]) names)\<rparr>, length names, 0)"
    using check_printed_lines [of names ?hf ?ok ?H ?s0 flags' 0 0] hashes assms(7, 11) buf by auto
  show ?thesis
    using print check assms(6, 10) by (auto simp: md5_sha1_sum_main_def sum_arg_def)
qed

theorem printed_sums_check_witness:
  "\<exists>s. md5_sha1_sum_main (hash_file example_config example_ctx example_ctx512 example_files ''md5sum'' 224) (\<lambda>_. None)
      \<lparr>flag_silent = False, flag_check = False, flag_warn = False\<rparr> (replicate BUFSZ 0) [''a'', ''b''] = Some s \<and>
    return_value s = 0 \<and>
    (\<exists>s'. md5_sha1_sum_main (hash_file example_config example_ctx example_ctx512 example_files ''md5sum'' 224)
        (Map.empty(''sums'' \<mapsto> sum_out s))
        \<lparr>flag_silent = False, flag_check = True, flag_warn = True\<rparr> (replicate BUFSZ 0) [''sums''] = Some s' \<and>
      return_value s' = 0 \<and> sum_err s' = [] \<and>
      sum_out s' = concat (map (\<lambda>name. name @ '': OK'' @ [CHR 0x0A]) [''a'', ''b'']))"
  by (rule printed_sums_check [where d = md5_digest and pieces = "\<lambda>_. [[1, 2, 3], [4], replicate 70 9]"])
    (auto simp: example_ctx_def example_ctx512_def example_files_def standard_digest_def BUFSZ_def)

end
