(* ===== verification/Spec2Isabelle.thy ===== *)
theory Spec2Isabelle
  imports Shm_Node Vehicle Bb_Base32 Bb_Factor Bb_Crc32 Bb_Path Bb_Mode Bb_Cal Bb_Digest
begin

text \<open>
  Verification of the communication stack of an autonomous vehicle and of parts of the user land on
  which its virtual machines run.

  \<^bold>\<open>The program.\<close> Each virtual machine is one car or one piece of road-side equipment. \<open>src/src/main.cpp\<close>
  reads the command line and starts a car (\<open>car.cpp\<close>): a gateway and a number of components (power train,
  brake, steering, transmission, airbag; \<open>components.h\<close>), each a process with its own network card
  (\<open>nic.cpp\<close>), protocol object (\<open>protocol.h\<close>) and communicator (\<open>communicator.h\<close>). The processes of a car
  talk over a bus in shared memory (\<open>shm_node.cpp\<close>, \<open>engine_shm.cpp\<close>), gateways of different cars over raw
  Ethernet (\<open>engine_ethernet.cpp\<close>). A gateway broadcasts what it hears on its bus and puts on the bus
  what it hears from other cars of its group. The protocol layer adds a start barrier, clock
  synchronisation, groups of machines with a coordinator, and an authentication code for control messages.
  Components publish data periodically to subscribers (\<open>publish_subscriber.h\<close>). The machines run BusyBox
  (\<open>src/busybox\<close>); some of its libraries and applets are modelled too.

  \<^bold>\<open>Conventions.\<close> Classes are records, enumerations datatypes, methods functions from the old state to the
  new one. Words have their width (\<open>u8\<close> to \<open>u64\<close>); signed C++ integers are \<open>int\<close> and are brought back to
  their range by \<open>to_i32\<close> and \<open>to_i64\<close>. A call that can throw or touch memory outside an object returns
  \<open>'a res\<close>, an error or a value. What the program does to its machine (frames sent, blobs put on the bus,
  log lines, clock adjustments) is recorded in the record \<open>world\<close>, and what it observes there (clock,
  results of system calls, random numbers) is chosen by the environment.

  \<^bold>\<open>Theories of the vehicle program\<close>, from the bottom up:
  \<^item> \<open>Prelude\<close>: machine integers, \<open>res\<close>, byte images, list lemmas. \<open>Cxx_Strings\<close>: the operations of
    \<open>std::string\<close> and the numeric conversions, with their round trips.
  \<^item> \<open>Ethernet\<close> (\<open>ethernet.h\<close>): addresses, frames, printing and scanning of addresses. \<open>World\<close>
    (\<open>utils.h\<close>): the boundary to the machine. \<open>Observer\<close> (\<open>observer.h\<close>): attach, detach, notify, and the
    interface \<open>observer_contract\<close>: what every observer keeps, a notification keeps.
  \<^item> \<open>Engine_Shm\<close> (\<open>engine_shm.cpp\<close>): \<open>serialize_frame\<close>, \<open>deserialize_frame\<close>, sending and receiving; a frame
    that fits is received as sent, and exactly which blobs are read beyond their end.
  \<^item> \<open>Shm_Node\<close> (\<open>shm_node.cpp\<close>): the bus as a step relation \<open>bus_step\<close> over all interleavings of readers and
    senders, with mutexes, condition variable and barrier; mutual exclusion, delivery of a round with any
    number of processes, and two interleavings that go wrong (loss of a message, deadlock).
  \<^item> \<open>Engine_Ethernet\<close> (\<open>engine_ethernet.cpp\<close>): set-up of the socket with every failing call, sending,
    receiving, and the hand-over from the signal handler to the receiving thread (\<open>rx_step\<close>), which loses no
    wake-up. \<open>Nic\<close> (\<open>nic.cpp\<close>): routing between the engines, and the interface \<open>link\<close>.
  \<^item> \<open>Clock_Syncer\<close> (\<open>clock_syncer.h\<close>): samples, averages, adjustment; invariant and overflow of the average.
  \<^item> \<open>Protocol_Message\<close>, \<open>Protocol\<close>, \<open>Protocol_Sync\<close>, \<open>Protocol_Groups\<close> (\<open>protocol.h\<close>): the text of a message
    (\<open>build_message\<close>, \<open>parse_message\<close>, inverse to each other on well-formed messages), the code
    (\<open>generate_mac\<close>), \<open>update\<close> with all handlers, delivery to port observers, the complete list of
    exceptions, the start barrier, the clock exchange, and the table of groups.
  \<^item> \<open>Node\<close>: a protocol on its card and engine; invariants over any sequence of packets, and the clock
    exchange between two nodes from packet to packet.
  \<^item> \<open>Communicator\<close> (\<open>communicator.h\<close>), \<open>Pub_Sub\<close> (\<open>publish_subscriber.h\<close>), \<open>Car_Component\<close>
    (\<open>car_component.h\<close>), \<open>Components\<close> (\<open>components.h\<close>), \<open>Gateway\<close> (\<open>gateway.h\<close>): queue (interface \<open>fifo\<close>),
    schedule of publications, and the interface \<open>component_class\<close> that every component and the gateway meet.
  \<^item> \<open>Vehicle\<close> (\<open>car.cpp\<close>, \<open>main.cpp\<close>): the start of the program, and the path of a text from a component
    of one car to the components of another.

  \<^bold>\<open>Theories of the user land\<close>, with the file of \<open>src/busybox\<close> they model:
  \<^item> \<open>Bb_Base64\<close>, \<open>Bb_Base32\<close> (\<open>libbb/uuencode.c\<close>, \<open>coreutils/uudecode.c\<close>): encoders and decoders with their
    round trips. \<open>Bb_Strtonum\<close> (\<open>libbb/bb_strtonum.c\<close>): which texts are accepted as numbers.
  \<^item> \<open>Bb_Wheel\<close>, \<open>Bb_Factor\<close> (\<open>coreutils/factor.c\<close>, \<open>libbb/isqrt.c\<close>): \<open>factor\<close> ends and prints the prime
    factors of every 64-bit number.
  \<^item> \<open>Bb_Crc32\<close> (\<open>libbb/crc32.c\<close>, \<open>coreutils/cksum.c\<close>), \<open>Bb_Path\<close> (\<open>libbb/simplify_path.c\<close>), \<open>Bb_Mode\<close>
    (\<open>libbb/parse_mode.c\<close>, \<open>libbb/mode_string.c\<close>), \<open>Bb_Cal\<close> (\<open>util-linux/cal.c\<close>): each against a reference
    definition.
  \<^item> \<open>Bb_Block_Stream\<close>, \<open>Bb_Md5\<close>, \<open>Bb_Sha\<close>, \<open>Bb_Sha3\<close>, \<open>Bb_Digest\<close> (\<open>libbb/hash_md5_sha.c\<close>,
    \<open>coreutils/md5_sha1_sum.c\<close>, and the helpers in \<open>libbb/xfuncs.c\<close> and \<open>libbb/get_line_from_file.c\<close>): the
    interface \<open>block_stream\<close> says how a digest collects its input, and is interpreted by the loops for blocks of
    64 and of 128 bytes; the block functions in all their size variants equal those of RFC 1321, FIPS 180-2 and
    FIPS 202; the constants of SHA-2 are the roots they should be; the applets print the digests of the standards
    and accept with \<open>-c\<close> what they print.

  \<^bold>\<open>Termination.\<close> No definition runs on fuel. Loops are structural recursions or functions with a
  termination proof: the loops of the digests consume their input or return to the start of the buffer, the
  loop of the padding runs at most twice. \<open>factor_run\<close> is a partial function to \<open>option\<close>, since the calls of
  \<open>factor.c\<close> have no obvious measure; that it returns is proved for every 64-bit number. The threads
  of the bus and of the receiver run for ever and are step relations.

  \<^bold>\<open>Parameters.\<close> The clock, the results of system calls, the C library's \<open>strtoull\<close> and \<open>strtoll\<close> as
  documented, the umask, the current directory, the contents and the cutting of files into reads, uninitialised
  memory and the size options of the configuration are arguments; nothing is assumed of them beyond what the
  theorems state.

  \<^bold>\<open>Not modelled.\<close> The memory model of the hardware: threads interleave by statements or by critical
  sections. Printing of status lines in \<open>clock_syncer.h\<close> and its statistics in floating point, whose only
  user, \<open>hasEnoughSamplesCI\<close>, is called by \<open>protocol.h\<close> without using the result;
  \<open>compute_stats\<close> of \<open>utils.h\<close>, which is never called. \<open>engine.h\<close>, which only declares. The scripts that build
  and start the machines, and \<open>tools/analyze_latency.py\<close>, an offline script over regular expressions and
  floating-point statistics. Of BusyBox, everything that is not listed above: it is a vendored third-party
  tree that the vehicle program does not call. Of the digests, the versions in assembler, the version of SHA-3
  for 32-bit hosts and big-endian hosts; of \<open>uuencode.c\<close> and \<open>uudecode.c\<close>, the loops over streams; of
  \<open>cal.c\<close>, the headings, which depend on the locale; option parsing by \<open>getopt32\<close>.
\<close>

end
